(* ===== verification/Prelude.thy ===== *)
theory Prelude
  imports Main "HOL-Library.AList" "HOL-Library.Multiset" "HOL-Library.Word"
begin

section \<open>Shared vocabulary of the development\<close>

text \<open>
  What every component uses: Go's \<open>error\<close> results as a sum type with an error bind, Go's
  strings (byte strings, \<^typ>\<open>string\<close>) with \<open>strings.Split\<close> on a one-byte separator and
  \<open>strings.Contains\<close>, Go's \<open>int64\<close>, Go's \<open>map\<close> as an association list with distinct keys
  (a map that is ranged over has an unspecified order, so the order of the list is the order of one
  iteration), and the collections of simplification rules the components extend.
\<close>

named_theorems res_iff \<open>when an error computation returns a value\<close>
named_theorems model_defs \<open>definitions that the proofs of a component unfold\<close>

subsection \<open>Results\<close>

text \<open>
  \<open>Err m\<close> is a non-nil \<open>error\<close> whose text is \<open>m\<close>; \<open>Panic m\<close> is a run-time panic (a nil
  dereference, for instance), which no caller in this program recovers.
\<close>

datatype error = Err string | Panic string

type_synonym 'a result = "error + 'a"

definition bind_res :: "'a result \<Rightarrow> ('a \<Rightarrow> 'b result) \<Rightarrow> 'b result" where
  "bind_res r f = (case r of Inl e \<Rightarrow> Inl e | Inr x \<Rightarrow> f x)"

lemma bind_res_simps [simp]:
  "bind_res (Inl e) f = Inl e"
  "bind_res (Inr x) f = f x"
  by (simp_all add: bind_res_def)

lemma bind_res_Inr_iff [res_iff]:
  "bind_res r f = Inr y \<longleftrightarrow> (\<exists>x. r = Inr x \<and> f x = Inr y)"
  by (cases r) auto

lemma bind_res_Inl_iff [res_iff]:
  "bind_res r f = Inl e \<longleftrightarrow> r = Inl e \<or> (\<exists>x. r = Inr x \<and> f x = Inl e)"
  by (cases r) auto

lemma bind_res_cong [fundef_cong]:
  "r = r' \<Longrightarrow> (\<And>x. r' = Inr x \<Longrightarrow> f x = f' x) \<Longrightarrow> bind_res r f = bind_res r' f'"
  by (cases r') auto

text \<open>The results of several calls, in order; the first failure wins.\<close>

fun concat_res :: "('a list) result list \<Rightarrow> ('a list) result" where
  "concat_res [] = Inr []"
| "concat_res (r # rs) = bind_res r (\<lambda>x. bind_res (concat_res rs) (\<lambda>y. Inr (x @ y)))"

lemma concat_res_map_Inr [simp]: "concat_res (map (\<lambda>x. Inr (f x)) xs) = Inr (concat (map f xs))"
  by (induction xs) auto

lemma concat_res_Inr_iff [res_iff]:
  "concat_res rs = Inr ys \<longleftrightarrow> (\<exists>xss. rs = map Inr xss \<and> ys = concat xss)"
proof (induction rs arbitrary: ys)
  case Nil
  then show ?case by auto
next
  case (Cons r rs)
  show ?case
    by (cases r) (auto simp: res_iff Cons.IH map_eq_Cons_conv Cons_eq_map_conv)
qed

subsection \<open>Strings\<close>

fun split_on :: "char \<Rightarrow> string \<Rightarrow> string list" where
  "split_on d [] = [[]]"
| "split_on d (c # cs) =
     (if c = d then [] # split_on d cs
      else case split_on d cs of p # ps \<Rightarrow> (c # p) # ps | [] \<Rightarrow> [[c]])"

lemma split_on_not_Nil [simp]: "split_on d s \<noteq> []"
  by (induction s) (auto split: list.splits)

lemma split_on_no_sep: "d \<notin> set s \<Longrightarrow> split_on d s = [s]"
  by (induction s) auto

lemma split_on_parts_no_sep: "p \<in> set (split_on d s) \<Longrightarrow> d \<notin> set p"
  by (induction s arbitrary: p) (auto split: if_splits list.splits)

lemma split_on_append:
  "split_on d (s @ d # t) = split_on d s @ split_on d t"
  by (induction s) (auto split: list.splits)

lemma length_split_on: "length (split_on d s) = Suc (count_list s d)"
  by (induction s) (auto split: list.splits)

text \<open>Joining the parts again gives the string back.\<close>

fun join_on :: "char \<Rightarrow> string list \<Rightarrow> string" where
  "join_on d [] = []"
| "join_on d [p] = p"
| "join_on d (p # q # ps) = p @ d # join_on d (q # ps)"

lemma join_on_Cons: "ps \<noteq> [] \<Longrightarrow> join_on d (p # ps) = p @ d # join_on d ps"
  by (cases ps) simp_all

lemma join_on_append: "ps \<noteq> [] \<Longrightarrow> qs \<noteq> [] \<Longrightarrow> join_on d (ps @ qs) = join_on d ps @ d # join_on d qs"
proof (induction ps)
  case (Cons p ps)
  then show ?case by (cases "ps = []") (simp_all add: join_on_Cons)
qed simp

lemma join_split: "join_on d (split_on d s) = s"
proof (induction s)
  case (Cons c s)
  obtain p ps where "split_on d s = p # ps" by (cases "split_on d s") auto
  with Cons show ?case by (cases ps) (auto simp: join_on_Cons)
qed simp

text \<open>\<open>strings.Contains s sub\<close>: \<open>sub\<close> is a substring of \<open>s\<close>.\<close>

fun is_prefix :: "string \<Rightarrow> string \<Rightarrow> bool" where
  "is_prefix [] t = True"
| "is_prefix (c # cs) [] = False"
| "is_prefix (c # cs) (x # xs) = (c = x \<and> is_prefix cs xs)"

fun str_contains :: "string \<Rightarrow> string \<Rightarrow> bool" where
  "str_contains [] sub = (sub = [])"
| "str_contains (c # cs) sub = (is_prefix sub (c # cs) \<or> str_contains cs sub)"

lemma is_prefix_iff: "is_prefix p t \<longleftrightarrow> (\<exists>r. t = p @ r)"
  by (induction p t rule: is_prefix.induct) auto

lemma str_contains_iff: "str_contains s sub \<longleftrightarrow> (\<exists>u v. s = u @ sub @ v)"
proof (induction s)
  case Nil
  then show ?case by auto
next
  case (Cons c cs)
  show ?case
  proof
    assume "str_contains (c # cs) sub"
    then consider "is_prefix sub (c # cs)" | "str_contains cs sub" by auto
    then show "\<exists>u v. c # cs = u @ sub @ v"
    proof cases
      case 1
      then show ?thesis by (metis is_prefix_iff append_Nil)
    next
      case 2
      then show ?thesis using Cons.IH by (metis append_Cons)
    qed
  next
    assume "\<exists>u v. c # cs = u @ sub @ v"
    then obtain u v where uv: "c # cs = u @ sub @ v" by blast
    show "str_contains (c # cs) sub"
    proof (cases u)
      case Nil
      with uv have "is_prefix sub (c # cs)" by (auto simp: is_prefix_iff)
      then show ?thesis by simp
    next
      case (Cons a u')
      with uv have "str_contains cs sub" using Cons.IH by auto
      then show ?thesis by simp
    qed
  qed
qed

lemma str_contains_Nil [simp]: "str_contains s []"
  by (cases s) simp_all

lemma str_contains_refl [simp]: "str_contains s s"
  unfolding str_contains_iff by (rule exI [of _ "[]"], rule exI [of _ "[]"]) simp

text \<open>A prefix that ends at the first separator determines both parts.\<close>

lemma sep_append_eq:
  assumes "d \<notin> set a" and "d \<notin> set b" and "a @ d # x = b @ d # y"
  shows "a = b \<and> x = y"
  using assms
proof (induction a arbitrary: b)
  case Nil
  then show ?case by (cases b) auto
next
  case (Cons c a)
  then show ?case by (cases b) auto
qed

subsection \<open>Integers\<close>

type_synonym int64 = "64 word"

definition in_int64 :: "int \<Rightarrow> bool" where
  "in_int64 n \<longleftrightarrow> - (2 ^ 63) \<le> n \<and> n < 2 ^ 63"

lemma sint_of_int64: "in_int64 n \<Longrightarrow> sint (word_of_int n :: int64) = n"
  by (simp add: in_int64_def sint_sbintrunc' signed_take_bit_int_eq_self)

subsection \<open>Maps with an iteration order\<close>

text \<open>
  A Go map that is ranged over: an association list with distinct keys. \<open>map_of\<close> is the
  lookup, \<open>AList.update\<close> the assignment, and ranging over the map visits the pairs in the order
  of some permutation of the list.
\<close>

definition iteration_of :: "('k \<times> 'v) list \<Rightarrow> ('k \<times> 'v) list \<Rightarrow> bool" where
  "iteration_of m ord \<longleftrightarrow> mset ord = mset m"

lemma iteration_of_refl [simp]: "iteration_of m m"
  by (simp add: iteration_of_def)

lemma iteration_of_set: "iteration_of m ord \<Longrightarrow> set ord = set m"
  unfolding iteration_of_def by (rule mset_eq_setD)

lemma iteration_of_length: "iteration_of m ord \<Longrightarrow> length ord = length m"
  unfolding iteration_of_def by (rule mset_eq_length)

lemma iteration_of_distinct:
  "iteration_of m ord \<Longrightarrow> distinct (map fst m) \<Longrightarrow> distinct (map fst ord)"
  unfolding iteration_of_def by (metis mset_map mset_eq_imp_distinct_iff)

lemma iteration_of_map_of:
  assumes "iteration_of m ord" and "distinct (map fst m)"
  shows "map_of ord = map_of m"
  using assms iteration_of_set [OF assms(1)] iteration_of_distinct [OF assms]
  by (metis map_of_inject_set)

lemma map_of_update [simp]: "map_of (AList.update k v al) = (map_of al)(k \<mapsto> v)"
  by (rule update_conv')

lemma distinct_fst_update: "distinct (map fst al) \<Longrightarrow> distinct (map fst (AList.update k v al))"
  by (rule distinct_update)

lemma set_fst_update: "fst ` set (AList.update k v al) = insert k (fst ` set al)"
  by (simp add: dom_update)

lemma find_SomeD: "find P xs = Some x \<Longrightarrow> x \<in> set xs \<and> P x"
  by (induction xs) (auto split: if_splits)

lemma find_None_filter: "find P xs = None \<longleftrightarrow> filter P xs = []"
  by (induction xs) auto

lemma mset_concat_map: "mset (concat (map f xs)) = \<Sum>\<^sub># (image_mset (\<lambda>x. mset (f x)) (mset xs))"
  by (induction xs) simp_all

lemma mset_concat_iteration:
  "iteration_of xs ys \<Longrightarrow> mset (concat (map f xs)) = mset (concat (map f ys))"
  by (simp add: mset_concat_map iteration_of_def)

lemma map_filter_cong_on:
  "(\<And>x. x \<in> set xs \<Longrightarrow> map_option g (f x) = map_option g (h x)) \<Longrightarrow>
   map g (List.map_filter f xs) = map g (List.map_filter h xs)"
proof (induction xs)
  case Nil
  then show ?case by simp
next
  case (Cons x xs)
  have x: "map_option g (f x) = map_option g (h x)" by (rule Cons.prems) simp
  have "map g (List.map_filter f xs) = map g (List.map_filter h xs)"
    by (rule Cons.IH) (rule Cons.prems, simp)
  with x show ?case by (cases "f x"; cases "h x") simp_all
qed

lemma map_filter_append: "List.map_filter f (xs @ ys) = List.map_filter f xs @ List.map_filter f ys"
  by (simp add: List.map_filter_def)

lemma in_set_map_filter: "y \<in> set (List.map_filter f xs) \<longleftrightarrow> (\<exists>x\<in>set xs. f x = Some y)"
  by (induction xs) (auto split: option.splits)

lemma list_all_map_filter:
  "list_all P (List.map_filter f xs) \<longleftrightarrow> (\<forall>x\<in>set xs. case f x of None \<Rightarrow> True | Some y \<Rightarrow> P y)"
  by (induction xs) (auto split: option.splits)

lemma map_eq_map_Inr:
  "map f xs = map Inr ys \<longleftrightarrow> ys = map (\<lambda>x. case f x of Inl _ \<Rightarrow> undefined | Inr y \<Rightarrow> y) xs \<and>
     list_all (\<lambda>x. \<exists>y. f x = Inr y) xs"
  by (induction xs arbitrary: ys) (auto simp: Cons_eq_map_conv map_eq_Cons_conv split: sum.splits)

subsection \<open>Step systems\<close>

text \<open>
  The interface of every state machine of the development: an initial condition, a step
  relation and an invariant the steps keep. What the clients get is that the invariant holds in
  every reachable state; with a measure that every step decreases they also get that every run is
  finite and can be extended to one that ends in a state without a step.
\<close>

locale invariant_system =
  fixes init :: "'s \<Rightarrow> bool"
    and step :: "'s \<Rightarrow> 's \<Rightarrow> bool"
    and inv :: "'s \<Rightarrow> bool"
  assumes init_inv: "init s \<Longrightarrow> inv s"
    and step_inv: "inv s \<Longrightarrow> step s t \<Longrightarrow> inv t"
begin

lemma run_inv: "step\<^sup>*\<^sup>* s t \<Longrightarrow> inv s \<Longrightarrow> inv t"
  by (induction rule: rtranclp_induct) (auto intro: step_inv)

lemma reachable_inv: "init s \<Longrightarrow> step\<^sup>*\<^sup>* s t \<Longrightarrow> inv t"
  by (blast intro: run_inv init_inv)

end

locale terminating_system = invariant_system +
  fixes size_of :: "'s \<Rightarrow> nat"
  assumes step_decreases: "inv s \<Longrightarrow> step s t \<Longrightarrow> size_of t < size_of s"
begin

lemma relpowp_bound: "(step ^^ n) s t \<Longrightarrow> inv s \<Longrightarrow> n + size_of t \<le> size_of s"
proof (induction n arbitrary: t)
  case 0
  then show ?case by simp
next
  case (Suc n)
  then obtain u where u: "(step ^^ n) s u" "step u t" by auto
  from u(1) have "step\<^sup>*\<^sup>* s u" by (rule relpowp_imp_rtranclp)
  then have "inv u" using Suc.prems(2) by (rule run_inv)
  then have "size_of t < size_of u" using u(2) by (rule step_decreases)
  with Suc.IH [OF u(1) Suc.prems(2)] show ?case by simp
qed

lemma reaches_end: "inv s \<Longrightarrow> \<exists>t. step\<^sup>*\<^sup>* s t \<and> (\<forall>u. \<not> step t u)"
proof (induction "size_of s" arbitrary: s rule: less_induct)
  case less
  show ?case
  proof (cases "\<exists>u. step s u")
    case True
    then obtain u where u: "step s u" by blast
    with less.prems have "inv u" by (blast intro: step_inv)
    with less.hyps u less.prems obtain t where "step\<^sup>*\<^sup>* u t" "\<forall>v. \<not> step t v"
      by (meson step_decreases)
    with u show ?thesis by (meson converse_rtranclp_into_rtranclp)
  next
    case False
    then show ?thesis by blast
  qed
qed

end

end
