(* ===== verification/Float64.thy ===== *)
theory Float64
  imports Complex_Main Prelude "HOL-Library.Log_Nat"
begin

section \<open>Go's \<open>float64\<close>: IEEE 754 binary64, round to nearest even\<close>

text \<open>
  Every measurement of the program is a \<open>float64\<close>. The model is executable: a finite non-zero
  value is the rational it denotes, zeros and infinities carry their sign, and each operation is
  the exact rational result rounded to 53 significant bits (ties to even), with gradual underflow
  below \<open>2 ^ -1022\<close> and overflow to an infinity at \<open>2 ^ 1024\<close>. None of the expressions
  modelled has the shape \<open>x * y + z\<close>, so the fused multiply-add that the Go specification allows
  does not arise. \<open>wf64\<close> says that a value is one of binary64.
\<close>

datatype float64 = NaN | Inf bool | Zero bool | Fin rat
  \<comment> \<open>the flag of \<open>Inf\<close> and \<open>Zero\<close> is the sign bit: true is negative\<close>

subsection \<open>Powers of two and the binary exponent\<close>

definition pow2 :: "int \<Rightarrow> rat" where
  "pow2 e = (if 0 \<le> e then 2 ^ nat e else 1 / 2 ^ nat (- e))"

lemma pow2_powi: "pow2 e = 2 powi e"
  by (simp add: pow2_def power_int_def field_simps)

lemma pow2_pos [simp]: "0 < pow2 e"
  by (simp add: pow2_def)

lemma pow2_nonneg [simp]: "0 \<le> pow2 e"
  using pow2_pos [of e] by linarith

lemma pow2_nonzero [simp]: "pow2 e \<noteq> 0"
  using pow2_pos [of e] by linarith

lemma pow2_add: "pow2 (a + b) = pow2 a * pow2 b"
  by (simp add: pow2_powi power_int_add)

lemma pow2_diff: "pow2 (a - b) = pow2 a / pow2 b"
  by (simp add: pow2_powi power_int_diff)

lemma pow2_Suc: "pow2 (e + 1) = 2 * pow2 e"
  by (simp add: pow2_add) (simp add: pow2_def)

lemma pow2_nat: "pow2 (int n) = 2 ^ n"
  by (simp add: pow2_def)

lemma pow2_strict_mono: "a < b \<Longrightarrow> pow2 a < pow2 b"
  by (simp add: pow2_powi power_int_strict_increasing)

lemma pow2_less_iff [simp]: "pow2 a < pow2 b \<longleftrightarrow> a < b"
  by (metis pow2_strict_mono linorder_cases order_less_asym order_less_irrefl)

lemma pow2_le_iff [simp]: "pow2 a \<le> pow2 b \<longleftrightarrow> a \<le> b"
  by (simp flip: not_less)

lemma pow2_int_of: "0 \<le> e \<Longrightarrow> pow2 e = of_int (2 ^ nat e)"
  by (simp add: pow2_def)

definition ilog2 :: "rat \<Rightarrow> int" where
  "ilog2 r = (let (p, q) = quotient_of r; e = bitlen p - bitlen q
     in if pow2 e \<le> r then e else e - 1)"

lemma ilog2_bounds:
  assumes "0 < r"
  shows "pow2 (ilog2 r) \<le> r" and "r < pow2 (ilog2 r + 1)"
proof -
  obtain p q where pq: "quotient_of r = (p, q)" by force
  have q: "0 < q" using pq by (rule quotient_of_denom_pos)
  have r: "r = of_int p / of_int q" using pq by (rule quotient_of_div)
  have p: "0 < p" using assms q unfolding r by (simp add: zero_less_divide_iff)
  have bp: "1 \<le> bitlen p" and bq: "1 \<le> bitlen q"
    using p q by (simp_all add: bitlen_alt_def)
  have P: "pow2 (bitlen p - 1) \<le> of_int p" "of_int p < pow2 (bitlen p)"
    using bitlen_bounds [OF p] bp by (simp_all add: pow2_int_of flip: of_int_power)
  have Q: "pow2 (bitlen q - 1) \<le> of_int q" "of_int q < pow2 (bitlen q)"
    using bitlen_bounds [OF q] bq by (simp_all add: pow2_int_of flip: of_int_power)
  let ?e = "bitlen p - bitlen q"
  have lo: "pow2 (?e - 1) \<le> r"
  proof -
    have "pow2 (?e - 1) = pow2 (bitlen p - 1) / pow2 (bitlen q)"
      by (simp add: pow2_diff [symmetric] algebra_simps)
    also have "\<dots> \<le> of_int p / of_int q"
      using P(1) Q(2) q p by (intro frac_le) auto
    finally show ?thesis by (simp add: r)
  qed
  have hi: "r < pow2 (?e + 1)"
  proof -
    have "of_int p / of_int q < pow2 (bitlen p) / pow2 (bitlen q - 1)"
      using P(2) Q(1) q p by (intro frac_less) auto
    also have "\<dots> = pow2 (?e + 1)"
      by (simp add: pow2_diff [symmetric] algebra_simps)
    finally show ?thesis by (simp add: r)
  qed
  show "pow2 (ilog2 r) \<le> r" "r < pow2 (ilog2 r + 1)"
    using lo hi by (auto simp: ilog2_def pq Let_def)
qed

lemma ilog2_unique:
  assumes "0 < r" and "pow2 e \<le> r" and "r < pow2 (e + 1)"
  shows "ilog2 r = e"
proof -
  have "pow2 (ilog2 r) < pow2 (e + 1)" "pow2 e < pow2 (ilog2 r + 1)"
    using ilog2_bounds [OF assms(1)] assms by linarith+
  then show ?thesis by simp
qed

lemma ilog2_mono:
  assumes "0 < r" and "r \<le> s"
  shows "ilog2 r \<le> ilog2 s"
proof -
  have "pow2 (ilog2 r) < pow2 (ilog2 s + 1)"
    using ilog2_bounds [of r] ilog2_bounds [of s] assms by linarith
  then show ?thesis by simp
qed

lemma ilog2_ge: "0 < r \<Longrightarrow> pow2 e \<le> r \<Longrightarrow> e \<le> ilog2 r"
  using ilog2_bounds(2) [of r] by (metis leD le_less_trans not_le_imp_less pow2_less_iff zle_add1_eq_le)

subsection \<open>Rounding to an integer, ties to even\<close>

definition rne :: "rat \<Rightarrow> int" where
  "rne r = (let f = \<lfloor>r\<rfloor>; d = r - of_int f
     in if d < 1 / 2 then f else if 1 / 2 < d then f + 1 else if even f then f else f + 1)"

lemma rne_of_int [simp]: "rne (of_int n) = n"
  by (simp add: rne_def)

lemma rne_floor: "\<lfloor>r\<rfloor> \<le> rne r \<and> rne r \<le> \<lfloor>r\<rfloor> + 1"
  by (simp add: rne_def Let_def)

lemma rne_ge: "of_int n \<le> r \<Longrightarrow> n \<le> rne r"
  using rne_floor [of r] by (simp add: le_floor_iff [symmetric])

lemma rne_le:
  assumes "r \<le> of_int n"
  shows "rne r \<le> n"
proof (cases "r = of_int n")
  case True
  then show ?thesis by simp
next
  case False
  with assms have "\<lfloor>r\<rfloor> < n" by (simp add: floor_less_iff)
  with rne_floor [of r] show ?thesis by linarith
qed

lemma rne_mono:
  assumes "r \<le> s"
  shows "rne r \<le> rne s"
proof (cases "\<lfloor>r\<rfloor> = \<lfloor>s\<rfloor>")
  case True
  with assms show ?thesis by (auto simp: rne_def Let_def)
next
  case False
  with assms have "\<lfloor>r\<rfloor> + 1 \<le> \<lfloor>s\<rfloor>" using floor_mono [OF assms] by linarith
  with rne_floor [of r] rne_floor [of s] show ?thesis by linarith
qed

lemma rne_error: "\<bar>of_int (rne r) - r\<bar> \<le> 1 / 2"
proof -
  have "of_int \<lfloor>r\<rfloor> \<le> r" "r < of_int \<lfloor>r\<rfloor> + 1" by linarith+
  then show ?thesis by (auto simp: rne_def Let_def abs_le_iff field_simps)
qed

lemma rne_gt_half:
  assumes "of_int n + 1 / 2 < r"
  shows "n < rne r"
proof (rule ccontr)
  assume "\<not> n < rne r"
  then have "(of_int (rne r) :: rat) \<le> of_int n" by simp
  with assms rne_error [of r] show False by linarith
qed

subsection \<open>Rounding to 53 significant bits\<close>

text \<open>
  \<open>exp64 a\<close> is the exponent of the last place that a positive \<open>a\<close> is rounded to, \<open>mag64 a\<close> the
  rounded magnitude before the overflow check.
\<close>

definition exp64 :: "rat \<Rightarrow> int" where
  "exp64 a = max (ilog2 a - 52) (- 1074)"

definition mag64 :: "rat \<Rightarrow> rat" where
  "mag64 a = (let e = exp64 a in of_int (rne (a / pow2 e)) * pow2 e)"

definition round64 :: "bool \<Rightarrow> rat \<Rightarrow> float64" where
  "round64 neg r =
     (if r = 0 then Zero neg
      else let m = mag64 \<bar>r\<bar>
        in if m = 0 then Zero (r < 0)
           else if 1023 < ilog2 m then Inf (r < 0)
           else Fin (if r < 0 then - m else m))"

fun wf64 :: "float64 \<Rightarrow> bool" where
  "wf64 (Fin r) = (round64 False r = Fin r)"
| "wf64 _ = True"

lemma mag64_exact:
  assumes a: "a = of_int n * pow2 k" and n: "0 < n" "n \<le> 2 ^ 53" and k: "- 1074 \<le> k"
  shows "mag64 a = a"
proof -
  let ?e = "exp64 a"
  have apos: "0 < a" using a n by simp
  have "a \<le> pow2 53 * pow2 k"
    using n(2) unfolding a by (intro mult_right_mono) (simp_all add: pow2_def)
  then have "pow2 (ilog2 a) \<le> pow2 (53 + k)"
    using ilog2_bounds(1) [OF apos] by (simp only: pow2_add)
  then have il: "ilog2 a \<le> 53 + k" by simp
  have "\<exists>i. a / pow2 ?e = of_int i"
  proof (cases "?e \<le> k")
    case True
    have "a / pow2 ?e = of_int n * pow2 (k - ?e)" by (simp add: a pow2_diff)
    also have "\<dots> = of_int (n * 2 ^ nat (k - ?e))" using True by (simp add: pow2_int_of)
    finally show ?thesis by blast
  next
    case False
    then have e: "?e = k + 1" and top: "ilog2 a = 53 + k" using il k by (simp_all add: exp64_def)
    have "pow2 (53 + k) \<le> a" using ilog2_bounds(1) [OF apos] by (simp only: top)
    then have "pow2 53 * pow2 k \<le> of_int n * pow2 k" by (simp only: a pow2_add)
    then have "pow2 53 \<le> of_int n" by simp
    then have "2 ^ 53 \<le> n" by (simp add: pow2_def)
    then have "n = 2 ^ 53" using n(2) by (rule antisym [rotated])
    then have n53: "of_int n = pow2 53" by (simp add: pow2_def)
    have "a / pow2 ?e = pow2 53 * pow2 k / pow2 (k + 1)" unfolding e by (simp only: a n53)
    also have "\<dots> = pow2 53 / 2" by (simp only: pow2_Suc) simp
    also have "\<dots> = of_int (2 ^ 52)" by (simp add: pow2_def)
    finally show ?thesis by blast
  qed
  then obtain i where "a / pow2 ?e = of_int i" by blast
  then show ?thesis by (simp add: mag64_def Let_def) (simp add: divide_eq_eq)
qed

lemma mag64_scaled:
  assumes "0 < a"
  shows "a / pow2 (exp64 a) < 2 ^ 53"
    and "- 1074 < exp64 a \<Longrightarrow> 2 ^ 52 \<le> a / pow2 (exp64 a)"
proof -
  have "pow2 (ilog2 a + 1) \<le> pow2 (53 + exp64 a)" by (simp add: exp64_def)
  then have "a < pow2 53 * pow2 (exp64 a)"
    using ilog2_bounds(2) [OF assms] by (simp only: pow2_add)
  then show "a / pow2 (exp64 a) < 2 ^ 53" by (simp add: divide_less_eq) (simp add: pow2_def)
next
  assume "- 1074 < exp64 a"
  then have "ilog2 a = 52 + exp64 a" by (simp add: exp64_def max_def split: if_splits)
  then have "pow2 52 * pow2 (exp64 a) \<le> a"
    using ilog2_bounds(1) [OF assms] by (simp add: pow2_add)
  then show "2 ^ 52 \<le> a / pow2 (exp64 a)" by (simp add: le_divide_eq) (simp add: pow2_def)
qed

lemma mag64_form:
  assumes "0 < a"
  obtains n where "mag64 a = of_int n * pow2 (exp64 a)" and "0 \<le> n" and "n \<le> 2 ^ 53"
    and "n = rne (a / pow2 (exp64 a))"
proof
  let ?n = "rne (a / pow2 (exp64 a))"
  show "mag64 a = of_int ?n * pow2 (exp64 a)" by (simp add: mag64_def Let_def)
  show "0 \<le> ?n" using assms by (intro rne_ge) simp
  show "?n \<le> 2 ^ 53" using mag64_scaled(1) [OF assms] by (intro rne_le) simp
qed simp

lemma mag64_nonneg: "0 < a \<Longrightarrow> 0 \<le> mag64 a"
  by (erule mag64_form) simp

lemma exp64_ge: "- 1074 \<le> exp64 a"
  by (simp add: exp64_def)

lemma mag64_idem:
  assumes "0 < a"
  shows "mag64 (mag64 a) = mag64 a \<or> mag64 a = 0"
proof -
  obtain n where n: "mag64 a = of_int n * pow2 (exp64 a)" "0 \<le> n" "n \<le> 2 ^ 53"
    using assms by (rule mag64_form)
  show ?thesis
  proof (cases "n = 0")
    case True
    with n(1) show ?thesis by simp
  next
    case False
    with n exp64_ge have "mag64 (mag64 a) = mag64 a" by (intro mag64_exact) auto
    then show ?thesis ..
  qed
qed

lemma mag64_mono:
  assumes "0 < a" and "a \<le> b"
  shows "mag64 a \<le> mag64 b"
proof -
  have b: "0 < b" using assms by linarith
  have ee: "exp64 a \<le> exp64 b" using ilog2_mono [OF assms] by (simp add: exp64_def)
  show ?thesis
  proof (cases "exp64 a = exp64 b")
    case True
    have "rne (a / pow2 (exp64 b)) \<le> rne (b / pow2 (exp64 b))"
      using assms(2) by (intro rne_mono divide_right_mono) simp_all
    with True show ?thesis by (simp add: mag64_def Let_def)
  next
    case False
    with ee have lt: "exp64 a < exp64 b" by simp
    obtain n where n: "mag64 a = of_int n * pow2 (exp64 a)" "n \<le> 2 ^ 53"
      using assms(1) by (rule mag64_form)
    obtain m where m: "mag64 b = of_int m * pow2 (exp64 b)" "m = rne (b / pow2 (exp64 b))"
      using b by (rule mag64_form)
    have "2 ^ 52 \<le> b / pow2 (exp64 b)"
      using lt exp64_ge [of a] by (intro mag64_scaled(2) [OF b]) simp
    then have m52: "2 ^ 52 \<le> m" unfolding m(2) by (intro rne_ge) simp
    have "mag64 a \<le> pow2 53 * pow2 (exp64 a)"
      using n(2) unfolding n(1) by (intro mult_right_mono) (simp_all add: pow2_def)
    also have "\<dots> = pow2 52 * pow2 (exp64 a + 1)" by (simp add: pow2_Suc) (simp add: pow2_def)
    also have "\<dots> \<le> pow2 52 * pow2 (exp64 b)" using lt by (intro mult_left_mono) simp_all
    also have "\<dots> \<le> mag64 b"
      using m52 unfolding m(1) by (intro mult_right_mono) (simp_all add: pow2_def)
    finally show ?thesis .
  qed
qed

lemma mag64_pow2 [simp]: "- 1074 \<le> e \<Longrightarrow> mag64 (pow2 e) = pow2 e"
  by (rule mag64_exact [of _ 1 e]) simp_all

lemma ilog2_pow2 [simp]: "ilog2 (pow2 e) = e"
  by (rule ilog2_unique) simp_all

subsection \<open>Arithmetic and comparison\<close>

fun f64_val :: "float64 \<Rightarrow> rat" where
  "f64_val (Fin r) = r"
| "f64_val _ = 0"

fun f64_neg :: "float64 \<Rightarrow> bool" where
  "f64_neg (Fin r) = (r < 0)"
| "f64_neg (Inf s) = s"
| "f64_neg (Zero s) = s"
| "f64_neg NaN = False"

fun is_finite64 :: "float64 \<Rightarrow> bool" where
  "is_finite64 (Fin _) = True"
| "is_finite64 (Zero _) = True"
| "is_finite64 _ = False"

fun f64_add :: "float64 \<Rightarrow> float64 \<Rightarrow> float64" where
  "f64_add NaN _ = NaN"
| "f64_add _ NaN = NaN"
| "f64_add (Inf s) (Inf t) = (if s = t then Inf s else NaN)"
| "f64_add (Inf s) _ = Inf s"
| "f64_add _ (Inf t) = Inf t"
| "f64_add (Zero s) (Zero t) = Zero (s \<and> t)"
| "f64_add (Zero _) (Fin r) = Fin r"
| "f64_add (Fin r) (Zero _) = Fin r"
| "f64_add (Fin r) (Fin q) = round64 False (r + q)"

fun f64_mul :: "float64 \<Rightarrow> float64 \<Rightarrow> float64" where
  "f64_mul NaN _ = NaN"
| "f64_mul _ NaN = NaN"
| "f64_mul (Inf _) (Zero _) = NaN"
| "f64_mul (Zero _) (Inf _) = NaN"
| "f64_mul (Inf s) x = Inf (s \<noteq> f64_neg x)"
| "f64_mul x (Inf t) = Inf (f64_neg x \<noteq> t)"
| "f64_mul (Zero s) x = Zero (s \<noteq> f64_neg x)"
| "f64_mul x (Zero t) = Zero (f64_neg x \<noteq> t)"
| "f64_mul (Fin r) (Fin q) = round64 ((r < 0) \<noteq> (q < 0)) (r * q)"

fun f64_div :: "float64 \<Rightarrow> float64 \<Rightarrow> float64" where
  "f64_div NaN _ = NaN"
| "f64_div _ NaN = NaN"
| "f64_div (Inf _) (Inf _) = NaN"
| "f64_div (Zero _) (Zero _) = NaN"
| "f64_div (Inf s) x = Inf (s \<noteq> f64_neg x)"
| "f64_div x (Inf t) = Zero (f64_neg x \<noteq> t)"
| "f64_div x (Zero t) = Inf (f64_neg x \<noteq> t)"
| "f64_div (Zero s) x = Zero (s \<noteq> f64_neg x)"
| "f64_div (Fin r) (Fin q) = round64 ((r < 0) \<noteq> (q < 0)) (r / q)"

fun f64_less :: "float64 \<Rightarrow> float64 \<Rightarrow> bool" where
  "f64_less NaN _ = False"
| "f64_less _ NaN = False"
| "f64_less (Inf s) (Inf t) = (s \<and> \<not> t)"
| "f64_less (Inf s) _ = s"
| "f64_less _ (Inf t) = (\<not> t)"
| "f64_less x y = (f64_val x < f64_val y)"

definition f64_of_int :: "int \<Rightarrow> float64" where
  "f64_of_int n = round64 False (of_int n)"

abbreviation f64_zero :: float64 where
  "f64_zero \<equiv> Zero False"

definition f64_le :: "float64 \<Rightarrow> float64 \<Rightarrow> bool" where
  "f64_le x y \<longleftrightarrow> x \<noteq> NaN \<and> y \<noteq> NaN \<and> \<not> f64_less y x"

subsection \<open>What rounding guarantees\<close>

lemma round64_0 [simp]: "round64 s 0 = Zero s"
  by (simp add: round64_def)

lemma round64_exact:
  assumes "r = of_int n * pow2 k" and "n \<noteq> 0" and "\<bar>n\<bar> \<le> 2 ^ 53" and "- 1074 \<le> k"
    and "\<bar>r\<bar> < pow2 1024"
  shows "round64 s r = Fin r"
proof -
  have r: "0 < \<bar>r\<bar>" using assms(1,2) by simp
  have "mag64 \<bar>r\<bar> = \<bar>r\<bar>"
    using assms by (intro mag64_exact [of _ "\<bar>n\<bar>" k]) (simp_all add: abs_mult)
  moreover have "\<not> 1023 < ilog2 \<bar>r\<bar>"
  proof
    assume "1023 < ilog2 \<bar>r\<bar>"
    then have "pow2 1024 \<le> pow2 (ilog2 \<bar>r\<bar>)" by simp
    with ilog2_bounds(1) [OF r] assms(5) show False by linarith
  qed
  ultimately show ?thesis using r by (auto simp: round64_def Let_def)
qed

lemma round64_not_NaN [simp]: "round64 s r \<noteq> NaN"
  by (simp add: round64_def Let_def)

lemma ilog2_overflow:
  assumes "0 < m"
  shows "1023 < ilog2 m \<longleftrightarrow> pow2 1024 \<le> m"
proof
  assume "1023 < ilog2 m"
  then have "pow2 1024 \<le> pow2 (ilog2 m)" by simp
  with ilog2_bounds(1) [OF assms] show "pow2 1024 \<le> m" by linarith
next
  assume "pow2 1024 \<le> m"
  then have "1024 \<le> ilog2 m" using assms by (rule ilog2_ge [rotated])
  then show "1023 < ilog2 m" by simp
qed

text \<open>The value of a non-negative rounding, with the overflow spelled out.\<close>

lemma round64_nonneg_cases:
  assumes "0 < r"
  shows "round64 s r = (if mag64 r = 0 then Zero False
     else if pow2 1024 \<le> mag64 r then Inf False else Fin (mag64 r))"
  using assms mag64_nonneg [OF assms] ilog2_overflow [of "mag64 r"]
  by (auto simp: round64_def Let_def)

lemma round64_le_exact:
  assumes "0 \<le> r" and "r \<le> q" and q: "round64 t q = Fin q" and "0 < q"
  shows "is_finite64 (round64 False r)" and "0 \<le> f64_val (round64 False r)"
    and "f64_val (round64 False r) \<le> q" and "f64_neg (round64 False r) = False"
proof -
  have Q: "mag64 q = q" "mag64 q < pow2 1024"
    using q \<open>0 < q\<close> by (auto simp: round64_nonneg_cases split: if_splits)
  have "is_finite64 (round64 False r) \<and> 0 \<le> f64_val (round64 False r) \<and>
    f64_val (round64 False r) \<le> q \<and> f64_neg (round64 False r) = False"
  proof (cases "r = 0")
    case True
    then show ?thesis using \<open>0 < q\<close> by simp
  next
    case False
    with assms(1) have r: "0 < r" by simp
    have "mag64 r \<le> q" using mag64_mono [OF r assms(2)] Q(1) by simp
    moreover have "0 \<le> mag64 r" using r by (rule mag64_nonneg)
    ultimately show ?thesis using Q by (auto simp: round64_nonneg_cases [OF r])
  qed
  then show "is_finite64 (round64 False r)" "0 \<le> f64_val (round64 False r)"
    "f64_val (round64 False r) \<le> q" "f64_neg (round64 False r) = False" by auto
qed

lemma round64_wf [simp]: "wf64 (round64 s r)"
proof (cases "round64 s r")
  case (Fin q)
  define m where "m = mag64 \<bar>r\<bar>"
  have r: "r \<noteq> 0" "m \<noteq> 0" "\<not> 1023 < ilog2 m" "q = m \<or> q = - m"
    using Fin by (auto simp: round64_def Let_def m_def split: if_splits)
  have pos: "0 < m" using mag64_nonneg [of "\<bar>r\<bar>"] r(1,2) by (simp add: m_def)
  have "mag64 m = m" using mag64_idem [of "\<bar>r\<bar>"] r(1,2) by (simp add: m_def)
  then have "round64 False q = Fin q"
    using r pos by (auto simp: round64_def Let_def)
  then show ?thesis using Fin by simp
qed simp_all

lemma f64_add_wf: "wf64 x \<Longrightarrow> wf64 y \<Longrightarrow> wf64 (f64_add x y)"
  by (cases "(x, y)" rule: f64_add.cases) simp_all

lemma f64_mul_wf: "wf64 x \<Longrightarrow> wf64 y \<Longrightarrow> wf64 (f64_mul x y)"
  by (cases "(x, y)" rule: f64_mul.cases) simp_all

lemma f64_div_wf: "wf64 x \<Longrightarrow> wf64 y \<Longrightarrow> wf64 (f64_div x y)"
  by (cases "(x, y)" rule: f64_div.cases) simp_all

lemmas f64_wf_intros = f64_add_wf f64_mul_wf f64_div_wf

text \<open>Integers of up to 53 bits are exact.\<close>

lemma f64_of_int_0 [simp]: "f64_of_int 0 = Zero False"
  by (simp add: f64_of_int_def)

lemma f64_of_int_exact:
  assumes "n \<noteq> 0" and "\<bar>n\<bar> \<le> 2 ^ 53"
  shows "f64_of_int n = Fin (of_int n)"
proof -
  have "\<bar>of_int n :: rat\<bar> \<le> of_int (2 ^ 53)" using assms(2) by (metis of_int_abs of_int_le_iff)
  then have "\<bar>of_int n :: rat\<bar> \<le> pow2 53" by (simp add: pow2_def)
  also have "\<dots> < pow2 1024" by simp
  finally show ?thesis
    unfolding f64_of_int_def using assms by (intro round64_exact [of _ n 0]) (simp_all add: pow2_def)
qed

lemma f64_of_nat_exact: "0 < n \<Longrightarrow> n \<le> 2 ^ 53 \<Longrightarrow> f64_of_int (int n) = Fin (of_nat n)"
  using f64_of_int_exact [of "int n"] by simp

subsection \<open>Order\<close>

definition nonneg64 :: "float64 \<Rightarrow> bool" where
  "nonneg64 x = (case x of NaN \<Rightarrow> False | Inf s \<Rightarrow> \<not> s | Zero _ \<Rightarrow> True | Fin r \<Rightarrow> 0 \<le> r)"

lemma f64_le_refl: "x \<noteq> NaN \<Longrightarrow> f64_le x x"
  by (cases x) (simp_all add: f64_le_def)

lemma f64_le_trans: "f64_le x y \<Longrightarrow> f64_le y z \<Longrightarrow> f64_le x z"
  by (cases x; cases y; cases z) (auto simp: f64_le_def)

lemma f64_add_nonneg:
  assumes "nonneg64 x" and "nonneg64 y"
  shows "nonneg64 (f64_add x y)"
proof (cases "\<exists>r q. x = Fin r \<and> y = Fin q")
  case True
  then obtain r q where xy: "x = Fin r" "y = Fin q" by blast
  with assms have "0 \<le> r + q" by (simp add: nonneg64_def)
  then have "nonneg64 (round64 False (r + q))"
    by (cases "r + q = 0") (auto simp: nonneg64_def round64_nonneg_cases mag64_nonneg)
  with xy show ?thesis by simp
next
  case False
  with assms show ?thesis by (cases x; cases y) (auto simp: nonneg64_def)
qed

text \<open>Adding a non-negative amount never lowers a running total, rounding included.\<close>

lemma f64_le_add:
  assumes "wf64 x" and "nonneg64 x" and "nonneg64 y"
  shows "f64_le x (f64_add x y)"
proof (cases "\<exists>r q. x = Fin r \<and> y = Fin q")
  case True
  then obtain r q where xy: "x = Fin r" "y = Fin q" by blast
  have rq: "0 \<le> r" "0 \<le> q" using assms xy by (simp_all add: nonneg64_def)
  have r0: "r \<noteq> 0" using assms(1) xy by auto
  then have r: "0 < r" "0 < r + q" using rq by simp_all
  have "mag64 r = r" "mag64 r \<noteq> 0"
    using assms(1) xy r0 r by (auto simp: round64_nonneg_cases split: if_splits)
  moreover have "mag64 r \<le> mag64 (r + q)" using r(1) rq(2) by (intro mag64_mono) simp_all
  ultimately show ?thesis
    using xy r by (auto simp: f64_le_def round64_nonneg_cases)
next
  case False
  with assms show ?thesis by (cases x; cases y) (auto simp: f64_le_def nonneg64_def)
qed

lemma f64_add_commute: "f64_add x y = f64_add y x"
  by (cases x; cases y) (auto simp: add.commute)

definition amount64 :: "float64 \<Rightarrow> bool" where
  "amount64 x \<longleftrightarrow> wf64 x \<and> nonneg64 x"

lemma amount64_add: "amount64 x \<Longrightarrow> amount64 y \<Longrightarrow> amount64 (f64_add x y)"
  by (simp add: amount64_def f64_add_nonneg f64_add_wf)

lemma amount64_foldl: "amount64 x \<Longrightarrow> list_all amount64 ys \<Longrightarrow> amount64 (foldl f64_add x ys)"
  by (induction ys arbitrary: x) (simp_all add: amount64_add)

text \<open>A running sum of amounts is at least each of them, whatever the order and the rounding.\<close>

lemma foldl_add_ge:
  assumes "amount64 x" and "list_all amount64 ys" and "z \<in> insert x (set ys)"
  shows "f64_le z (foldl f64_add x ys)"
  using assms(2,3)
proof (induction ys rule: rev_induct)
  case Nil
  then show ?case using assms(1) by (auto simp: amount64_def nonneg64_def intro: f64_le_refl)
next
  case (snoc y ys)
  let ?s = "foldl f64_add x ys"
  have s: "amount64 ?s" using snoc.prems(1) assms(1) by (simp add: amount64_foldl)
  have y: "amount64 y" using snoc.prems(1) by simp
  have "f64_le ?s (f64_add ?s y)" "f64_le y (f64_add ?s y)"
    using s y f64_le_add [of ?s y] f64_le_add [of y ?s]
    by (simp_all add: amount64_def f64_add_commute)
  then show ?case using snoc by (auto intro: f64_le_trans)
qed

subsection \<open>The shapes of arithmetic the program uses\<close>

text \<open>\<open>used / cap * 100\<close> is a percentage whenever \<open>0 \<le> used \<le> cap\<close> and \<open>0 < cap\<close>.\<close>

lemma f64_ratio_bounds:
  assumes "0 \<le> u" and "u \<le> c" and "0 < c"
  shows "is_finite64 (round64 False (u / c))" and "0 \<le> f64_val (round64 False (u / c))"
    and "f64_val (round64 False (u / c)) \<le> 1" and "\<not> f64_neg (round64 False (u / c))"
proof -
  have "round64 False 1 = Fin 1" using round64_exact [of 1 1 0 False] by (simp add: pow2_def)
  then show "is_finite64 (round64 False (u / c))" "0 \<le> f64_val (round64 False (u / c))"
    "f64_val (round64 False (u / c)) \<le> 1" "\<not> f64_neg (round64 False (u / c))"
    using assms round64_le_exact [of "u / c" 1 False] by simp_all
qed

definition is_percent :: "float64 \<Rightarrow> bool" where
  "is_percent p \<longleftrightarrow> is_finite64 p \<and> 0 \<le> f64_val p \<and> f64_val p \<le> 100"

lemma f64_percent:
  assumes u: "is_finite64 u" "0 \<le> f64_val u" and c: "f64_val u \<le> c" "0 < c"
    and wf: "wf64 u" "\<not> f64_neg u"
  shows "is_percent (f64_mul (f64_div u (Fin c)) (f64_of_int 100))"
proof -
  have hundred: "f64_of_int 100 = Fin 100" using f64_of_int_exact [of 100] by simp
  have r100: "round64 False 100 = Fin 100" using hundred by (simp add: f64_of_int_def)
  show ?thesis
  proof (cases u)
    case (Fin r)
    then have r: "0 \<le> r" "r \<le> c" using u c by simp_all
    let ?q = "round64 False (r / c)"
    have d: "f64_div u (Fin c) = ?q" using Fin r c by simp
    show ?thesis
    proof (cases ?q)
      case (Fin q)
      have q: "0 \<le> q" "q \<le> 1" using f64_ratio_bounds [OF r c(2)] Fin by simp_all
      have "f64_mul (f64_div u (Fin c)) (f64_of_int 100) = round64 False (q * 100)"
        using d Fin hundred q by simp
      moreover have "is_percent (round64 False (q * 100))"
        using round64_le_exact [of "q * 100" 100 False] q r100 by (simp add: is_percent_def)
      ultimately show ?thesis by simp
    qed (use f64_ratio_bounds [OF r c(2)] d hundred in \<open>simp_all add: is_percent_def\<close>)
  next
    case (Zero s)
    then show ?thesis using hundred c(2) by (simp add: is_percent_def)
  qed (use u in simp_all)
qed

text \<open>Comparing a quotient of counts with a quarter is exact: the rounding never crosses 1/4.\<close>

lemma mag64_above_quarter:
  assumes r: "1 / 4 + 1 / 2 ^ 55 < r"
  shows "1 / 4 < mag64 r"
proof -
  have q4: "pow2 (- 2) = 1 / 4" and h2: "pow2 (- 1) = 1 / 2"
    and p54: "pow2 (- 54) = 1 / 2 ^ 54" by (simp_all add: pow2_def)
  show ?thesis
  proof (cases "r < 1 / 2")
    case False
    then have "mag64 (pow2 (- 1)) \<le> mag64 r" by (intro mag64_mono) (simp_all only: h2 not_less pow2_pos)
    moreover have "mag64 (pow2 (- 1)) = 1 / 2" using mag64_pow2 [of "- 1"] unfolding h2 by simp
    ultimately show ?thesis by simp
  next
    case True
    have "ilog2 r = - 2"
      using r True by (intro ilog2_unique) (simp_all add: q4 h2)
    then have ex: "exp64 r = - 54" by (simp add: exp64_def)
    have "of_int (2 ^ 52) + 1 / 2 < r / pow2 (- 54)" using r by (simp add: p54)
    then have "2 ^ 52 < rne (r / pow2 (- 54))" by (rule rne_gt_half)
    then have "(of_int (2 ^ 52) :: rat) < of_int (rne (r / pow2 (- 54)))" by (simp only: of_int_less_iff)
    then show ?thesis by (simp add: mag64_def Let_def ex p54)
  qed
qed

lemma quarter_ratio_exact:
  assumes a: "0 < a" "a \<le> 2 ^ 53" and t: "0 < t" "t < 2 ^ 53"
  shows "f64_less (Fin (1 / 4)) (f64_div (f64_of_int a) (f64_of_int t)) \<longleftrightarrow> t < 4 * a"
proof -
  let ?r = "of_int a / of_int t :: rat"
  have r: "0 < ?r" using a t by simp
  have d: "f64_div (f64_of_int a) (f64_of_int t) = round64 False ?r"
    using a t by (simp add: f64_of_int_exact)
  have q4: "pow2 (- 2) = 1 / 4" by (simp add: pow2_def)
  show ?thesis
  proof (cases "t < 4 * a")
    case False
    then have "(of_int (4 * a) :: rat) \<le> of_int t" by linarith
    then have "?r \<le> 1 / 4" using t by (simp add: field_simps)
    moreover have "round64 False (1 / 4) = Fin (1 / 4)"
      using round64_exact [of "1 / 4" 1 "- 2" False] pow2_less_iff [of "- 2" 1024] q4 by simp
    ultimately have "is_finite64 (round64 False ?r)" "f64_val (round64 False ?r) \<le> 1 / 4"
      using r round64_le_exact [of ?r "1 / 4" False] by simp_all
    then show ?thesis using False d by (cases "round64 False ?r") auto
  next
    case True
    have "(of_int (t + 1) :: rat) \<le> of_int (4 * a)" using True by linarith
    then have "of_int (t + 1) / (4 * of_int t) \<le> (of_int (4 * a) / (4 * of_int t) :: rat)"
      using t by (intro divide_right_mono) simp_all
    then have ge: "1 / 4 + 1 / (4 * of_int t) \<le> ?r" using t by (simp add: add_divide_distrib)
    have "of_int t < (of_int (2 ^ 53) :: rat)" using t by (simp only: of_int_less_iff)
    then have "1 / 2 ^ 55 < 1 / (4 * of_int t :: rat)" using t by (simp add: field_simps)
    with ge have "1 / 4 + 1 / 2 ^ 55 < ?r" by linarith
    then have "1 / 4 < mag64 ?r" by (rule mag64_above_quarter)
    then show ?thesis using True d r by (simp add: round64_nonneg_cases)
  qed
qed

end
