(* ===== verification/Metric_Types.thy ===== *)
theory Metric_Types
  imports Float64
begin

section \<open>Data: volumes, metric records and the PowerMax client interface\<close>

text \<open>
  The structs of \<open>internal/k8s/volume_finder.go\<close> and \<open>internal/service/metrictypes/metrictypes.go\<close>
  as records, field by field, under the Go names with a prefix per struct (Isabelle's record
  selectors are global). The structs of the gopowermax library appear with the fields the program
  reads. \<open>pmax_client\<close> is the \<open>PowerMaxClient\<close> interface: one field per method the program
  calls, each a function of its arguments to the answer of the array during one collection, so
  a client is a parameter of every definition that uses one.
\<close>

subsection \<open>\<open>k8s.VolumeInfo\<close>\<close>

record volume_info =
  vi_Namespace :: string
  vi_PersistentVolumeClaim :: string
  vi_PersistentVolumeStatus :: string
  vi_VolumeClaimName :: string
  vi_PersistentVolume :: string
  vi_StorageClass :: string
  vi_Driver :: string
  vi_ProvisionedSize :: string
  vi_CreatedTime :: string
  vi_VolumeHandle :: string
  vi_SRP :: string
  vi_ServiceLevel :: string
  vi_StorageGroup :: string
  vi_SymID :: string
  vi_StorageSystemVolumeName :: string
  vi_Protocol :: string

subsection \<open>Metric records\<close>

record capacity_record =
  cr_ArrayID :: string
  cr_VolumeID :: string
  cr_SrpID :: string
  cr_StorageGroupID :: string
  cr_StorageClass :: string
  cr_Driver :: string
  cr_PersistentVolumeName :: string
  cr_PersistentVolumeStatus :: string
  cr_PersistentVolumeClaimName :: string
  cr_Namespace :: string
  cr_Total :: float64
  cr_Used :: float64
  cr_UsedPercent :: float64

record topology_meta =
  tm_Namespace :: string
  tm_PersistentVolumeClaim :: string
  tm_PersistentVolumeStatus :: string
  tm_VolumeClaimName :: string
  tm_PersistentVolume :: string
  tm_StorageClass :: string
  tm_Driver :: string
  tm_ProvisionedSize :: string
  tm_StorageSystemVolumeName :: string
  tm_StoragePoolName :: string
  tm_StorageSystem :: string
  tm_Protocol :: string
  tm_CreatedTime :: string

record topology_record =
  tr_TopologyMeta :: topology_meta
  tr_PVAvailable :: int

record sg_perf_record =
  sr_ArrayID :: string
  sr_StorageGroupID :: string
  sr_HostMBReads :: float64
  sr_HostMBWritten :: float64
  sr_ReadResponseTime :: float64
  sr_WriteResponseTime :: float64
  sr_HostReads :: float64
  sr_HostWrites :: float64
  sr_AvgIOSize :: float64

record vol_perf_record =
  vr_ArrayID :: string
  vr_VolumeID :: string
  vr_StorageGroupID :: string
  vr_StorageClass :: string
  vr_Driver :: string
  vr_PersistentVolumeName :: string
  vr_PersistentVolumeClaimName :: string
  vr_Namespace :: string
  vr_MBRead :: float64
  vr_MBWritten :: float64
  vr_ReadResponseTime :: float64
  vr_WriteResponseTime :: float64
  vr_Reads :: float64
  vr_Writes :: float64

subsection \<open>The answers of the gopowermax client, as far as they are read\<close>

record volume_enhanced =
  ve_ID :: string
  ve_CapGB :: float64
  ve_EffectiveUsedCapacityGB :: float64

record pmax_volume =
  pv_CapacityGB :: float64
  pv_AllocatedPercent :: int

record volume_metric =
  vm_MBRead :: float64
  vm_MBWritten :: float64
  vm_ReadResponseTime :: float64
  vm_WriteResponseTime :: float64
  vm_Reads :: float64
  vm_Writes :: float64

record volume_result =
  vres_VolumeID :: string
  vres_StorageGroups :: string
  vres_VolumeResult :: "volume_metric list"

record sg_metric =
  sm_HostMBReads :: float64
  sm_HostMBWritten :: float64
  sm_ReadResponseTime :: float64
  sm_WriteResponseTime :: float64
  sm_HostReads :: float64
  sm_HostWrites :: float64
  sm_AvgIOSize :: float64

record sg_instance =
  si_ID :: string
  si_Metrics :: "sg_metric list"

record array_info =
  ai_SymmetrixID :: string
  ai_LastAvailableDate :: int

record sg_info =
  gi_StorageGroupID :: string
  gi_LastAvailableDate :: int

record config_connect =
  cc_Endpoint :: string
  cc_Username :: string
  cc_Password :: string
  cc_Version :: string

text \<open>
  \<open>None\<close> in the two bulk answers is a nil pointer returned without an error, which the code
  checks for.
\<close>

record pmax_client =
  Authenticate_call :: "config_connect \<Rightarrow> unit result"
  GetVolumeByID :: "string \<Rightarrow> string \<Rightarrow> pmax_volume result"
  GetVolumesCapacityBulk :: "string \<Rightarrow> volume_enhanced list option result"
  GetArrayPerfKeys :: "array_info list result"
  GetVolumesMetrics :: "string \<Rightarrow> string \<Rightarrow> string list \<Rightarrow> int \<Rightarrow> int \<Rightarrow> volume_result list result"
  GetStorageGroupPerfKeys :: "string \<Rightarrow> sg_info list result"
  GetStorageGroupMetrics :: "string \<Rightarrow> string \<Rightarrow> string list \<Rightarrow> int \<Rightarrow> int \<Rightarrow> sg_metric list result"
  GetStorageGroupMetricsBulk :: "string \<Rightarrow> sg_instance list option result"
  GetStorageGroupIDList :: "string \<Rightarrow> string \<Rightarrow> bool \<Rightarrow> string list result"

subsection \<open>\<open>metrictypes.PowerMaxArray\<close>\<close>

text \<open>\<open>Client\<close> is an interface value: \<open>None\<close> is nil.\<close>

record powermax_array =
  pa_Endpoint :: string
  pa_StorageArrayID :: string
  pa_Username :: string
  pa_Password :: string
  pa_Insecure :: bool
  pa_IsPrimary :: bool
  pa_IsActive :: bool
  pa_Client :: "pmax_client option"

type_synonym client_map = "(string \<times> powermax_array list) list"

text \<open>Go's zero value of the struct, where \<open>k8spmax\<close> starts filling in the fields.\<close>

definition zero_powermax_array :: powermax_array where
  "zero_powermax_array = \<lparr>pa_Endpoint = [], pa_StorageArrayID = [], pa_Username = [],
     pa_Password = [], pa_Insecure = False, pa_IsPrimary = False, pa_IsActive = False,
     pa_Client = None\<rparr>"

subsection \<open>The volume handle\<close>

text \<open>
  A volume handle is \<open>volumeIdentifier-serial-volumeId\<close>, for instance
  \<open>csi-BYM-yiming-398993ad1b-powermaxtest-000197902573-00822\<close>. Every collector splits it at
  the dashes; the last part is the volume, the one before it the array, and a handle with fewer
  than two parts is skipped.
\<close>

definition handle_parts :: "string \<Rightarrow> string list" where
  "handle_parts h = split_on (CHR ''-'') h"

definition handle_volume_id :: "string \<Rightarrow> string" where
  "handle_volume_id h = handle_parts h ! (length (handle_parts h) - 1)"

definition handle_array_id :: "string \<Rightarrow> string option" where
  "handle_array_id h =
     (if length (handle_parts h) < 2 then None
      else Some (handle_parts h ! (length (handle_parts h) - 2)))"

lemma handle_volume_id_last: "handle_volume_id h = last (handle_parts h)"
  by (simp add: handle_volume_id_def handle_parts_def last_conv_nth)

text \<open>No identifier read from a handle contains a dash.\<close>

lemma handle_volume_id_no_dash: "CHR ''-'' \<notin> set (handle_volume_id h)"
  unfolding handle_volume_id_last handle_parts_def
  by (rule split_on_parts_no_sep) (rule last_in_set, simp)

lemma handle_array_id_no_dash: "handle_array_id h = Some a \<Longrightarrow> CHR ''-'' \<notin> set a"
  unfolding handle_array_id_def handle_parts_def
  by (auto split: if_splits intro!: split_on_parts_no_sep nth_mem)

lemma handle_parts_split:
  assumes "CHR ''-'' \<notin> set arr" and "CHR ''-'' \<notin> set vol"
  shows "handle_parts (pre @ ''-'' @ arr @ ''-'' @ vol) = handle_parts pre @ [arr, vol]"
  using assms by (simp add: handle_parts_def split_on_append split_on_no_sep)

lemma handle_ids_split:
  assumes "CHR ''-'' \<notin> set arr" and "CHR ''-'' \<notin> set vol"
  shows "handle_array_id (pre @ ''-'' @ arr @ ''-'' @ vol) = Some arr"
    and "handle_volume_id (pre @ ''-'' @ arr @ ''-'' @ vol) = vol"
  unfolding handle_array_id_def handle_volume_id_def handle_parts_split [OF assms]
  by (simp_all add: nth_append)

text \<open>
  C39. Which handles give which identifiers: exactly those that end in the array and the volume, each free of
  dashes and separated by one, with anything before a further dash or with nothing before.
\<close>

theorem handle_roundtrip:
  "handle_array_id h = Some a \<and> handle_volume_id h = v \<longleftrightarrow>
     CHR ''-'' \<notin> set a \<and> CHR ''-'' \<notin> set v \<and>
     (h = a @ ''-'' @ v \<or> (\<exists>pre. h = pre @ ''-'' @ a @ ''-'' @ v))"
proof
  assume ids: "handle_array_id h = Some a \<and> handle_volume_id h = v"
  then have len: "2 \<le> length (handle_parts h)" by (auto simp: handle_array_id_def split: if_splits)
  then obtain ps where parts: "handle_parts h = ps @ [a, v]"
    using ids by (cases "handle_parts h" rule: rev_cases; cases "butlast (handle_parts h)" rule: rev_cases)
      (auto simp: handle_array_id_def handle_volume_id_def nth_append)
  have h: "h = join_on (CHR ''-'') (ps @ [a, v])"
    using join_split [of "CHR ''-''" h] parts by (simp add: handle_parts_def)
  have "h = a @ ''-'' @ v \<or> (\<exists>pre. h = pre @ ''-'' @ a @ ''-'' @ v)"
    unfolding h by (cases "ps = []") (auto simp: join_on_append)
  moreover have "CHR ''-'' \<notin> set a" using ids handle_array_id_no_dash by blast
  moreover have "CHR ''-'' \<notin> set v" using ids handle_volume_id_no_dash by blast
  ultimately show "CHR ''-'' \<notin> set a \<and> CHR ''-'' \<notin> set v \<and>
     (h = a @ ''-'' @ v \<or> (\<exists>pre. h = pre @ ''-'' @ a @ ''-'' @ v))" by blast
next
  assume r: "CHR ''-'' \<notin> set a \<and> CHR ''-'' \<notin> set v \<and>
     (h = a @ ''-'' @ v \<or> (\<exists>pre. h = pre @ ''-'' @ a @ ''-'' @ v))"
  then have "h = a @ ''-'' @ v \<Longrightarrow> handle_parts h = [a, v]"
    by (simp add: handle_parts_def split_on_append split_on_no_sep)
  then show "handle_array_id h = Some a \<and> handle_volume_id h = v"
    using r handle_ids_split [of a v]
    by (elim conjE disjE exE) (simp_all add: handle_array_id_def handle_volume_id_def)
qed

lemma handle_array_id_None_iff: "handle_array_id h = None \<longleftrightarrow> CHR ''-'' \<notin> set h"
  by (simp add: handle_array_id_def handle_parts_def length_split_on count_list_0_iff)

subsection \<open>Keyed maps\<close>

text \<open>
  The interface of the Go maps the program fills in loops: an empty map, a lookup and an
  assignment. Client lemma: filling a map by a loop that, for every element with a key, stores a
  function of what is stored under that key and of the element, leaves under each key the fold
  over the elements with that key, in the order of the loop.
\<close>

locale keyed_map =
  fixes kempty :: "'m"
    and klookup :: "'m \<Rightarrow> 'k \<Rightarrow> 'v option"
    and kupdate :: "'k \<Rightarrow> 'v \<Rightarrow> 'm \<Rightarrow> 'm"
  assumes lookup_empty: "klookup kempty k = None"
    and lookup_update: "klookup (kupdate k v m) j = (if j = k then Some v else klookup m j)"
begin

lemma lookup_fill:
  "klookup (foldl (\<lambda>m r. case key r of None \<Rightarrow> m
       | Some k \<Rightarrow> kupdate k (add (klookup m k) r) m) m rs) k =
   foldl (\<lambda>acc r. Some (add acc r)) (klookup m k) (filter (\<lambda>r. key r = Some k) rs)"
  by (induction rs arbitrary: m) (auto simp: lookup_update split: option.splits)

lemma lookup_fill_empty:
  "klookup (foldl (\<lambda>m r. case key r of None \<Rightarrow> m
       | Some k \<Rightarrow> kupdate k (add (klookup m k) r) m) kempty rs) k =
   foldl (\<lambda>acc r. Some (add acc r)) None (filter (\<lambda>r. key r = Some k) rs)"
  by (simp add: lookup_fill lookup_empty)

lemma lookup_fill_None_iff:
  "klookup (foldl (\<lambda>m r. case key r of None \<Rightarrow> m
       | Some k \<Rightarrow> kupdate k (add (klookup m k) r) m) kempty rs) k = None \<longleftrightarrow>
   (\<forall>r\<in>set rs. key r \<noteq> Some k)"
proof -
  have "foldl (\<lambda>acc r. Some (add acc r)) None xs = None \<longleftrightarrow> xs = []" for xs
    by (cases xs rule: rev_cases) simp_all
  then show ?thesis by (simp add: lookup_fill_empty filter_empty_conv)
qed

lemma lookup_overwrite:
  "klookup (foldl (\<lambda>m r. kupdate (key r) (val r) m) kempty rs) k =
   map_option val (find (\<lambda>r. key r = k) (rev rs))"
  by (induction rs rule: rev_induct) (auto simp: lookup_empty lookup_update)

end

interpretation alist_map: keyed_map "[]" map_of AList.update
  by unfold_locales auto

interpretation fun_map: keyed_map "Map.empty" "\<lambda>m. m" "\<lambda>k v m. m(k \<mapsto> v)"
  by unfold_locales auto

lemma distinct_fill:
  "distinct (map fst m) \<Longrightarrow>
   distinct (map fst (foldl (\<lambda>m r. case key r of None \<Rightarrow> m
     | Some k \<Rightarrow> AList.update k (add (map_of m k) r) m) m rs))"
  by (induction rs arbitrary: m) (auto split: option.splits simp: distinct_update)

text \<open>
  Processing the groups of a map that a loop filled by appending each element to the list of its key
  gives, in some order, what processing the elements one by one gives.
\<close>

lemma mset_concat_update:
  "mset (concat (map f (AList.update k v al))) +
     (case map_of al k of None \<Rightarrow> {#} | Some w \<Rightarrow> mset (f (k, w))) =
   mset (concat (map f al)) + mset (f (k, v))"
  by (induction al) (auto split: option.splits)

lemma mset_grouped:
  assumes nil: "\<And>k. f (k, []) = []" and snoc: "\<And>k rs r. f (k, rs @ [r]) = f (k, rs) @ g k r"
  shows "mset (concat (map f (foldl (\<lambda>m r. case key r of None \<Rightarrow> m
     | Some k \<Rightarrow> AList.update k ((case map_of m k of Some rs \<Rightarrow> rs | None \<Rightarrow> []) @ [r]) m) [] rs))) =
   mset (concat (map (\<lambda>r. case key r of None \<Rightarrow> [] | Some k \<Rightarrow> g k r) rs))"
proof (induction rs rule: rev_induct)
  case Nil
  then show ?case by simp
next
  case (snoc r rs)
  let ?m = "foldl (\<lambda>m r. case key r of None \<Rightarrow> m
     | Some k \<Rightarrow> AList.update k ((case map_of m k of Some rs \<Rightarrow> rs | None \<Rightarrow> []) @ [r]) m) [] rs"
  show ?case
  proof (cases "key r")
    case None
    with snoc show ?thesis by simp
  next
    case (Some k)
    have "f (k, [r]) = g k r" using nil [of k] assms(2) [of k "[]" r] by simp
    then show ?thesis
      using snoc Some mset_concat_update [of f k "(case map_of ?m k of Some rs \<Rightarrow> rs | None \<Rightarrow> []) @ [r]" ?m]
      by (cases "map_of ?m k") (simp_all add: assms(2) ac_simps)
  qed
qed

end
