(* ===== verification/K8s.thy ===== *)
theory K8s
  imports Metric_Types
begin

section \<open>The Kubernetes access layer (\<open>internal/k8s\<close>)\<close>

text \<open>
  \<open>VolumeFinder\<close> turns the cluster's persistent volumes into \<^typ>\<open>volume_info\<close> values,
  \<open>StorageClassFinder\<close> picks the storage classes of the managed arrays, \<open>API\<close> connects lazily to
  the API server, and \<open>LeaderElector\<close> wraps client-go's elector. The Kubernetes objects are
  records of the fields the code reads; what client-go answers is a parameter.
\<close>

subsection \<open>\<open>VolumeFinder\<close>\<close>

record csi_source =
  csi_Driver :: string
  csi_VolumeHandle :: string
  csi_VolumeAttributes :: "string \<rightharpoonup> string"

record claim_ref =
  claim_Namespace :: string
  claim_UID :: string
  claim_Name :: string

text \<open>
  A persistent volume: the canonical text of its capacity quantities and of its creation time
  stand for the values that \<open>String()\<close> renders.
\<close>

record persistent_volume =
  pvol_Name :: string
  pvol_CreationTimestamp :: string
  pvol_CSI :: "csi_source option"
  pvol_ClaimRef :: "claim_ref option"
  pvol_Capacity :: "string \<rightharpoonup> string"
  pvol_StorageClassName :: string
  pvol_Phase :: string

record volume_finder =
  vf_DriverNames :: "string list"

fun contains :: "string list \<Rightarrow> string \<Rightarrow> bool" where
  "contains [] val = False"
| "contains (element # rest) val = (if element = val then True else contains rest val)"

text \<open>Indexing a Go map with a missing key gives the zero value.\<close>

definition attr :: "(string \<rightharpoonup> string) \<Rightarrow> string \<Rightarrow> string" where
  "attr m k = (case m k of Some v \<Rightarrow> v | None \<Rightarrow> [])"

definition volume_info_of ::
  "string \<Rightarrow> persistent_volume \<Rightarrow> csi_source \<Rightarrow> claim_ref \<Rightarrow> volume_info" where
  "volume_info_of zero_quantity volume csi claim =
     (let capacity = (case pvol_Capacity volume ''storage'' of Some q \<Rightarrow> q | None \<Rightarrow> zero_quantity);
          srp = attr (csi_VolumeAttributes csi) ''SRP'';
          serviceLevel = attr (csi_VolumeAttributes csi) ''ServiceLevel'';
          storageGroup = attr (csi_VolumeAttributes csi) ''StorageGroup'';
          symID = attr (csi_VolumeAttributes csi) ''powermax/SYMID'';
          protocol = attr (csi_VolumeAttributes csi) ''Protocol'';
          storageProtocol = (if protocol = [] then ''N/A'' else protocol)
      in \<lparr>vi_Namespace = claim_Namespace claim,
          vi_PersistentVolumeClaim = claim_UID claim,
          vi_PersistentVolumeStatus = pvol_Phase volume,
          vi_VolumeClaimName = claim_Name claim,
          vi_PersistentVolume = pvol_Name volume,
          vi_StorageClass = pvol_StorageClassName volume,
          vi_Driver = csi_Driver csi,
          vi_ProvisionedSize = capacity,
          vi_CreatedTime = pvol_CreationTimestamp volume,
          vi_VolumeHandle = csi_VolumeHandle csi,
          vi_SRP = srp,
          vi_ServiceLevel = serviceLevel,
          vi_StorageGroup = storageGroup,
          vi_SymID = symID,
          vi_StorageSystemVolumeName = pvol_Name volume,
          vi_Protocol = storageProtocol\<rparr>)"

text \<open>The loop over \<open>volumes.Items\<close>, appending to the result.\<close>

fun collect_volumes ::
  "volume_finder \<Rightarrow> string \<Rightarrow> volume_info list \<Rightarrow> persistent_volume list \<Rightarrow> volume_info list" where
  "collect_volumes f zq acc [] = acc"
| "collect_volumes f zq acc (volume # rest) =
     (case pvol_CSI volume of
        None \<Rightarrow> collect_volumes f zq acc rest
      | Some csi \<Rightarrow>
          (case pvol_ClaimRef volume of
             None \<Rightarrow> collect_volumes f zq acc rest
           | Some claim \<Rightarrow>
               if contains (vf_DriverNames f) (csi_Driver csi)
               then collect_volumes f zq (acc @ [volume_info_of zq volume csi claim]) rest
               else collect_volumes f zq acc rest))"

definition GetPersistentVolumes ::
  "volume_finder \<Rightarrow> string \<Rightarrow> persistent_volume list result \<Rightarrow> volume_info list result" where
  "GetPersistentVolumes f zq api = bind_res api (\<lambda>items. Inr (collect_volumes f zq [] items))"

text \<open>Which volumes are monitored, and what is reported about each.\<close>

definition monitored :: "string list \<Rightarrow> persistent_volume \<Rightarrow> bool" where
  "monitored drivers v \<longleftrightarrow>
     (\<exists>csi claim. pvol_CSI v = Some csi \<and> pvol_ClaimRef v = Some claim \<and> csi_Driver csi \<in> set drivers)"

lemma contains_iff: "contains xs x \<longleftrightarrow> x \<in> set xs"
  by (induction xs) auto

lemma collect_volumes_spec:
  "collect_volumes f zq acc vs = acc @
     map (\<lambda>v. volume_info_of zq v (the (pvol_CSI v)) (the (pvol_ClaimRef v)))
       (filter (monitored (vf_DriverNames f)) vs)"
  by (induction vs arbitrary: acc)
    (auto simp: monitored_def contains_iff split: option.splits)

text \<open>
  The volume finder returns one entry per persistent volume that has a CSI source, a claim and
  a managed driver, in the API's order, and nothing else; an API error is returned as it is.
\<close>

theorem persistent_volumes_exact:
  "GetPersistentVolumes f zq api =
     (case api of
        Inl e \<Rightarrow> Inl e
      | Inr items \<Rightarrow> Inr (map (\<lambda>v. volume_info_of zq v (the (pvol_CSI v)) (the (pvol_ClaimRef v)))
          (filter (monitored (vf_DriverNames f)) items)))"
  by (cases api) (simp_all add: GetPersistentVolumes_def collect_volumes_spec)

subsection \<open>\<open>StorageClassFinder\<close>\<close>

record storage_class =
  sc_Name :: string
  sc_Provisioner :: string
  sc_Parameters :: "string \<rightharpoonup> string"

record storage_array_id =
  sa_ID :: string
  sa_IsDefault :: bool
  sa_DriverNames :: "string list"

record storage_class_finder =
  scf_StorageArrayID :: "storage_array_id list"

fun Contains :: "string list \<Rightarrow> string \<Rightarrow> bool" where
  "Contains [] val = False"
| "Contains (element # rest) val = (if element = val then True else Contains rest val)"

fun isMatch_loop :: "storage_array_id list \<Rightarrow> storage_class \<Rightarrow> bool" where
  "isMatch_loop [] cls = False"
| "isMatch_loop (arrayID # rest) cls =
     (if \<not> Contains (sa_DriverNames arrayID) (sc_Provisioner cls) then isMatch_loop rest cls
      else let storageArrayID = attr (sc_Parameters cls) ''StorageArrayId'';
               ok = sc_Parameters cls ''StorageArrayId'' \<noteq> None
        in if storageArrayID = sa_ID arrayID \<or> (\<not> ok \<and> sa_IsDefault arrayID) then True
           else isMatch_loop rest cls)"

definition isMatch :: "storage_class_finder \<Rightarrow> storage_class \<Rightarrow> bool" where
  "isMatch f cls = isMatch_loop (scf_StorageArrayID f) cls"

fun collect_classes ::
  "storage_class_finder \<Rightarrow> storage_class list \<Rightarrow> storage_class list \<Rightarrow> storage_class list" where
  "collect_classes f acc [] = acc"
| "collect_classes f acc (cls # rest) =
     (if isMatch f cls then collect_classes f (acc @ [cls]) rest
      else collect_classes f acc rest)"

definition GetStorageClasses ::
  "storage_class_finder \<Rightarrow> storage_class list result \<Rightarrow> storage_class list result" where
  "GetStorageClasses f api = bind_res api (\<lambda>items. Inr (collect_classes f [] items))"

lemma Contains_iff: "Contains xs x \<longleftrightarrow> x \<in> set xs"
  by (induction xs) auto

lemma collect_classes_spec: "collect_classes f acc cs = acc @ filter (isMatch f) cs"
  by (induction cs arbitrary: acc) auto

lemma isMatch_iff:
  "isMatch f c \<longleftrightarrow>
     (\<exists>a\<in>set (scf_StorageArrayID f). sc_Provisioner c \<in> set (sa_DriverNames a) \<and>
        (case sc_Parameters c ''StorageArrayId'' of
           Some i \<Rightarrow> i = sa_ID a
         | None \<Rightarrow> sa_ID a = [] \<or> sa_IsDefault a))"
proof -
  have "isMatch_loop as c \<longleftrightarrow>
     (\<exists>a\<in>set as. sc_Provisioner c \<in> set (sa_DriverNames a) \<and>
        (case sc_Parameters c ''StorageArrayId'' of
           Some i \<Rightarrow> i = sa_ID a
         | None \<Rightarrow> sa_ID a = [] \<or> sa_IsDefault a))" for as
    by (induction as) (auto simp: Contains_iff attr_def Let_def split: option.splits)
  then show ?thesis by (simp add: isMatch_def)
qed

text \<open>
  A storage class is reported exactly when it is provisioned by a driver of an array whose ID it
  names; a class that names no array belongs to the default arrays (and to an array with an
  empty ID, since the missing parameter reads as the empty string).
\<close>

theorem storage_classes_exact:
  "GetStorageClasses f (Inr classes) = Inr (filter (\<lambda>c.
     list_ex (\<lambda>a. sc_Provisioner c \<in> set (sa_DriverNames a) \<and>
        (case sc_Parameters c ''StorageArrayId'' of
           Some i \<Rightarrow> i = sa_ID a
         | None \<Rightarrow> sa_ID a = [] \<or> sa_IsDefault a)) (scf_StorageArrayID f)) classes)"
  by (simp add: GetStorageClasses_def collect_classes_spec list_ex_iff isMatch_iff cong: filter_cong)

subsection \<open>\<open>API\<close>: the lazily connected client\<close>

text \<open>
  The field \<open>Client\<close> is an interface. \<open>None\<close> is the nil interface; \<open>Some p\<close> holds a
  \<open>*kubernetes.Clientset\<close>, which is itself nil when \<open>p = None\<close>: such an interface value
  is not equal to nil. The configuration, the client constructor (its pointer and its error) and the
  list call on a pointer are parameters.
\<close>

record 'c k8s_api =
  api_Client :: "'c option option"

definition getConfig :: "'cfg result \<Rightarrow> 'cfg result" where
  "getConfig inClusterConfig = bind_res inClusterConfig (\<lambda>config. Inr config)"

definition ConnectFn ::
  "'cfg result \<Rightarrow> ('cfg \<Rightarrow> 'c option \<times> error option) \<Rightarrow> 'c k8s_api \<Rightarrow>
   error option \<times> 'c k8s_api" where
  "ConnectFn inClusterConfig newConfig api =
     (case getConfig inClusterConfig of
        Inl err \<Rightarrow> (Some err, api)
      | Inr config \<Rightarrow>
          (case newConfig config of
             (client, err) \<Rightarrow>
               let api = api\<lparr>api_Client := Some client\<rparr>
               in (case err of Some e \<Rightarrow> (Some e, api) | None \<Rightarrow> (None, api))))"

text \<open>\<open>GetPersistentVolumes\<close> and \<open>GetStorageClasses\<close> of \<open>API\<close> differ in the call they end with.\<close>

definition api_list ::
  "'cfg result \<Rightarrow> ('cfg \<Rightarrow> 'c option \<times> error option) \<Rightarrow> ('c option \<Rightarrow> 'a result) \<Rightarrow>
   'c k8s_api \<Rightarrow> 'a result \<times> 'c k8s_api" where
  "api_list inClusterConfig newConfig call api =
     (case api_Client api of
        Some client \<Rightarrow> (call client, api)
      | None \<Rightarrow>
          (case ConnectFn inClusterConfig newConfig api of
             (Some err, api) \<Rightarrow> (Inl err, api)
           | (None, api) \<Rightarrow>
               (case api_Client api of
                  Some client \<Rightarrow> (call client, api)
                | None \<Rightarrow> (Inl (Panic ''nil interface''), api))))"

definition api_GetPersistentVolumes ::
  "'cfg result \<Rightarrow> ('cfg \<Rightarrow> 'c option \<times> error option) \<Rightarrow>
   ('c option \<Rightarrow> persistent_volume list result) \<Rightarrow>
   'c k8s_api \<Rightarrow> persistent_volume list result \<times> 'c k8s_api" where
  "api_GetPersistentVolumes = api_list"

definition api_GetStorageClasses ::
  "'cfg result \<Rightarrow> ('cfg \<Rightarrow> 'c option \<times> error option) \<Rightarrow>
   ('c option \<Rightarrow> storage_class list result) \<Rightarrow>
   'c k8s_api \<Rightarrow> storage_class list result \<times> 'c k8s_api" where
  "api_GetStorageClasses = api_list"

text \<open>Once connected, the API never connects again and keeps its client.\<close>

lemma api_list_connected:
  "api_Client api = Some c \<Longrightarrow> api_list cfg new call api = (call c, api)"
  by (simp add: api_list_def)

text \<open>
  C40. A failed client construction poisons the API: \<open>kubernetes.NewForConfig\<close> returns a nil pointer
  with its error, the assignment stores it in the interface, and the next call, finding the
  interface non-nil, skips the reconnection and calls the API on the nil client, even when
  a connection would now succeed.
\<close>

theorem failed_connect_poisons_client:
  assumes "api_Client api = None" and "new1 config = (None, Some err)"
  shows "api_list (Inr config) new1 call1 api = (Inl err, api\<lparr>api_Client := Some None\<rparr>) \<and>
    api_list cfg2 new2 call2 (snd (api_list (Inr config) new1 call1 api)) =
      (call2 None, api\<lparr>api_Client := Some None\<rparr>)"
  using assms by (simp_all add: api_list_def ConnectFn_def getConfig_def)

theorem failed_connect_poisons_client_witness:
  "fst (api_list (Inr ()) (\<lambda>_. (Some (), None)) (\<lambda>c. if c = None then Inl (Panic ''nil client'') else Inr ''volumes'')
     (snd (api_list (Inr ()) (\<lambda>_. (None :: unit option, Some (Err ''no route''))) (\<lambda>c. Inr ''volumes'')
        \<lparr>api_Client = None\<rparr>))) = Inl (Panic ''nil client'')"
proof -
  let ?call = "\<lambda>c :: unit option. if c = None then Inl (Panic ''nil client'') else Inr ''volumes''"
  have "api_list (Inr ()) (\<lambda>_. (Some (), None)) ?call
      (snd (api_list (Inr ()) (\<lambda>_. (None :: unit option, Some (Err ''no route''))) (\<lambda>c. Inr ''volumes'')
        \<lparr>api_Client = None\<rparr>)) = (?call None, \<lparr>api_Client = None\<rparr>\<lparr>api_Client := Some None\<rparr>)"
    by (rule conjunct2 [OF failed_connect_poisons_client [where err = "Err ''no route''"]]) simp_all
  then show ?thesis by simp
qed

subsection \<open>\<open>LeaderElector\<close>\<close>

text \<open>
  \<open>InitLeaderElection\<close> builds the elector and runs it; running it blocks until the lease is lost.
  The elector library is a parameter: \<open>newElector\<close> gives the pointer and the error, and
  \<open>isLeader\<close> its current answer.
\<close>

record leader_config =
  lc_LeaseDuration :: int64
  lc_RenewDeadline :: int64
  lc_RetryPeriod :: int64
  lc_Name :: string
  lc_Namespace :: string
  lc_Identity :: string

record 'e leader_elector =
  le_Elector :: "'e option"

definition second :: int64 where
  "second = 1000000000"

definition leader_config_of :: "string \<Rightarrow> string \<Rightarrow> string \<Rightarrow> leader_config" where
  "leader_config_of endpoint namespace hostname =
     \<lparr>lc_LeaseDuration = 15 * second, lc_RenewDeadline = 10 * second, lc_RetryPeriod = 2 * second,
      lc_Name = endpoint, lc_Namespace = namespace, lc_Identity = hostname\<rparr>"

definition InitLeaderElection ::
  "'cfg result \<Rightarrow> ('cfg \<Rightarrow> 'c result) \<Rightarrow>
   ('c \<Rightarrow> leader_config \<Rightarrow> 'e option \<times> error option) \<Rightarrow> string \<Rightarrow>
   'e leader_elector \<Rightarrow> string \<Rightarrow> string \<Rightarrow> error option \<times> 'e leader_elector" where
  "InitLeaderElection inClusterConfig newForConfig newElector hostname elect endpoint namespace =
     (case inClusterConfig of
        Inl err \<Rightarrow> (Some err, elect)
      | Inr config \<Rightarrow>
          (case newForConfig config of
             Inl err \<Rightarrow> (Some err, elect)
           | Inr client \<Rightarrow>
               (case newElector client (leader_config_of endpoint namespace hostname) of
                  (elector, err) \<Rightarrow>
                    let elect = elect\<lparr>le_Elector := elector\<rparr>
                    in (case err of Some e \<Rightarrow> (Some e, elect) | None \<Rightarrow> (None, elect)))))"

definition IsLeader :: "('e \<Rightarrow> bool) \<Rightarrow> 'e leader_elector \<Rightarrow> bool" where
  "IsLeader isLeader elect = (case le_Elector elect of None \<Rightarrow> False | Some e \<Rightarrow> isLeader e)"

text \<open>
  The timings satisfy what the election library requires of them: the lease outlasts the renewal
  deadline, which outlasts the retry period times its jitter factor of 1.2.
\<close>

lemma leader_config_timings:
  "sint (lc_RenewDeadline (leader_config_of e n h)) < sint (lc_LeaseDuration (leader_config_of e n h))"
  "12 * sint (lc_RetryPeriod (leader_config_of e n h)) < 10 * sint (lc_RenewDeadline (leader_config_of e n h))"
  by (simp_all add: leader_config_of_def second_def)

text \<open>
  A replica whose election never got an elector is not a leader, whatever the library would
  answer: a failure before the elector is stored leaves the state unchanged.
\<close>

theorem no_elector_no_leader:
  assumes none: "le_Elector elect = None"
    and init: "InitLeaderElection cfg newForConfig newElector hostname elect endpoint namespace = (Some e, elect')"
    and nil: "\<And>c lc. snd (newElector c lc) \<noteq> None \<Longrightarrow> fst (newElector c lc) = None"
  shows "\<not> IsLeader isLeader elect'"
proof (cases "\<exists>config client. cfg = Inr config \<and> newForConfig config = Inr client")
  case False
  then have "elect' = elect"
    using init by (auto simp: InitLeaderElection_def split: sum.splits)
  then show ?thesis using none by (simp add: IsLeader_def)
next
  case True
  then obtain config client where ok: "cfg = Inr config" "newForConfig config = Inr client" by blast
  obtain el er where el: "newElector client (leader_config_of endpoint namespace hostname) = (el, er)"
    by force
  from init have "er = Some e" "elect' = elect\<lparr>le_Elector := el\<rparr>"
    by (auto simp: InitLeaderElection_def ok el Let_def split: option.splits)
  moreover have "el = None" using nil [of client "leader_config_of endpoint namespace hostname"] el
    \<open>er = Some e\<close> by simp
  ultimately show ?thesis by (simp add: IsLeader_def)
qed

end
