(* ===== verification/Base_Metrics.thy ===== *)
theory Base_Metrics
  imports Metric_Types
begin

section \<open>The base of the collectors (\<open>internal/service/metric/base_metrics.go\<close>)\<close>

text \<open>
  \<open>BaseMetrics\<close> holds what every collector needs: the volume finder, the clients of the arrays,
  the recorder and the connection limit, copied out of the service once, when the collector's
  singleton is created. This theory models the choice of a client, the guards of
  \<open>ExportMetrics\<close>, the copy, and the double-checked creation of a singleton under the global
  lock.
\<close>

subsection \<open>Interfaces\<close>

text \<open>
  The \<open>MetricsRecorder\<close> interface, one field per method; an attribute is a key and a string value
  (every attribute of the program is made with \<open>attribute.String\<close>).
\<close>

type_synonym label = "string \<times> string"

record metrics_recorder =
  RecordNumericMetrics :: "string \<Rightarrow> label list \<Rightarrow> capacity_record \<Rightarrow> unit result"
  RecordVolPerfMetrics :: "string \<Rightarrow> vol_perf_record \<Rightarrow> unit result"
  RecordStorageGroupPerfMetrics :: "string \<Rightarrow> sg_perf_record \<Rightarrow> unit result"
  RecordTopologyMetrics :: "topology_meta \<Rightarrow> topology_record \<Rightarrow> unit result"

text \<open>The getters of the \<open>Service\<close> interface, as the values they return; a nil map is \<open>None\<close>.\<close>

record service_view =
  sv_VolumeFinder :: "unit \<Rightarrow> volume_info list result"
  sv_PowerMaxClients :: "client_map option"
  sv_MetricsRecorder :: "metrics_recorder option"
  sv_MaxPowerMaxConnections :: int

text \<open>
  \<open>BaseMetrics\<close>: the interface field \<open>Collector\<close> is nil or, once the constructor has assigned it, the very
  instance that contains the base; its dynamic type is the \<open>typeName\<close> of the operations below.
\<close>

record base_metrics =
  bm_Collector :: "unit option"
  bm_VolumeFinder :: "unit \<Rightarrow> volume_info list result"
  bm_PowerMaxClients :: "client_map option"
  bm_MetricsRecorder :: "metrics_recorder option"
  bm_MaxPowerMaxConnections :: int

definition NewBaseMetrics :: "service_view \<Rightarrow> base_metrics" where
  "NewBaseMetrics service =
     \<lparr>bm_Collector = None,
      bm_VolumeFinder = sv_VolumeFinder service,
      bm_PowerMaxClients = sv_PowerMaxClients service,
      bm_MetricsRecorder = sv_MetricsRecorder service,
      bm_MaxPowerMaxConnections = sv_MaxPowerMaxConnections service\<rparr>"

subsection \<open>\<open>GetPowerMaxClient\<close>\<close>

text \<open>The loop over the arrays under one ID: the client of the first active one.\<close>

fun first_active :: "powermax_array list \<Rightarrow> pmax_client option option" where
  "first_active [] = None"
| "first_active (array # rest) =
     (if pa_IsActive array then Some (pa_Client array) else first_active rest)"

definition no_client_error :: "string \<Rightarrow> error" where
  "no_client_error arrayID = Err (''unable to find active gopowermax client for array '' @ arrayID)"

definition GetPowerMaxClient :: "base_metrics \<Rightarrow> string \<Rightarrow> pmax_client option result" where
  "GetPowerMaxClient m arrayID =
     (case bm_PowerMaxClients m of
        None \<Rightarrow> Inl (Err ''PowerMaxClients is empty'')
      | Some clients \<Rightarrow>
          (case map_of clients arrayID of
             Some arrays \<Rightarrow>
               (case first_active arrays of
                  Some client \<Rightarrow> Inr client
                | None \<Rightarrow> Inl (no_client_error arrayID))
           | None \<Rightarrow> Inl (no_client_error arrayID)))"

text \<open>
  \<open>k8spmax\<close> only ever hands out arrays whose client was set before they were marked active.
\<close>

definition clients_ok :: "client_map \<Rightarrow> bool" where
  "clients_ok cm \<longleftrightarrow> (\<forall>(i, as) \<in> set cm. \<forall>a \<in> set as. pa_IsActive a \<longrightarrow> pa_Client a \<noteq> None)"

definition base_ok :: "base_metrics \<Rightarrow> bool" where
  "base_ok m \<longleftrightarrow> (case bm_PowerMaxClients m of None \<Rightarrow> True | Some cm \<Rightarrow> clients_ok cm)"

lemma first_active_skip:
  "list_all (\<lambda>b. \<not> pa_IsActive b) us \<Longrightarrow> first_active (us @ vs) = first_active vs"
  by (induction us) auto

lemma first_active_split:
  "first_active as = Some c \<Longrightarrow> \<exists>us a vs. as = us @ a # vs \<and> pa_IsActive a \<and> pa_Client a = c \<and>
     list_all (\<lambda>b. \<not> pa_IsActive b) us"
proof (induction as)
  case Nil
  then show ?case by simp
next
  case (Cons x as)
  show ?case
  proof (cases "pa_IsActive x")
    case True
    with Cons.prems have "x # as = [] @ x # as \<and> pa_IsActive x \<and> pa_Client x = c \<and>
      list_all (\<lambda>b. \<not> pa_IsActive b) []" by simp
    then show ?thesis by blast
  next
    case False
    with Cons obtain us a vs where "as = us @ a # vs" "pa_IsActive a" "pa_Client a = c"
      "list_all (\<lambda>b. \<not> pa_IsActive b) us" by auto
    with False have "x # as = (x # us) @ a # vs \<and> pa_IsActive a \<and> pa_Client a = c \<and>
      list_all (\<lambda>b. \<not> pa_IsActive b) (x # us)" by simp
    then show ?thesis by blast
  qed
qed

lemma first_active_Some_iff:
  "first_active as = Some c \<longleftrightarrow> (\<exists>us a vs. as = us @ a # vs \<and> pa_IsActive a \<and> pa_Client a = c \<and>
     list_all (\<lambda>b. \<not> pa_IsActive b) us)"
  using first_active_split by (auto simp: first_active_skip)

lemma GetPowerMaxClient_Inr:
  "GetPowerMaxClient m arrayID = Inr c \<longleftrightarrow>
     (\<exists>clients as. bm_PowerMaxClients m = Some clients \<and> map_of clients arrayID = Some as \<and>
        first_active as = Some c)"
  by (auto simp: GetPowerMaxClient_def split: option.splits)

lemma GetPowerMaxClient_collector [simp]: "GetPowerMaxClient (m\<lparr>bm_Collector := c\<rparr>) a = GetPowerMaxClient m a"
  by (simp add: GetPowerMaxClient_def)

lemma GetPowerMaxClient_never_nil:
  "base_ok m \<Longrightarrow> GetPowerMaxClient m a \<noteq> Inr None"
  by (fastforce simp: base_ok_def clients_ok_def GetPowerMaxClient_Inr
      dest!: map_of_SomeD first_active_split)

text \<open>
  A client is returned exactly when some array under the ID is active, and it is the client of
  the first such array; every array before it is inactive.
\<close>

theorem first_live_client:
  "GetPowerMaxClient m arrayID = Inr c \<longleftrightarrow>
     (\<exists>clients before a after. bm_PowerMaxClients m = Some clients \<and>
        map_of clients arrayID = Some (before @ a # after) \<and>
        pa_IsActive a \<and> pa_Client a = c \<and> list_all (\<lambda>b. \<not> pa_IsActive b) before)"
  by (auto simp: GetPowerMaxClient_Inr first_active_Some_iff) blast+

subsection \<open>\<open>ExportMetrics\<close>\<close>

text \<open>\<open>collected\<close> is what the \<open>Collect\<close> method of the collector answers, if it is called.\<close>

definition ExportMetrics :: "string \<Rightarrow> 'o result \<Rightarrow> base_metrics \<Rightarrow> 'o result" where
  "ExportMetrics typeName collected m =
     (case bm_Collector m of
        None \<Rightarrow> Inl (Err ''no MetricsCollector provided'')
      | Some _ \<Rightarrow>
          if bm_MetricsRecorder m = None
          then Inl (Err (''no MetricsRecorder provided for '' @ typeName))
          else if bm_PowerMaxClients m = None
          then Inl (Err (''no PowerMaxClients provided for '' @ typeName))
          else if bm_MaxPowerMaxConnections m = 0
          then Inl (Err (''no MaxPowerMaxConnections provided for '' @ typeName))
          else (case collected of Inl err \<Rightarrow> Inl err | Inr out \<Rightarrow> Inr out))"

text \<open>
  \<open>ExportMetrics\<close> collects only in a complete configuration: a collector, a recorder, a
  non-nil client map and a non-zero connection limit; then its result is the collector's.
\<close>

theorem export_guards:
  "ExportMetrics typeName collected m = Inr out \<longleftrightarrow>
     bm_Collector m \<noteq> None \<and> bm_MetricsRecorder m \<noteq> None \<and>
     bm_PowerMaxClients m \<noteq> None \<and> bm_MaxPowerMaxConnections m \<noteq> 0 \<and> collected = Inr out"
  by (auto simp: ExportMetrics_def split: option.splits sum.splits)

text \<open>
  The \<open>MetricsCollector\<close> interface, as \<open>ExportMetrics\<close> relies on it. A collection is
  scheduled by the runtime, so \<open>collect m out\<close> relates a base to the outcomes it can have. The laws:
  an error of the volume finder is the outcome and nothing is exported; any other
  collection with a recorder succeeds; and a healthy base always has an outcome.
\<close>

definition complete_base :: "base_metrics \<Rightarrow> bool" where
  "complete_base m \<longleftrightarrow> bm_Collector m \<noteq> None \<and> bm_MetricsRecorder m \<noteq> None \<and> bm_PowerMaxClients m \<noteq> None \<and>
     bm_MaxPowerMaxConnections m \<noteq> 0"

definition exports ::
  "(base_metrics \<Rightarrow> 'o result \<Rightarrow> bool) \<Rightarrow> string \<Rightarrow> base_metrics \<Rightarrow> 'o result \<Rightarrow> bool" where
  "exports collect typeName m out \<longleftrightarrow>
     (\<exists>c. (complete_base m \<longrightarrow> collect m c) \<and> out = ExportMetrics typeName c m)"

locale metrics_collector =
  fixes collect :: "base_metrics \<Rightarrow> 'o result \<Rightarrow> bool"
  assumes finder_error: "bm_VolumeFinder m () = Inl e \<Longrightarrow> collect m out \<longleftrightarrow> out = Inl e"
    and finder_ok: "bm_VolumeFinder m () = Inr pvs \<Longrightarrow> bm_MetricsRecorder m \<noteq> None \<Longrightarrow>
      collect m out \<Longrightarrow> \<exists>x. out = Inr x"
    and total: "base_ok m \<Longrightarrow> bm_MetricsRecorder m \<noteq> None \<Longrightarrow> 0 < bm_MaxPowerMaxConnections m \<Longrightarrow>
      \<exists>out. collect m out"
begin

lemma export_finder_error:
  "complete_base m \<Longrightarrow> bm_VolumeFinder m () = Inl e \<Longrightarrow> exports collect ty m out \<longleftrightarrow> out = Inl e"
  by (auto simp: exports_def complete_base_def ExportMetrics_def finder_error)

lemma export_succeeds_iff:
  assumes "exports collect ty m out"
  shows "(\<exists>x. out = Inr x) \<longleftrightarrow> complete_base m \<and> (\<exists>pvs. bm_VolumeFinder m () = Inr pvs)"
proof -
  obtain c where c: "complete_base m \<longrightarrow> collect m c" and out: "out = ExportMetrics ty c m"
    using assms by (auto simp: exports_def)
  have "(\<exists>x. out = Inr x) \<longleftrightarrow> complete_base m \<and> (\<exists>x. c = Inr x)"
    unfolding out export_guards complete_base_def by blast
  moreover have "(\<exists>x. c = Inr x) \<longleftrightarrow> (\<exists>pvs. bm_VolumeFinder m () = Inr pvs)" if complete: "complete_base m"
  proof (cases "bm_VolumeFinder m ()")
    case (Inl e)
    then show ?thesis using c complete finder_error by auto
  next
    case (Inr pvs)
    then show ?thesis using c complete finder_ok by (auto simp: complete_base_def)
  qed
  ultimately show ?thesis by blast
qed

lemma export_total:
  assumes "base_ok m" and "0 < bm_MaxPowerMaxConnections m"
  shows "\<exists>out. exports collect ty m out"
proof (cases "complete_base m")
  case True
  then show ?thesis using total [OF assms(1) _ assms(2)] by (auto simp: exports_def complete_base_def)
qed (auto simp: exports_def)

end

subsection \<open>The singletons\<close>

text \<open>
  \<open>CreateCapacityMetricsInstance\<close>, \<open>CreatePerformanceMetricsInstance\<close> and
  \<open>CreateTopologyMetricsInstance\<close> share one shape: return the package variable, creating it
  from the service when it is nil. The instance is \<open>mk\<close> of its base, and the collector of the base is
  set to the instance. This is a whole call; the theory \<open>Singleton\<close> takes the two assignments apart.
\<close>

definition create_instance ::
  "(base_metrics \<Rightarrow> 'm) \<Rightarrow> service_view \<Rightarrow> 'm option \<Rightarrow> 'm \<times> 'm option" where
  "create_instance mk service inst =
     (case inst of
        Some i \<Rightarrow> (i, inst)
      | None \<Rightarrow>
          (let base = NewBaseMetrics service; i = mk (base\<lparr>bm_Collector := Some ()\<rparr>) in (i, Some i)))"

text \<open>The base of a finished instance.\<close>

definition created_base :: "service_view \<Rightarrow> base_metrics" where
  "created_base service = (NewBaseMetrics service)\<lparr>bm_Collector := Some ()\<rparr>"

fun create_many ::
  "(base_metrics \<Rightarrow> 'm) \<Rightarrow> service_view list \<Rightarrow> 'm option \<Rightarrow> 'm list \<times> 'm option" where
  "create_many mk [] inst = ([], inst)"
| "create_many mk (s # ss) inst =
     (let (i, inst) = create_instance mk s inst; (is, inst) = create_many mk ss inst
      in (i # is, inst))"

lemma create_many_fixed:
  "create_many mk ss (Some i) = (replicate (length ss) i, Some i)"
  by (induction ss) (simp_all add: create_instance_def)

text \<open>
  The first export freezes a collector: every later call returns the instance built from
  the service as it was then, so a later change of the service's clients, recorder or connection
  limit never reaches it.
\<close>

theorem singleton_frozen:
  "create_many mk (s # ss) None =
     (replicate (Suc (length ss)) (mk (created_base s)), Some (mk (created_base s)))"
  by (simp add: created_base_def create_instance_def create_many_fixed Let_def)

end
