(* ===== verification/Samples.thy ===== *)
theory Samples
  imports Base_Metrics
begin

section \<open>A concrete array, volume and service\<close>

text \<open>
  One storage array with one volume and one storage group, a client that answers for it, a persistent
  volume that names it, and a complete collector base. The concrete instances of the theorems about
  collections are stated on these values.
\<close>

definition sample_metric :: volume_metric where
  "sample_metric = \<lparr>vm_MBRead = Fin 1, vm_MBWritten = Fin 2, vm_ReadResponseTime = Fin 3,
     vm_WriteResponseTime = Fin 4, vm_Reads = Fin 5, vm_Writes = Fin 6\<rparr>"

definition sample_sg_metric :: sg_metric where
  "sample_sg_metric = \<lparr>sm_HostMBReads = Fin 1, sm_HostMBWritten = Fin 2, sm_ReadResponseTime = Fin 3,
     sm_WriteResponseTime = Fin 4, sm_HostReads = Fin 5, sm_HostWrites = Fin 6, sm_AvgIOSize = Fin 8\<rparr>"

definition sample_bulk :: "volume_enhanced list" where
  "sample_bulk = [\<lparr>ve_ID = ''00822'', ve_CapGB = Fin 8, ve_EffectiveUsedCapacityGB = Fin 2\<rparr>]"

definition sample_client :: pmax_client where
  "sample_client =
     \<lparr>Authenticate_call = (\<lambda>cfg. if cc_Username cfg = ''admin'' then Inr () else Inl (Err ''401'')),
      GetVolumeByID = (\<lambda>a v. if v = ''00822'' then Inr \<lparr>pv_CapacityGB = Fin 8, pv_AllocatedPercent = 25\<rparr>
        else Inl (Err ''404'')),
      GetVolumesCapacityBulk = (\<lambda>a. Inr (Some sample_bulk)),
      GetArrayPerfKeys = Inr [\<lparr>ai_SymmetrixID = ''0257'', ai_LastAvailableDate = 1700\<rparr>],
      GetVolumesMetrics = (\<lambda>a q fields t0 t1.
        Inr [\<lparr>vres_VolumeID = ''00822'', vres_StorageGroups = ''sg1'', vres_VolumeResult = [sample_metric]\<rparr>]),
      GetStorageGroupPerfKeys = (\<lambda>a. Inr [\<lparr>gi_StorageGroupID = ''sg1'', gi_LastAvailableDate = 1700\<rparr>]),
      GetStorageGroupMetrics = (\<lambda>a g fields t0 t1. Inr [sample_sg_metric]),
      GetStorageGroupMetricsBulk = (\<lambda>a. Inr (Some [\<lparr>si_ID = ''sg1'', si_Metrics = [sample_sg_metric]\<rparr>])),
      GetStorageGroupIDList = (\<lambda>a m l. Inr [''sg1'', ''sg2''])\<rparr>"

definition sample_array :: powermax_array where
  "sample_array = \<lparr>pa_Endpoint = ''https://u4p:8443'', pa_StorageArrayID = ''0257'',
     pa_Username = ''admin'', pa_Password = ''secret'', pa_Insecure = True, pa_IsPrimary = True,
     pa_IsActive = True, pa_Client = Some sample_client\<rparr>"

definition sample_volume :: volume_info where
  "sample_volume = \<lparr>vi_Namespace = ''ns'', vi_PersistentVolumeClaim = ''uid'',
     vi_PersistentVolumeStatus = ''Bound'', vi_VolumeClaimName = ''claim'', vi_PersistentVolume = ''pv'',
     vi_StorageClass = ''class'', vi_Driver = ''powermax'', vi_ProvisionedSize = ''8Gi'',
     vi_CreatedTime = ''2024'', vi_VolumeHandle = ''csi-pv-0257-00822'', vi_SRP = ''SRP_1'',
     vi_ServiceLevel = ''Gold'', vi_StorageGroup = ''sg1'', vi_SymID = ''0257'',
     vi_StorageSystemVolumeName = ''pv'', vi_Protocol = ''FC''\<rparr>"

definition sample_recorder :: metrics_recorder where
  "sample_recorder = \<lparr>RecordNumericMetrics = (\<lambda>p ls r. Inr ()), RecordVolPerfMetrics = (\<lambda>p r. Inr ()),
     RecordStorageGroupPerfMetrics = (\<lambda>p r. Inr ()), RecordTopologyMetrics = (\<lambda>v r. Inr ())\<rparr>"

definition sample_base :: "base_metrics" where
  "sample_base = \<lparr>bm_Collector = Some (), bm_VolumeFinder = (\<lambda>_. Inr [sample_volume]),
     bm_PowerMaxClients = Some [(''0257'', [sample_array])], bm_MetricsRecorder = Some sample_recorder,
     bm_MaxPowerMaxConnections = 10\<rparr>"

lemma sample_base_ok: "base_ok sample_base"
  by (simp add: base_ok_def sample_base_def clients_ok_def sample_array_def)

lemma sample_base_limit: "0 < bm_MaxPowerMaxConnections sample_base"
  by (simp add: sample_base_def)

lemma sample_client_found: "GetPowerMaxClient sample_base ''0257'' = Inr (Some sample_client)"
  by (simp add: GetPowerMaxClient_def sample_base_def sample_array_def)

lemma sample_handle:
  "handle_array_id (vi_VolumeHandle sample_volume) = Some ''0257''"
  "handle_volume_id (vi_VolumeHandle sample_volume) = ''00822''"
  by (simp_all add: sample_volume_def handle_array_id_def handle_volume_id_def handle_parts_def)

end
