(* ===== verification/Pipeline.thy ===== *)
theory Pipeline
  imports Prelude
begin

section \<open>The goroutine pool behind every \<open>gather\<close> function\<close>

text \<open>
  \<open>gatherCapacityMetrics\<close>, \<open>gatherVolumePerformanceMetrics\<close> and
  \<open>gatherStorageGroupPerformanceMetrics\<close> start one goroutine per array. A spawner ranges over the
  arrays: it adds to the wait group, takes a slot of a buffered channel used as a semaphore
  (capacity \<open>MaxPowerMaxConnections\<close>) and starts the worker. A worker sends its records on an
  unbuffered channel, then runs its deferred function: \<open>wg.Done()\<close>, then gives the slot back. After
  the loop the spawner sends an empty record if it ranged over nothing, waits for the group and
  closes both channels. The consumer only receives, so a send is one step that appends to the
  received records.

  A state is a record, a step is an \<open>inductive\<close> relation, and the scheduler's choice is the choice
  of the rule and of the worker. A worker is the list of records it still has to send. Two mistakes the
  runtime would punish with a panic are states of the model: a send on the closed channel and a
  negative wait group.
\<close>

datatype 'r spawner =
    Spawning "'r list list"            \<comment> \<open>at the head of the loop, with the arrays left\<close>
  | Acquiring "'r list" "'r list list" \<comment> \<open>after \<open>wg.Add(1)\<close>, at \<open>sem <- struct{}{}\<close>\<close>
  | Waiting                            \<comment> \<open>at \<open>wg.Wait()\<close>\<close>
  | Closing                            \<comment> \<open>after \<open>close(ch)\<close>, at \<open>close(sem)\<close>\<close>
  | Finished

record 'r pool =
  p_spawner :: "'r spawner"
  p_exported :: bool
  p_workers :: "'r list list"
  p_leaving :: nat     \<comment> \<open>workers between \<open>wg.Done()\<close> and \<open><-sem\<close>\<close>
  p_sem :: nat
  p_wg :: nat
  p_closed :: bool
  p_out :: "'r list"
  p_panic :: bool

definition pool_start :: "'r list list \<Rightarrow> 'r pool" where
  "pool_start tasks = \<lparr>p_spawner = Spawning tasks, p_exported = False, p_workers = [], p_leaving = 0,
     p_sem = 0, p_wg = 0, p_closed = False, p_out = [], p_panic = False\<rparr>"

definition pool_send :: "'r \<Rightarrow> 'r pool \<Rightarrow> 'r pool" where
  "pool_send x s = (if p_closed s then s\<lparr>p_panic := True\<rparr> else s\<lparr>p_out := p_out s @ [x]\<rparr>)"

definition pool_done :: "'r pool \<Rightarrow> 'r pool" where
  "pool_done s = (if p_wg s = 0 then s\<lparr>p_panic := True\<rparr> else s\<lparr>p_wg := p_wg s - 1\<rparr>)"

inductive pool_step :: "'r \<Rightarrow> nat \<Rightarrow> 'r pool \<Rightarrow> 'r pool \<Rightarrow> bool" for empty_record capacity where
  add: "p_spawner s = Spawning (t # ts) \<Longrightarrow>
    pool_step empty_record capacity s
      (s\<lparr>p_exported := True, p_wg := Suc (p_wg s), p_spawner := Acquiring t ts\<rparr>)"
| acquire: "p_spawner s = Acquiring t ts \<Longrightarrow> p_sem s < capacity \<Longrightarrow>
    pool_step empty_record capacity s
      (s\<lparr>p_sem := Suc (p_sem s), p_spawner := Spawning ts, p_workers := p_workers s @ [t]\<rparr>)"
| loop_end: "p_spawner s = Spawning [] \<Longrightarrow> p_exported s \<Longrightarrow>
    pool_step empty_record capacity s (s\<lparr>p_spawner := Waiting\<rparr>)"
| send_empty: "p_spawner s = Spawning [] \<Longrightarrow> \<not> p_exported s \<Longrightarrow>
    pool_step empty_record capacity s ((pool_send empty_record s)\<lparr>p_spawner := Waiting\<rparr>)"
| close_ch: "p_spawner s = Waiting \<Longrightarrow> p_wg s = 0 \<Longrightarrow>
    pool_step empty_record capacity s (s\<lparr>p_closed := True, p_spawner := Closing\<rparr>)"
| close_sem: "p_spawner s = Closing \<Longrightarrow>
    pool_step empty_record capacity s (s\<lparr>p_spawner := Finished\<rparr>)"
| worker_send: "p_workers s = us @ (x # t) # vs \<Longrightarrow>
    pool_step empty_record capacity s ((pool_send x s)\<lparr>p_workers := us @ t # vs\<rparr>)"
| worker_done: "p_workers s = us @ [] # vs \<Longrightarrow>
    pool_step empty_record capacity s
      ((pool_done s)\<lparr>p_workers := us @ vs, p_leaving := Suc (p_leaving s)\<rparr>)"
| release: "p_leaving s = Suc n \<Longrightarrow> p_sem s = Suc k \<Longrightarrow>
    pool_step empty_record capacity s (s\<lparr>p_leaving := n, p_sem := k\<rparr>)"
| release_closed: "p_leaving s = Suc n \<Longrightarrow> p_sem s = 0 \<Longrightarrow> p_spawner s = Finished \<Longrightarrow>
    pool_step empty_record capacity s (s\<lparr>p_leaving := n\<rparr>)"

subsection \<open>The invariant\<close>

fun unsent :: "'r spawner \<Rightarrow> 'r list list" where
  "unsent (Spawning ts) = ts"
| "unsent (Acquiring t ts) = t # ts"
| "unsent _ = []"

fun arriving :: "'r spawner \<Rightarrow> nat" where
  "arriving (Acquiring _ _) = 1"
| "arriving _ = 0"

fun past_wait :: "'r spawner \<Rightarrow> bool" where
  "past_wait Closing = True"
| "past_wait Finished = True"
| "past_wait _ = False"

text \<open>What the consumer must receive, in some order.\<close>

definition expected :: "'r \<Rightarrow> 'r list list \<Rightarrow> 'r multiset" where
  "expected e tasks = (if tasks = [] then {#e#} else mset (concat tasks))"

definition empty_due :: "'r \<Rightarrow> 'r list list \<Rightarrow> 'r pool \<Rightarrow> 'r multiset" where
  "empty_due e tasks s = (if tasks = [] \<and> p_spawner s = Spawning [] then {#e#} else {#})"

definition pool_inv :: "'r list list \<Rightarrow> 'r \<Rightarrow> nat \<Rightarrow> 'r pool \<Rightarrow> bool" where
  "pool_inv tasks e capacity s \<longleftrightarrow>
     p_wg s = length (p_workers s) + arriving (p_spawner s) \<and>
     p_sem s = length (p_workers s) + p_leaving s \<and>
     p_sem s \<le> capacity \<and>
     p_closed s = past_wait (p_spawner s) \<and>
     (past_wait (p_spawner s) \<longrightarrow> p_workers s = []) \<and>
     (tasks = [] \<longleftrightarrow> \<not> p_exported s \<and> unsent (p_spawner s) = []) \<and>
     (arriving (p_spawner s) = 1 \<longrightarrow> p_exported s) \<and>
     \<not> p_panic s \<and>
     mset (p_out s) + mset (concat (p_workers s)) + mset (concat (unsent (p_spawner s))) +
       empty_due e tasks s = expected e tasks"

lemma pool_inv_start: "pool_inv tasks e capacity (pool_start tasks)"
  by (simp add: pool_inv_def pool_start_def expected_def empty_due_def)

lemmas pool_frame = pool_inv_def pool_send_def pool_done_def empty_due_def

lemma pool_step_inv:
  assumes "pool_inv tasks e capacity s" and "pool_step e capacity s t"
  shows "pool_inv tasks e capacity t"
  using assms(2,1)
proof (cases rule: pool_step.cases)
  case (worker_send us x t vs)
  with assms(1) show ?thesis
    by (cases "p_spawner s") (auto simp: pool_frame)
next
  case (worker_done us vs)
  with assms(1) show ?thesis
    by (cases "p_spawner s") (auto simp: pool_frame)
qed (auto simp: pool_frame expected_def ac_simps)

fun spawner_size :: "'r spawner \<Rightarrow> nat" where
  "spawner_size (Spawning ts) = 4 + (\<Sum>t\<leftarrow>ts. length t + 4)"
| "spawner_size (Acquiring t ts) = 4 + (length t + 3) + (\<Sum>t\<leftarrow>ts. length t + 4)"
| "spawner_size Waiting = 2"
| "spawner_size Closing = 1"
| "spawner_size Finished = 0"

definition pool_size :: "'r pool \<Rightarrow> nat" where
  "pool_size s = spawner_size (p_spawner s) + (\<Sum>t\<leftarrow>p_workers s. length t + 2) + p_leaving s"

lemma pool_step_size: "pool_step e capacity s t \<Longrightarrow> pool_size t < pool_size s"
  by (induction rule: pool_step.induct) (auto simp: pool_size_def pool_send_def pool_done_def)

interpretation pool_system: terminating_system
  "\<lambda>s. s = pool_start tasks" "pool_step e capacity" "pool_inv tasks e capacity" pool_size
  for tasks e capacity
  by unfold_locales (auto simp: pool_inv_start intro: pool_step_inv pool_step_size)

subsection \<open>No deadlock\<close>

definition pool_final :: "'r pool \<Rightarrow> bool" where
  "pool_final s \<longleftrightarrow> p_spawner s = Finished \<and> p_workers s = [] \<and> p_leaving s = 0"

lemma worker_can_move:
  assumes "p_workers s \<noteq> []"
  shows "\<exists>t. pool_step e capacity s t"
proof -
  obtain w ws where w: "p_workers s = [] @ w # ws" using assms by (cases "p_workers s") auto
  show ?thesis
  proof (cases w)
    case Nil
    with w show ?thesis by (blast intro: pool_step.worker_done)
  next
    case (Cons x t)
    with w show ?thesis by (blast intro: pool_step.worker_send)
  qed
qed

lemma pool_progress:
  assumes inv: "pool_inv tasks e capacity s" and cap: "0 < capacity" and "\<not> pool_final s"
  shows "\<exists>t. pool_step e capacity s t"
proof (cases "p_workers s = []")
  case False
  then show ?thesis by (rule worker_can_move)
next
  case none: True
  show ?thesis
  proof (cases "p_leaving s")
    case (Suc n)
    moreover from this none inv have "p_sem s = Suc n" by (simp add: pool_inv_def)
    ultimately show ?thesis by (blast intro: pool_step.release)
  next
    case 0
    with none inv have "p_sem s = 0" "p_wg s = arriving (p_spawner s)" by (simp_all add: pool_inv_def)
    then show ?thesis
    proof (cases "p_spawner s")
      case (Spawning ts)
      then show ?thesis
        by (cases ts; cases "p_exported s") (blast intro: pool_step.intros)+
    next
      case (Acquiring t ts)
      with cap \<open>p_sem s = 0\<close> show ?thesis by (metis pool_step.acquire)
    next
      case Waiting
      with \<open>p_wg s = arriving (p_spawner s)\<close> show ?thesis by (metis arriving.simps(3) pool_step.close_ch)
    next
      case Closing
      then show ?thesis by (blast intro: pool_step.close_sem)
    next
      case Finished
      with assms(3) none 0 show ?thesis by (simp add: pool_final_def)
    qed
  qed
qed

subsection \<open>What a run delivers\<close>

lemma pool_final_expected:
  assumes "pool_inv tasks e capacity s" and "pool_final s"
  shows "mset (p_out s) = expected e tasks" and "p_closed s" and "\<not> p_panic s"
  using assms by (auto simp: pool_inv_def pool_final_def empty_due_def)

text \<open>A run delivers \<open>out\<close> when it ends with both channels closed and the consumer has received \<open>out\<close>.\<close>

definition delivers :: "'r list list \<Rightarrow> 'r \<Rightarrow> nat \<Rightarrow> 'r list \<Rightarrow> bool" where
  "delivers tasks e capacity out \<longleftrightarrow>
     (\<exists>s. (pool_step e capacity)\<^sup>*\<^sup>* (pool_start tasks) s \<and> pool_final s \<and> p_out s = out)"

lemma delivers_mset: "delivers tasks e capacity out \<Longrightarrow> mset out = expected e tasks"
  unfolding delivers_def
  by (blast dest: pool_final_expected(1) [OF pool_system.reachable_inv [OF refl]])

lemma delivers_exists:
  assumes "0 < capacity"
  shows "\<exists>out. delivers tasks e capacity out"
proof -
  obtain t where t: "(pool_step e capacity)\<^sup>*\<^sup>* (pool_start tasks) t" "\<forall>u. \<not> pool_step e capacity t u"
    using pool_system.reaches_end [OF pool_inv_start [of tasks e capacity]] by blast
  have inv: "pool_inv tasks e capacity t" using t(1) by (rule pool_system.reachable_inv [OF refl])
  have "pool_final t" using pool_progress [OF inv assms] t(2) by blast
  with t(1) show ?thesis by (auto simp: delivers_def)
qed

text \<open>
  With a positive connection limit a gather never gets stuck: every run, whatever the scheduler
  does, takes at most a fixed number of steps, and a run that can go no further has finished, with the
  channel closed and no panic.
\<close>

theorem gather_terminates:
  assumes "0 < capacity" and "(pool_step e capacity ^^ n) (pool_start tasks) s"
  shows "n \<le> pool_size (pool_start tasks) \<and> \<not> p_panic s \<and>
    ((\<nexists>t. pool_step e capacity s t) = pool_final s)"
proof -
  have reach: "(pool_step e capacity)\<^sup>*\<^sup>* (pool_start tasks) s"
    using assms(2) by (rule relpowp_imp_rtranclp)
  have inv: "pool_inv tasks e capacity s" using pool_system.reachable_inv [OF refl reach] .
  have "n + pool_size s \<le> pool_size (pool_start tasks)"
    using assms(2) pool_inv_start by (rule pool_system.relpowp_bound)
  moreover have "pool_final s \<Longrightarrow> \<not> pool_step e capacity s t" for t
    by (auto simp: pool_final_def elim: pool_step.cases)
  moreover have "\<not> p_panic s" using inv by (simp add: pool_inv_def)
  moreover have "\<nexists>t. pool_step e capacity s t \<Longrightarrow> pool_final s"
    using pool_progress [OF inv assms(1)] by blast
  ultimately show ?thesis by auto
qed

theorem gather_terminates_witness:
  "(0::nat) \<le> pool_size (pool_start [[1], [2 :: nat]]) \<and>
   (\<exists>t. pool_step 0 1 (pool_start [[1], [2 :: nat]]) t)"
  using gather_terminates [of 1 0 "0 :: nat" "[[1], [2]]" "pool_start [[1], [2]]"]
  by (simp add: pool_start_def pool_final_def)

text \<open>
  Safety in every reachable state: no more workers hold a connection than the limit allows,
  nothing is sent on the closed channel, and the wait group never goes negative.
\<close>

theorem gather_bounded:
  assumes "(pool_step e capacity)\<^sup>*\<^sup>* (pool_start tasks) s"
  shows "length (p_workers s) + p_leaving s \<le> capacity \<and> \<not> p_panic s \<and>
    (p_closed s \<longrightarrow> p_workers s = [])"
  using pool_system.reachable_inv [OF refl assms] by (auto simp: pool_inv_def)

theorem gather_bounded_witness:
  "\<exists>s. (pool_step (0 :: nat) 1)\<^sup>*\<^sup>* (pool_start [[1], [2]]) s \<and> pool_final s \<and> \<not> p_panic s"
proof -
  obtain out where "delivers [[1], [2]] (0 :: nat) 1 out" 
    using delivers_exists [where tasks = "[[1], [2]]" and e = "0 :: nat", OF zero_less_one] by (rule exE)
  then obtain s where s: "(pool_step (0 :: nat) 1)\<^sup>*\<^sup>* (pool_start [[1], [2]]) s" "pool_final s"
    by (auto simp: delivers_def)
  from gather_bounded [OF s(1)] s show ?thesis by (intro exI [of _ s]) simp
qed

text \<open>
  Delivery: whatever the interleaving, a finished run has delivered exactly the records of all
  workers, each as often as it was sent, and the single empty record when there was no array.
\<close>

theorem gather_complete:
  assumes "(pool_step e capacity)\<^sup>*\<^sup>* (pool_start tasks) s" and "pool_final s"
  shows "mset (p_out s) = (if tasks = [] then {#e#} else mset (concat tasks))"
  using pool_final_expected(1) [OF pool_system.reachable_inv [OF refl assms(1)] assms(2)]
  by (simp add: expected_def)

theorem gather_complete_witness:
  "\<exists>s. (pool_step (0 :: nat) 1)\<^sup>*\<^sup>* (pool_start [[1], [2]]) s \<and> pool_final s \<and> mset (p_out s) = {#1, 2#}"
proof -
  obtain out where "delivers [[1], [2]] (0 :: nat) 1 out" 
    using delivers_exists [where tasks = "[[1], [2]]" and e = "0 :: nat", OF zero_less_one] by (rule exE)
  then obtain s where s: "(pool_step (0 :: nat) 1)\<^sup>*\<^sup>* (pool_start [[1], [2]]) s" "pool_final s"
    by (auto simp: delivers_def)
  then show ?thesis using gather_complete [OF s] by auto
qed

text \<open>With a limit of zero the spawner never passes its first array.\<close>

definition stuck_spawner :: "'r list list \<Rightarrow> 'r pool \<Rightarrow> bool" where
  "stuck_spawner tasks s \<longleftrightarrow> \<not> p_closed s \<and>
     (p_spawner s = Spawning tasks \<or> p_spawner s = Acquiring (hd tasks) (tl tasks))"

interpretation zero_pool: invariant_system
  "\<lambda>s. s = pool_start (t # ts)" "pool_step e 0"
  "\<lambda>s. pool_inv (t # ts) e 0 s \<and> stuck_spawner (t # ts) s" for t ts e
proof unfold_locales
  fix s assume "s = pool_start (t # ts)"
  then show "pool_inv (t # ts) e 0 s \<and> stuck_spawner (t # ts) s"
    by (simp add: pool_inv_start) (simp add: stuck_spawner_def pool_start_def)
next
  fix s u assume s: "pool_inv (t # ts) e 0 s \<and> stuck_spawner (t # ts) s" and st: "pool_step e 0 s u"
  then have "p_workers s = []" "p_leaving s = 0" by (auto simp: pool_inv_def)
  with s st have "stuck_spawner (t # ts) u"
    by (auto elim!: pool_step.cases simp: stuck_spawner_def)
  moreover have "pool_inv (t # ts) e 0 u" using s st by (blast intro: pool_step_inv)
  ultimately show "pool_inv (t # ts) e 0 u \<and> stuck_spawner (t # ts) u" by simp
qed

text \<open>
  Why the limit must not be zero: with no slot the spawner blocks at the first array forever, so
  no reachable state has closed the channel and the export would hang.
\<close>

theorem zero_limit_hangs:
  assumes "(pool_step e 0)\<^sup>*\<^sup>* (pool_start (t # ts)) s"
  shows "\<not> p_closed s \<and> \<not> pool_final s"
  using zero_pool.reachable_inv [OF refl assms] by (auto simp: stuck_spawner_def pool_final_def)


theorem zero_limit_hangs_witness:
  "\<exists>s. (pool_step (0 :: nat) 0)\<^sup>*\<^sup>* (pool_start [[1]]) s \<and> p_spawner s = Acquiring [1] [] \<and> \<not> pool_final s"
proof -
  let ?s = "(pool_start [[1 :: nat]])\<lparr>p_exported := True, p_wg := Suc 0, p_spawner := Acquiring [1] []\<rparr>"
  have "pool_step (0 :: nat) 0 (pool_start [[1]]) ?s"
    using pool_step.add [of "pool_start [[1 :: nat]]" "[1]" "[]" 0 0] by (simp add: pool_start_def)
  then have s: "(pool_step (0 :: nat) 0)\<^sup>*\<^sup>* (pool_start [[1]]) ?s" by (rule r_into_rtranclp)
  show ?thesis using zero_limit_hangs [OF s] s by (intro exI [of _ ?s]) simp
qed

end
