(* ===== verification/Fanout.thy ===== *)
theory Fanout
  imports Prelude
begin

section \<open>One goroutine per element: the unbounded stages\<close>

text \<open>
  The topology collector's \<open>gather\<close> and every \<open>push\<close> function range over an input channel and start
  one goroutine per element, without a limit: \<open>wg.Add(1)\<close>, then the goroutine computes, sends
  its result (or, when recording failed, nothing) on an unbuffered channel, and calls
  \<open>wg.Done()\<close>. When the input is exhausted the stage waits for the group and closes its
  channel. The elements that are still to come are in \<open>s_input\<close>, in the order they arrive.
\<close>

datatype 'a stage_worker = Started 'a | Sent

record ('a, 'b) stage =
  s_input :: "'a list"
  s_workers :: "'a stage_worker list"
  s_wg :: nat
  s_closed :: bool
  s_out :: "'b list"
  s_panic :: bool

definition stage_start :: "'a list \<Rightarrow> ('a, 'b) stage" where
  "stage_start xs = \<lparr>s_input = xs, s_workers = [], s_wg = 0, s_closed = False, s_out = [], s_panic = False\<rparr>"

definition stage_send :: "'b \<Rightarrow> ('a, 'b) stage \<Rightarrow> ('a, 'b) stage" where
  "stage_send y s = (if s_closed s then s\<lparr>s_panic := True\<rparr> else s\<lparr>s_out := s_out s @ [y]\<rparr>)"

definition stage_done :: "('a, 'b) stage \<Rightarrow> ('a, 'b) stage" where
  "stage_done s = (if s_wg s = 0 then s\<lparr>s_panic := True\<rparr> else s\<lparr>s_wg := s_wg s - 1\<rparr>)"

inductive stage_step :: "('a \<Rightarrow> 'b option) \<Rightarrow> ('a, 'b) stage \<Rightarrow> ('a, 'b) stage \<Rightarrow> bool" for f where
  receive: "s_input s = x # xs \<Longrightarrow> \<not> s_closed s \<Longrightarrow>
    stage_step f s (s\<lparr>s_input := xs, s_wg := Suc (s_wg s), s_workers := s_workers s @ [Started x]\<rparr>)"
| send: "s_workers s = us @ Started x # vs \<Longrightarrow> f x = Some y \<Longrightarrow>
    stage_step f s ((stage_send y s)\<lparr>s_workers := us @ Sent # vs\<rparr>)"
| skip: "s_workers s = us @ Started x # vs \<Longrightarrow> f x = None \<Longrightarrow>
    stage_step f s (s\<lparr>s_workers := us @ Sent # vs\<rparr>)"
| finish: "s_workers s = us @ Sent # vs \<Longrightarrow>
    stage_step f s ((stage_done s)\<lparr>s_workers := us @ vs\<rparr>)"
| close: "s_input s = [] \<Longrightarrow> s_wg s = 0 \<Longrightarrow> \<not> s_closed s \<Longrightarrow>
    stage_step f s (s\<lparr>s_closed := True\<rparr>)"

subsection \<open>The invariant and the measure\<close>

fun worker_owes :: "('a \<Rightarrow> 'b option) \<Rightarrow> 'a stage_worker \<Rightarrow> 'b multiset" where
  "worker_owes f (Started x) = (case f x of Some y \<Rightarrow> {#y#} | None \<Rightarrow> {#})"
| "worker_owes f Sent = {#}"

definition owed :: "('a \<Rightarrow> 'b option) \<Rightarrow> 'a stage_worker list \<Rightarrow> 'b multiset" where
  "owed f ws = \<Sum>\<^sub># (image_mset (worker_owes f) (mset ws))"

lemma owed_simps [simp]:
  "owed f [] = {#}"
  "owed f (us @ vs) = owed f us + owed f vs"
  "owed f (w # ws) = worker_owes f w + owed f ws"
  by (simp_all add: owed_def)

definition stage_inv :: "('a \<Rightarrow> 'b option) \<Rightarrow> 'a list \<Rightarrow> ('a, 'b) stage \<Rightarrow> bool" where
  "stage_inv f xs s \<longleftrightarrow>
     s_wg s = length (s_workers s) \<and>
     (s_closed s \<longrightarrow> s_input s = [] \<and> s_workers s = []) \<and>
     \<not> s_panic s \<and>
     mset (s_out s) + owed f (s_workers s) + mset (List.map_filter f (s_input s)) = mset (List.map_filter f xs)"

lemma stage_inv_start: "stage_inv f xs (stage_start xs)"
  by (simp add: stage_inv_def stage_start_def)

lemma stage_step_inv:
  assumes "stage_inv f xs s" and "stage_step f s t"
  shows "stage_inv f xs t"
  using assms(2,1)
proof (cases rule: stage_step.cases)
  case (receive x ys)
  with assms(1) show ?thesis
    by (cases "f x") (auto simp: stage_inv_def ac_simps)
qed (auto simp: stage_inv_def stage_send_def stage_done_def ac_simps)

fun worker_size :: "'a stage_worker \<Rightarrow> nat" where
  "worker_size (Started _) = 2"
| "worker_size Sent = 1"

definition stage_size :: "('a, 'b) stage \<Rightarrow> nat" where
  "stage_size s = 3 * length (s_input s) + sum_list (map worker_size (s_workers s)) +
     (if s_closed s then 0 else 1)"

lemma stage_step_size: "stage_step f s t \<Longrightarrow> stage_size t < stage_size s"
  by (induction rule: stage_step.induct) (auto simp: stage_size_def stage_send_def stage_done_def)

interpretation stage_system: terminating_system
  "\<lambda>s. s = stage_start xs" "stage_step f" "stage_inv f xs" stage_size
  for xs f
  by unfold_locales (auto simp: stage_inv_start intro: stage_step_inv stage_step_size)

lemma stage_progress:
  assumes inv: "stage_inv f xs s" and open_ch: "\<not> s_closed s"
  shows "\<exists>t. stage_step f s t"
proof (cases "s_workers s")
  case Nil
  show ?thesis
  proof (cases "s_input s")
    case Nil
    with \<open>s_workers s = []\<close> inv have "s_wg s = 0" by (simp add: stage_inv_def)
    with Nil open_ch show ?thesis by (blast intro: stage_step.close)
  next
    case (Cons x xs)
    with open_ch show ?thesis by (blast intro: stage_step.receive)
  qed
next
  case (Cons w ws)
  then have w: "s_workers s = [] @ w # ws" by simp
  show ?thesis
  proof (cases w)
    case (Started x)
    with w show ?thesis by (cases "f x") (blast intro: stage_step.send stage_step.skip)+
  next
    case Sent
    with w show ?thesis by (blast intro: stage_step.finish)
  qed
qed

text \<open>A run delivers \<open>out\<close> when it has closed its channel and the consumer has received \<open>out\<close>.\<close>

definition stage_delivers :: "('a \<Rightarrow> 'b option) \<Rightarrow> 'a list \<Rightarrow> 'b list \<Rightarrow> bool" where
  "stage_delivers f xs out \<longleftrightarrow>
     (\<exists>s. (stage_step f)\<^sup>*\<^sup>* (stage_start xs) s \<and> s_closed s \<and> s_out s = out)"

lemma stage_delivers_mset:
  assumes "stage_delivers f xs out"
  shows "mset out = mset (List.map_filter f xs)"
proof -
  obtain s where s: "(stage_step f)\<^sup>*\<^sup>* (stage_start xs) s" "s_closed s" "s_out s = out"
    using assms by (auto simp: stage_delivers_def)
  have "stage_inv f xs s" using stage_system.reachable_inv [OF refl s(1)] .
  with s(2,3) show ?thesis by (auto simp: stage_inv_def)
qed

lemma stage_delivers_exists: "\<exists>out. stage_delivers f xs out"
proof -
  obtain t where t: "(stage_step f)\<^sup>*\<^sup>* (stage_start xs) t" "\<forall>u. \<not> stage_step f t u"
    using stage_system.reaches_end [OF stage_inv_start [of f xs]] by blast
  have "stage_inv f xs t" using stage_system.reachable_inv [OF refl t(1)] .
  with t(2) stage_progress have "s_closed t" by blast
  with t(1) show ?thesis by (auto simp: stage_delivers_def)
qed

text \<open>
  An unbounded stage never hangs and loses nothing: every run is finite, a run that can go no
  further has closed its channel without a panic, and then it has delivered the result of
  every element that has one, each exactly once.
\<close>

theorem stage_complete:
  fixes f :: "'a \<Rightarrow> 'b option"
  assumes "(stage_step f ^^ n) (stage_start xs) s"
  shows "n \<le> stage_size (stage_start xs :: ('a, 'b) stage) \<and> \<not> s_panic s \<and>
    ((\<nexists>t. stage_step f s t) = s_closed s) \<and>
    (s_closed s \<longrightarrow> mset (s_out s) = mset (List.map_filter f xs))"
proof -
  have reach: "(stage_step f)\<^sup>*\<^sup>* (stage_start xs) s" using assms by (rule relpowp_imp_rtranclp)
  have inv: "stage_inv f xs s" using stage_system.reachable_inv [OF refl reach] .
  have "n + stage_size s \<le> stage_size (stage_start xs :: ('a, 'b) stage)"
    using assms stage_inv_start [of f xs] by (rule stage_system.relpowp_bound)
  moreover have "\<not> stage_step f s t" if "s_closed s" for t
    using that inv by (auto simp: stage_inv_def elim: stage_step.cases)
  moreover have "s_closed s" if "\<nexists>t. stage_step f s t" using stage_progress [OF inv] that by blast
  moreover have "s_closed s \<Longrightarrow> mset (s_out s) = mset (List.map_filter f xs)"
    using inv by (auto simp: stage_inv_def)
  moreover have "\<not> s_panic s" using inv by (simp add: stage_inv_def)
  ultimately show ?thesis by auto
qed

theorem stage_complete_witness:
  "\<exists>n s. (stage_step Some ^^ n) (stage_start [1, 2 :: nat]) s \<and> s_closed s \<and> mset (s_out s) = {#1, 2 :: nat#}"
proof -
  obtain out where "stage_delivers Some [1, 2 :: nat] out" using stage_delivers_exists by blast
  then obtain s where s: "(stage_step Some)\<^sup>*\<^sup>* (stage_start [1, 2 :: nat]) s" "s_closed s"
    by (auto simp: stage_delivers_def)
  then obtain n where n: "(stage_step Some ^^ n) (stage_start [1, 2 :: nat]) s"
    by (auto dest: rtranclp_imp_relpowp)
  from stage_complete [OF n] s(2) have "mset (s_out s) = {#1, 2#}" by simp
  with n s(2) show ?thesis by blast
qed

end
