(* ===== verification/Chain.thy ===== *)
theory Chain
  imports Pipeline Fanout
begin

section \<open>Gather and push at the same time\<close>

text \<open>
  \<open>Collect\<close> does not wait for a gather function before it starts the push function: both run at once and the
  unbuffered channel between them makes each send of the first a receive of the second. This theory
  gives that joint behaviour and shows that it comes to the same as running one after the other, which is how
  the collectors are modelled: whatever the push stage has delivered when it closes its channel, it could
  have delivered from the complete sequence of what was gathered.
\<close>

subsection \<open>The joint steps\<close>

text \<open>
  The producer is any step system with an output sequence and a flag for its closed channel. A step that
  outputs hands the element over to the loop of the stage, which adds to its wait group and starts a
  goroutine. The loop ends, and the stage may close, only when the producer's channel is closed.
\<close>

inductive chain_step ::
  "('s \<Rightarrow> 's \<Rightarrow> bool) \<Rightarrow> ('s \<Rightarrow> 'r list) \<Rightarrow> ('s \<Rightarrow> bool) \<Rightarrow> ('r \<Rightarrow> 'b option) \<Rightarrow>
   's \<times> ('r, 'b) stage \<Rightarrow> 's \<times> ('r, 'b) stage \<Rightarrow> bool"
  for step out closed f where
  silent: "step p q \<Longrightarrow> out q = out p \<Longrightarrow> chain_step step out closed f (p, s) (q, s)"
| hand_over: "step p q \<Longrightarrow> out q = out p @ [x] \<Longrightarrow> \<not> s_closed s \<Longrightarrow>
    chain_step step out closed f (p, s)
      (q, s\<lparr>s_wg := Suc (s_wg s), s_workers := s_workers s @ [Started x]\<rparr>)"
| consume: "stage_step f s t \<Longrightarrow> s_closed t = s_closed s \<Longrightarrow> chain_step step out closed f (p, s) (p, t)"
| close: "closed p \<Longrightarrow> stage_step f s t \<Longrightarrow> s_closed t \<noteq> s_closed s \<Longrightarrow>
    chain_step step out closed f (p, s) (p, t)"

inductive_cases chain_stepE: "chain_step step out closed f (p, s) c"

lemma stage_step_closed: "stage_step f s t \<Longrightarrow> s_closed s \<Longrightarrow> s_closed t"
  by (erule stage_step.cases) (auto simp: stage_send_def stage_done_def)

lemma stage_step_input: "stage_step f s t \<Longrightarrow> s_input s = [] \<Longrightarrow> s_input t = []"
  by (erule stage_step.cases) (auto simp: stage_send_def stage_done_def)

lemma same_input: "s_input s = [] \<Longrightarrow> s\<lparr>s_input := []\<rparr> = s"
  by (rule stage.equality) simp_all

lemma stage_out: "stage_step f s t \<Longrightarrow> s_out t = s_out s \<or> \<not> s_closed s \<and> (\<exists>x. s_out t = s_out s @ [x])"
  by (erule stage_step.cases) (auto simp: stage_send_def stage_done_def)

subsection \<open>Producers\<close>

text \<open>
  What the stage needs of its producer: it outputs one element at a time and none once its channel is
  closed, and it goes on until it is done, with its channel closed.
\<close>

locale producer = terminating_system init step inv size_of
  for init :: "'s \<Rightarrow> bool" and step :: "'s \<Rightarrow> 's \<Rightarrow> bool" and inv :: "'s \<Rightarrow> bool" and size_of :: "'s \<Rightarrow> nat" +
  fixes out :: "'s \<Rightarrow> 'r list"
    and closed :: "'s \<Rightarrow> bool"
    and finished :: "'s \<Rightarrow> bool"
  assumes init_out: "init s \<Longrightarrow> out s = []"
    and outputs: "inv s \<Longrightarrow> step s t \<Longrightarrow> out t = out s \<or> \<not> closed s \<and> (\<exists>x. out t = out s @ [x])"
    and keeps_closed: "inv s \<Longrightarrow> step s t \<Longrightarrow> closed s \<Longrightarrow> closed t"
    and progress: "inv s \<Longrightarrow> \<not> finished s \<Longrightarrow> \<exists>t. step s t"
    and finished_closed: "inv s \<Longrightarrow> finished s \<Longrightarrow> closed s"
    and finished_stops: "inv s \<Longrightarrow> finished s \<Longrightarrow> \<not> step s t"
begin

definition chain_inv :: "('r \<Rightarrow> 'b option) \<Rightarrow> 's \<times> ('r, 'b) stage \<Rightarrow> bool" where
  "chain_inv f c \<longleftrightarrow> inv (fst c) \<and> stage_inv f (out (fst c)) (snd c) \<and> s_input (snd c) = [] \<and>
     (s_closed (snd c) \<longrightarrow> closed (fst c))"

definition chain_size :: "'s \<times> ('r, 'b) stage \<Rightarrow> nat" where
  "chain_size c = 4 * size_of (fst c) + stage_size (snd c)"

lemma chain_step_inv:
  assumes "chain_inv f c" and "chain_step step out closed f c d"
  shows "chain_inv f d"
  using assms(2,1)
proof (cases rule: chain_step.cases)
  case (silent p q s)
  with assms(1) show ?thesis by (auto simp: chain_inv_def intro: step_inv keeps_closed)
next
  case (hand_over p q x s)
  with assms(1) show ?thesis
    by (cases "f x") (auto simp: chain_inv_def stage_inv_def map_filter_append intro: step_inv)
next
  case (consume s t p)
  with assms(1) show ?thesis by (auto simp: chain_inv_def intro: stage_step_inv stage_step_input)
next
  case (close p s t)
  with assms(1) show ?thesis by (auto simp: chain_inv_def intro: stage_step_inv stage_step_input)
qed

lemma chain_step_size:
  assumes "chain_inv f c" and "chain_step step out closed f c d"
  shows "chain_size d < chain_size c"
  using assms(2,1)
proof (cases rule: chain_step.cases)
  case (silent p q s)
  with assms(1) step_decreases [of p q] show ?thesis by (simp add: chain_inv_def chain_size_def)
next
  case (hand_over p q x s)
  with assms(1) step_decreases [of p q] show ?thesis by (simp add: chain_inv_def chain_size_def stage_size_def)
qed (auto simp: chain_size_def dest: stage_step_size)

end

sublocale producer \<subseteq> linked: terminating_system
  "\<lambda>c. init (fst c) \<and> snd c = stage_start []" "chain_step step out closed f" "chain_inv f" chain_size
  for f :: "'r \<Rightarrow> 'b option"
proof unfold_locales
  show "chain_inv f c" if "init (fst c) \<and> snd c = stage_start []" for c
    using that stage_inv_start [of f "[]"]
    by (auto simp: chain_inv_def init_out stage_start_def intro: init_inv)
qed (auto intro: chain_step_inv chain_step_size)

context producer
begin

lemma chain_progress:
  assumes "chain_inv f c" and "\<not> (finished (fst c) \<and> s_closed (snd c))"
  shows "\<exists>d. chain_step step out closed f c d"
proof -
  obtain p s where c: "c = (p, s)" by (cases c)
  have inv: "inv p" "stage_inv f (out p) s" "s_input s = []" "s_closed s \<Longrightarrow> closed p"
    using assms(1) by (simp_all add: chain_inv_def c)
  show ?thesis
  proof (cases "finished p")
    case False
    then obtain q where q: "step p q" using progress inv(1) by blast
    show ?thesis
    proof (cases "out q = out p")
      case True
      then show ?thesis using q unfolding c by (blast intro: chain_step.silent)
    next
      case False
      then obtain x where "out q = out p @ [x]" "\<not> s_closed s" using outputs [OF inv(1) q] inv(4) by blast
      then show ?thesis using q unfolding c by (blast intro: chain_step.hand_over)
    qed
  next
    case True
    then have "closed p" "\<not> s_closed s" using inv(1) assms(2) finished_closed by (simp_all add: c)
    moreover obtain t where "stage_step f s t" using stage_progress [OF inv(2)] \<open>\<not> s_closed s\<close> by blast
    ultimately show ?thesis unfolding c by (cases "s_closed t = s_closed s") (blast intro: chain_step.consume chain_step.close)+
  qed
qed

lemma chain_ends:
  fixes f :: "'r \<Rightarrow> 'b option"
  assumes "init p0" and "(chain_step step out closed f ^^ n) (p0, stage_start []) c"
  shows "n \<le> chain_size (p0, stage_start [] :: ('r, 'b) stage) \<and> \<not> s_panic (snd c) \<and>
    ((\<nexists>d. chain_step step out closed f c d) \<longleftrightarrow> finished (fst c) \<and> s_closed (snd c))"
proof -
  have start: "chain_inv f (p0, stage_start [] :: ('r, 'b) stage)" using assms(1) by (intro linked.init_inv) simp
  have inv: "chain_inv f c"
    using linked.run_inv [OF relpowp_imp_rtranclp [OF assms(2)] start] .
  have "n + chain_size c \<le> chain_size (p0, stage_start [] :: ('r, 'b) stage)"
    using assms(2) start by (rule linked.relpowp_bound)
  moreover have "\<not> chain_step step out closed f c d" if "finished (fst c)" "s_closed (snd c)" for d
  proof
    assume "chain_step step out closed f c d"
    then show False
      using that inv by (cases rule: chain_step.cases)
        (auto simp: finished_stops chain_inv_def stage_inv_def elim: stage_step.cases)
  qed
  moreover have "\<not> s_panic (snd c)" using inv by (simp add: chain_inv_def stage_inv_def)
  ultimately show ?thesis using chain_progress [OF inv] by auto
qed

text \<open>The stage's part of a joint run, on the complete input: what is still to come is left in its input.\<close>

lemma stage_step_later:
  assumes "stage_step f s t" and "s_input s = []" and "s_closed t = s_closed s"
  shows "stage_step f (s\<lparr>s_input := ys\<rparr>) (t\<lparr>s_input := ys\<rparr>)"
  using assms(1)
proof (cases rule: stage_step.cases)
  case (send us x vs y)
  have "stage_step f (s\<lparr>s_input := ys\<rparr>) ((stage_send y (s\<lparr>s_input := ys\<rparr>))\<lparr>s_workers := us @ Sent # vs\<rparr>)"
    using send by (intro stage_step.send) simp_all
  moreover have "(stage_send y (s\<lparr>s_input := ys\<rparr>))\<lparr>s_workers := us @ Sent # vs\<rparr> = t\<lparr>s_input := ys\<rparr>"
    by (rule stage.equality) (simp_all add: send stage_send_def)
  ultimately show ?thesis by simp
next
  case (skip us x vs)
  have "stage_step f (s\<lparr>s_input := ys\<rparr>) ((s\<lparr>s_input := ys\<rparr>)\<lparr>s_workers := us @ Sent # vs\<rparr>)"
    using skip by (intro stage_step.skip) simp_all
  moreover have "(s\<lparr>s_input := ys\<rparr>)\<lparr>s_workers := us @ Sent # vs\<rparr> = t\<lparr>s_input := ys\<rparr>"
    by (rule stage.equality) (simp_all add: skip)
  ultimately show ?thesis by simp
next
  case (finish us vs)
  have "stage_step f (s\<lparr>s_input := ys\<rparr>) ((stage_done (s\<lparr>s_input := ys\<rparr>))\<lparr>s_workers := us @ vs\<rparr>)"
    using finish by (intro stage_step.finish) simp_all
  moreover have "(stage_done (s\<lparr>s_input := ys\<rparr>))\<lparr>s_workers := us @ vs\<rparr> = t\<lparr>s_input := ys\<rparr>"
    by (rule stage.equality) (simp_all add: finish stage_done_def)
  ultimately show ?thesis by simp
qed (use assms in auto)

lemma chain_as_stage:
  assumes "(chain_step step out closed f)\<^sup>*\<^sup>* (p0, stage_start []) c" and "init p0"
    and "s_closed (snd c) \<Longrightarrow> ys = []"
  shows "(stage_step f)\<^sup>*\<^sup>* (stage_start (out (fst c) @ ys)) ((snd c)\<lparr>s_input := ys\<rparr>)"
  using assms(1,3)
proof (induction arbitrary: ys rule: rtranclp_induct)
  case base
  then show ?case using init_out [OF assms(2)] by (simp add: stage_start_def)
next
  case (step c d)
  have "chain_inv f c" using linked.reachable_inv [of "(p0, stage_start [])" f c] step.hyps(1) assms(2) by simp
  then have empty: "s_input (snd c) = []" by (simp add: chain_inv_def)
  from step.hyps(2) show ?case
  proof (cases rule: chain_step.cases)
    case (silent p q s)
    then show ?thesis using step.IH step.prems by simp
  next
    case (hand_over p q x s)
    have "(stage_step f)\<^sup>*\<^sup>* (stage_start (out p @ x # ys)) (s\<lparr>s_input := x # ys\<rparr>)"
      using step.IH [of "x # ys"] hand_over by simp
    moreover have "stage_step f (s\<lparr>s_input := x # ys\<rparr>)
        ((s\<lparr>s_input := x # ys\<rparr>)\<lparr>s_input := ys, s_wg := Suc (s_wg s), s_workers := s_workers s @ [Started x]\<rparr>)"
      using stage_step.receive [of "s\<lparr>s_input := x # ys\<rparr>" x ys f] hand_over(5) by simp
    moreover have "(s\<lparr>s_input := x # ys\<rparr>)\<lparr>s_input := ys, s_wg := Suc (s_wg s), s_workers := s_workers s @ [Started x]\<rparr> =
        (snd d)\<lparr>s_input := ys\<rparr>"
      by (rule stage.equality) (simp_all add: hand_over)
    ultimately have "(stage_step f)\<^sup>*\<^sup>* (stage_start (out p @ x # ys)) ((snd d)\<lparr>s_input := ys\<rparr>)"
      by (metis rtranclp.rtrancl_into_rtrancl)
    then show ?thesis by (simp add: hand_over)
  next
    case (consume s t p)
    have "(stage_step f)\<^sup>*\<^sup>* (stage_start (out p @ ys)) (s\<lparr>s_input := ys\<rparr>)"
      using step.IH [of ys] step.prems consume by simp
    moreover have "stage_step f (s\<lparr>s_input := ys\<rparr>) (t\<lparr>s_input := ys\<rparr>)"
      using consume empty by (intro stage_step_later) simp_all
    ultimately show ?thesis using consume by simp
  next
    case (close p s t)
    have t: "s_closed t" "\<not> s_closed s" using stage_step_closed [OF close(4)] close(5) by auto
    then have ys: "ys = []" using step.prems close(2) by simp
    have "(stage_step f)\<^sup>*\<^sup>* (stage_start (out p)) s"
      using step.IH [of "[]"] close empty by (simp add: same_input)
    moreover have "t\<lparr>s_input := []\<rparr> = t" using stage_step_input [OF close(4)] empty close(1) by simp
    ultimately show ?thesis using close ys by simp
  qed
qed

text \<open>Once the channel is closed the producer goes on to its end without another output.\<close>

lemma closed_runs_out:
  assumes "inv p" and "closed p"
  shows "\<exists>q. step\<^sup>*\<^sup>* p q \<and> finished q \<and> out q = out p"
proof -
  obtain q where q: "step\<^sup>*\<^sup>* p q" "\<forall>u. \<not> step q u" using reaches_end [OF assms(1)] by blast
  have "inv q \<and> closed q \<and> out q = out p"
    using q(1)
  proof (induction rule: rtranclp_induct)
    case base
    then show ?case using assms by simp
  next
    case (step y z)
    then have y: "inv y" "closed y" "out y = out p" by simp_all
    show ?case using outputs [OF y(1) step.hyps(2)] keeps_closed [OF y(1) step.hyps(2) y(2)]
        step_inv [OF y(1) step.hyps(2)] y(2,3) by simp
  qed
  then show ?thesis using q progress by blast
qed

lemma chain_run_exists:
  fixes f :: "'r \<Rightarrow> 'b option"
  assumes "init p0"
  shows "\<exists>p s. (chain_step step out closed f)\<^sup>*\<^sup>* (p0, stage_start [] :: ('r, 'b) stage) (p, s) \<and>
    finished p \<and> s_closed s"
proof -
  have start: "chain_inv f (p0, stage_start [] :: ('r, 'b) stage)" using assms by (intro linked.init_inv) simp
  obtain c where c: "(chain_step step out closed f)\<^sup>*\<^sup>* (p0, stage_start []) c" "\<forall>d. \<not> chain_step step out closed f c d"
    using linked.reaches_end [OF start] by blast
  have "finished (fst c) \<and> s_closed (snd c)"
    using chain_progress [OF linked.run_inv [OF c(1) start]] c(2) by blast
  with c(1) show ?thesis by (metis prod.collapse)
qed

lemma chain_producer: "(chain_step step out closed f)\<^sup>*\<^sup>* (p0, stage_start []) c \<Longrightarrow> step\<^sup>*\<^sup>* p0 (fst c)"
proof (induction rule: rtranclp_induct)
  case (step c d)
  then show ?case by (auto elim!: chain_step.cases intro: rtranclp.rtrancl_into_rtrancl)
qed simp

text \<open>
  The joint run as two runs: when the stage has closed its channel, the producer can be run to its end with the
  same output, and the stage can be run alone on that output with the same result.
\<close>

lemma chain_refines:
  assumes "init p0" and "(chain_step step out closed f)\<^sup>*\<^sup>* (p0, stage_start []) (p, s)" and "s_closed s"
  shows "(\<exists>q. step\<^sup>*\<^sup>* p0 q \<and> finished q \<and> out q = out p) \<and> stage_delivers f (out p) (s_out s)"
proof -
  have inv: "chain_inv f (p, s)" using linked.reachable_inv [OF _ assms(2)] assms(1) by simp
  then have p: "inv p" "closed p" "s_input s = []" using assms(3) by (simp_all add: chain_inv_def)
  obtain q where q: "step\<^sup>*\<^sup>* p q" "finished q" "out q = out p" using closed_runs_out [OF p(1,2)] by blast
  have "step\<^sup>*\<^sup>* p0 q" using chain_producer [OF assms(2)] q(1) by simp
  moreover have "(stage_step f)\<^sup>*\<^sup>* (stage_start (out p)) s"
    using chain_as_stage [OF assms(2,1), of "[]"] p(3) by (simp add: same_input)
  ultimately show ?thesis using q(2,3) assms(3) unfolding stage_delivers_def by blast
qed

end

subsection \<open>The producers of the program\<close>

text \<open>The gathering goroutines of the performance collector, and a stage of the topology collector.\<close>

lemma pool_out: "pool_inv tasks e capacity s \<Longrightarrow> pool_step e capacity s t \<Longrightarrow>
    p_out t = p_out s \<or> \<not> p_closed s \<and> (\<exists>x. p_out t = p_out s @ [x])"
  by (erule pool_step.cases) (auto simp: pool_send_def pool_done_def)

lemma pool_keeps_closed: "pool_step e capacity s t \<Longrightarrow> p_closed s \<Longrightarrow> p_closed t"
  by (erule pool_step.cases) (auto simp: pool_send_def pool_done_def)

lemma pool_final_stops: "pool_final s \<Longrightarrow> \<not> pool_step e capacity s t"
  by (auto simp: pool_final_def elim: pool_step.cases)

interpretation pool_producer: producer
  "\<lambda>s. s = pool_start tasks" "pool_step e (Suc limit)" "pool_inv tasks e (Suc limit)" pool_size p_out p_closed pool_final
  for tasks e limit
  by unfold_locales
    (auto simp: pool_start_def pool_progress pool_final_expected pool_final_stops dest: pool_out intro: pool_keeps_closed)

lemma stage_closed_stops: "stage_inv f xs s \<Longrightarrow> s_closed s \<Longrightarrow> \<not> stage_step f s t"
  by (auto simp: stage_inv_def elim: stage_step.cases)

interpretation stage_producer: producer
  "\<lambda>s. s = stage_start xs" "stage_step f" "stage_inv f xs" stage_size s_out s_closed s_closed for xs f
proof unfold_locales
  fix s t :: "('a, 'b) stage"
  show "s = stage_start xs \<Longrightarrow> s_out s = []" by (simp add: stage_start_def)
  show "stage_inv f xs s \<Longrightarrow> stage_step f s t \<Longrightarrow> s_out t = s_out s \<or> \<not> s_closed s \<and> (\<exists>x. s_out t = s_out s @ [x])"
    by (rule stage_out)
  show "stage_inv f xs s \<Longrightarrow> stage_step f s t \<Longrightarrow> s_closed s \<Longrightarrow> s_closed t" by (rule stage_step_closed)
  show "stage_inv f xs s \<Longrightarrow> \<not> s_closed s \<Longrightarrow> \<exists>t. stage_step f s t" by (rule stage_progress)
  show "stage_inv f xs s \<Longrightarrow> s_closed s \<Longrightarrow> \<not> stage_step f s t" by (rule stage_closed_stops)
qed

subsection \<open>What the collectors rely on\<close>

text \<open>
  C12. Recording while gathering: when the push stage of a performance collection has closed its channel, what was
  gathered is what the gathering goroutines deliver on their own, and what was recorded is what the stage
  delivers from the whole of it; the interleaving of the two adds no behaviour.
\<close>

theorem push_while_gathering:
  assumes "(chain_step (pool_step e capacity) p_out p_closed f)\<^sup>*\<^sup>* (pool_start tasks, stage_start []) (p, s)"
    and "0 < capacity" and "s_closed s"
  shows "delivers tasks e capacity (p_out p) \<and> stage_delivers f (p_out p) (s_out s)"
proof -
  obtain limit where c: "capacity = Suc limit" using assms(2) gr0_implies_Suc by blast
  show ?thesis
    using pool_producer.chain_refines [OF refl assms(1) [unfolded c] assms(3)] unfolding c delivers_def by auto
qed

lemma sample_chain:
  "\<exists>p s. (chain_step (pool_step 0 1) p_out p_closed Some)\<^sup>*\<^sup>* (pool_start [[1], [2 :: nat]], stage_start []) (p, s) \<and>
     pool_final p \<and> s_closed s"
  using pool_producer.chain_run_exists [of _ "[[1], [2 :: nat]]" 0 0 Some] by simp

theorem push_while_gathering_witness:
  "\<exists>p s. (chain_step (pool_step 0 1) p_out p_closed Some)\<^sup>*\<^sup>* (pool_start [[1], [2 :: nat]], stage_start []) (p, s) \<and>
     stage_delivers Some (p_out p) (s_out s)"
proof -
  obtain p s where run: "(chain_step (pool_step 0 1) p_out p_closed Some)\<^sup>*\<^sup>* (pool_start [[1], [2 :: nat]], stage_start []) (p, s)"
    and "s_closed s" using sample_chain by blast
  then have "stage_delivers Some (p_out p) (s_out s)" using push_while_gathering [OF run] by simp
  with run show ?thesis by blast
qed

text \<open>
  C13. A gather function and its push function never block each other: with a positive connection limit every
  joint run is bounded, does not panic, and can go on until the goroutines of both have ended.
\<close>

theorem push_and_gather_end:
  fixes f :: "'r \<Rightarrow> 'b option"
  assumes "(chain_step (pool_step e capacity) p_out p_closed f ^^ n) (pool_start tasks, stage_start []) c"
    and "0 < capacity"
  shows "n \<le> 4 * pool_size (pool_start tasks) + stage_size (stage_start [] :: ('r, 'b) stage) \<and>
    \<not> p_panic (fst c) \<and> \<not> s_panic (snd c) \<and>
    ((\<nexists>d. chain_step (pool_step e capacity) p_out p_closed f c d) \<longleftrightarrow> pool_final (fst c) \<and> s_closed (snd c))"
proof -
  obtain limit where l: "capacity = Suc limit" using assms(2) gr0_implies_Suc by blast
  have "(chain_step (pool_step e capacity) p_out p_closed f)\<^sup>*\<^sup>* (pool_start tasks, stage_start []) c"
    using assms(1) by (rule relpowp_imp_rtranclp)
  then have "(pool_step e capacity)\<^sup>*\<^sup>* (pool_start tasks) (fst c)"
    unfolding l by (rule pool_producer.chain_producer)
  then have "pool_inv tasks e capacity (fst c)" by (rule pool_system.reachable_inv [OF refl])
  then have "\<not> p_panic (fst c)" by (simp add: pool_inv_def)
  then show ?thesis
    using pool_producer.chain_ends [OF refl assms(1) [unfolded l]] unfolding l pool_producer.chain_size_def by simp
qed

theorem push_and_gather_end_witness:
  "\<exists>d. chain_step (pool_step 0 1) p_out p_closed Some (pool_start [[1], [2 :: nat]], stage_start [] :: (nat, nat) stage) d"
proof -
  have "(chain_step (pool_step 0 1) p_out p_closed Some ^^ 0) (pool_start [[1], [2 :: nat]], stage_start [] :: (nat, nat) stage)
      (pool_start [[1], [2]], stage_start [])" by simp
  from push_and_gather_end [OF this] show ?thesis by (simp add: pool_final_def pool_start_def)
qed

text \<open>The two stages of a topology collection in the same way.\<close>

theorem record_while_gathering_topology:
  assumes "(chain_step (stage_step g) s_out s_closed f)\<^sup>*\<^sup>* (stage_start xs, stage_start []) (p, s)" and "s_closed s"
  shows "stage_delivers g xs (s_out p) \<and> stage_delivers f (s_out p) (s_out s)"
  using stage_producer.chain_refines [OF refl assms] unfolding stage_delivers_def by auto

theorem record_while_gathering_topology_witness:
  "\<exists>p s. (chain_step (stage_step Some) s_out s_closed Some)\<^sup>*\<^sup>* (stage_start [1, 2 :: nat], stage_start []) (p, s) \<and>
     stage_delivers Some (s_out p) (s_out s)"
proof -
  obtain p s where run: "(chain_step (stage_step Some) s_out s_closed Some)\<^sup>*\<^sup>* (stage_start [1, 2 :: nat], stage_start []) (p, s)"
    and "s_closed s" using stage_producer.chain_run_exists [OF refl] by blast
  then have "stage_delivers Some (s_out p) (s_out s)" using record_while_gathering_topology [OF run] by simp
  with run show ?thesis by blast
qed

end
