(* ===== verification/Capacity.thy ===== *)
theory Capacity
  imports Samples Pipeline
begin

section \<open>Capacity metrics (\<open>internal/service/metric/capacity_metrics.go\<close>)\<close>

text \<open>
  \<open>gatherCapacityMetrics\<close> groups the volumes by array and asks every array for the capacities, in
  bulk where it can and volume by volume where it cannot; \<open>pushCapacityMetrics\<close> sums what
  arrives by volume, storage group, storage resource pool, array and storage class and
  records one observation per sum. A Go map that is ranged over is an association list, and
  every theorem that follows a range holds for the order the list happens to have. The order
  in which the workers' records arrive is left to the pool of theory \<open>Pipeline\<close>.
\<close>

subsection \<open>Grouping the volumes by array\<close>

definition array2Volumes :: "volume_info list \<Rightarrow> (string \<times> volume_info list) list" where
  "array2Volumes pvs = foldl (\<lambda>m volume.
     case handle_array_id (vi_VolumeHandle volume) of
       None \<Rightarrow> m
     | Some arrayID \<Rightarrow>
         AList.update arrayID
           ((case map_of m arrayID of Some vs \<Rightarrow> vs | None \<Rightarrow> []) @ [volume]) m) [] pvs"

lemma foldl_snoc_list:
  "foldl (\<lambda>acc r. Some ((case acc of Some vs \<Rightarrow> vs | None \<Rightarrow> []) @ [r])) (Some us) rs = Some (us @ rs)"
  by (induction rs arbitrary: us) auto

lemma foldl_snoc_list_None:
  "foldl (\<lambda>acc r. Some ((case acc of Some vs \<Rightarrow> vs | None \<Rightarrow> []) @ [r])) None rs =
     (if rs = [] then None else Some rs)"
  using foldl_snoc_list [of "[hd rs]" "tl rs"] by (cases rs) auto

lemma array2Volumes_lookup:
  "map_of (array2Volumes pvs) a =
     (let vs = filter (\<lambda>v. handle_array_id (vi_VolumeHandle v) = Some a) pvs
      in if vs = [] then None else Some vs)"
  unfolding array2Volumes_def Let_def
  by (subst alist_map.lookup_fill_empty) (rule foldl_snoc_list_None)

lemma array2Volumes_distinct: "distinct (map fst (array2Volumes pvs))"
  unfolding array2Volumes_def by (rule distinct_fill) simp

lemma array2Volumes_mem:
  "(a, vs) \<in> set (array2Volumes pvs) \<longleftrightarrow>
     vs \<noteq> [] \<and> vs = filter (\<lambda>v. handle_array_id (vi_VolumeHandle v) = Some a) pvs"
  unfolding map_of_eq_Some_iff [OF array2Volumes_distinct, symmetric]
  by (auto simp: array2Volumes_lookup Let_def)

lemma array2Volumes_Nil_iff:
  "array2Volumes pvs = [] \<longleftrightarrow> list_all (\<lambda>v. handle_array_id (vi_VolumeHandle v) = None) pvs"
proof
  assume "array2Volumes pvs = []"
  then have "map_of (array2Volumes pvs) a = None" for a by simp
  then have "filter (\<lambda>v. handle_array_id (vi_VolumeHandle v) = Some a) pvs = []" for a
    unfolding array2Volumes_lookup Let_def by (metis option.distinct(1))
  then show "list_all (\<lambda>v. handle_array_id (vi_VolumeHandle v) = None) pvs"
    unfolding filter_empty_conv list_all_iff by (metis not_None_eq)
next
  assume none: "list_all (\<lambda>v. handle_array_id (vi_VolumeHandle v) = None) pvs"
  show "array2Volumes pvs = []"
  proof (rule ccontr)
    assume "array2Volumes pvs \<noteq> []"
    then obtain a vs where "(a, vs) \<in> set (array2Volumes pvs)"
      by (cases "array2Volumes pvs") auto
    then have "filter (\<lambda>v. handle_array_id (vi_VolumeHandle v) = Some a) pvs \<noteq> []"
      by (simp add: array2Volumes_mem) metis
    with none show False by (auto simp: filter_empty_conv list_all_iff)
  qed
qed

subsection \<open>Asking one array\<close>

definition capacity_record_of ::
  "string \<Rightarrow> string \<Rightarrow> volume_info \<Rightarrow> float64 \<Rightarrow> float64 \<Rightarrow> float64 \<Rightarrow> capacity_record" where
  "capacity_record_of arrayID volumeID volume tot used usedPercent =
     \<lparr>cr_ArrayID = arrayID, cr_VolumeID = volumeID, cr_SrpID = vi_SRP volume,
      cr_StorageGroupID = vi_StorageGroup volume, cr_StorageClass = vi_StorageClass volume,
      cr_Driver = vi_Driver volume, cr_PersistentVolumeName = vi_PersistentVolume volume,
      cr_PersistentVolumeStatus = vi_PersistentVolumeStatus volume,
      cr_PersistentVolumeClaimName = vi_VolumeClaimName volume,
      cr_Namespace = vi_Namespace volume,
      cr_Total = tot, cr_Used = used, cr_UsedPercent = usedPercent\<rparr>"

definition bulk_used_percent :: "volume_enhanced \<Rightarrow> float64" where
  "bulk_used_percent vol =
     (if f64_less f64_zero (ve_CapGB vol)
      then f64_mul (f64_div (ve_EffectiveUsedCapacityGB vol) (ve_CapGB vol)) (f64_of_int 100)
      else f64_zero)"

definition capByVolumeID :: "volume_enhanced list \<Rightarrow> (string \<rightharpoonup> volume_enhanced)" where
  "capByVolumeID vols = foldl (\<lambda>m vol. m(ve_ID vol \<mapsto> vol)) Map.empty vols"

fun bulk_loop ::
  "string \<Rightarrow> (string \<rightharpoonup> volume_enhanced) \<Rightarrow> capacity_record list \<Rightarrow> volume_info list \<Rightarrow>
   capacity_record list" where
  "bulk_loop arrayID caps metrics [] = metrics"
| "bulk_loop arrayID caps metrics (volume # rest) =
     (let volumeID = handle_volume_id (vi_VolumeHandle volume)
      in case caps volumeID of
           None \<Rightarrow> bulk_loop arrayID caps metrics rest
         | Some vol \<Rightarrow>
             bulk_loop arrayID caps
               (metrics @ [capacity_record_of arrayID volumeID volume (ve_CapGB vol)
                  (ve_EffectiveUsedCapacityGB vol) (bulk_used_percent vol)]) rest)"

fun collectArrayCapacityMetricsLegacy ::
  "pmax_client \<Rightarrow> string \<Rightarrow> capacity_record list \<Rightarrow> volume_info list \<Rightarrow> capacity_record list" where
  "collectArrayCapacityMetricsLegacy client arrayID metrics [] = metrics"
| "collectArrayCapacityMetricsLegacy client arrayID metrics (volume # rest) =
     (let volumeID = handle_volume_id (vi_VolumeHandle volume)
      in case GetVolumeByID client arrayID volumeID of
           Inl err \<Rightarrow> collectArrayCapacityMetricsLegacy client arrayID metrics rest
         | Inr vol \<Rightarrow>
             collectArrayCapacityMetricsLegacy client arrayID
               (metrics @ [capacity_record_of arrayID volumeID volume (pv_CapacityGB vol)
                  (f64_mul (f64_div (f64_of_int (pv_AllocatedPercent vol)) (f64_of_int 100))
                     (pv_CapacityGB vol))
                  (f64_of_int (pv_AllocatedPercent vol))]) rest)"

definition collectArrayCapacityMetrics ::
  "pmax_client \<Rightarrow> string \<Rightarrow> volume_info list \<Rightarrow> capacity_record list" where
  "collectArrayCapacityMetrics client arrayID volumes =
     (case GetVolumesCapacityBulk client arrayID of
        Inl err \<Rightarrow> collectArrayCapacityMetricsLegacy client arrayID [] volumes
      | Inr None \<Rightarrow> collectArrayCapacityMetricsLegacy client arrayID [] volumes
      | Inr (Some bulk) \<Rightarrow> bulk_loop arrayID (capByVolumeID bulk) [] volumes)"

text \<open>The two loops as maps over the volumes the array knows.\<close>

definition bulk_record ::
  "string \<Rightarrow> (string \<rightharpoonup> volume_enhanced) \<Rightarrow> volume_info \<Rightarrow> capacity_record option" where
  "bulk_record arrayID caps volume =
     map_option (\<lambda>vol. capacity_record_of arrayID (handle_volume_id (vi_VolumeHandle volume)) volume
         (ve_CapGB vol) (ve_EffectiveUsedCapacityGB vol) (bulk_used_percent vol))
       (caps (handle_volume_id (vi_VolumeHandle volume)))"

definition legacy_record ::
  "pmax_client \<Rightarrow> string \<Rightarrow> volume_info \<Rightarrow> capacity_record option" where
  "legacy_record client arrayID volume =
     (case GetVolumeByID client arrayID (handle_volume_id (vi_VolumeHandle volume)) of
        Inl err \<Rightarrow> None
      | Inr vol \<Rightarrow> Some (capacity_record_of arrayID (handle_volume_id (vi_VolumeHandle volume)) volume
          (pv_CapacityGB vol)
          (f64_mul (f64_div (f64_of_int (pv_AllocatedPercent vol)) (f64_of_int 100)) (pv_CapacityGB vol))
          (f64_of_int (pv_AllocatedPercent vol))))"

lemma bulk_loop_eq:
  "bulk_loop a caps acc vs = acc @ List.map_filter (bulk_record a caps) vs"
  by (induction vs arbitrary: acc)
    (simp_all add: bulk_record_def Let_def List.map_filter_simps split: option.splits)

lemma legacy_loop_eq:
  "collectArrayCapacityMetricsLegacy c a acc vs = acc @ List.map_filter (legacy_record c a) vs"
  by (induction vs arbitrary: acc)
    (simp_all add: legacy_record_def Let_def List.map_filter_simps split: sum.splits)

lemma capByVolumeID_last: "capByVolumeID vols i = find (\<lambda>v. ve_ID v = i) (rev vols)"
  unfolding capByVolumeID_def
  using fun_map.lookup_overwrite [of ve_ID "\<lambda>v. v" vols i] by (simp add: option.map_ident)

lemma array_capacity_eq:
  "collectArrayCapacityMetrics client arrayID volumes =
     (case GetVolumesCapacityBulk client arrayID of
        Inr (Some bulk) \<Rightarrow>
          List.map_filter (bulk_record arrayID (\<lambda>i. find (\<lambda>v. ve_ID v = i) (rev bulk))) volumes
      | _ \<Rightarrow> List.map_filter (legacy_record client arrayID) volumes)"
proof -
  have "capByVolumeID bulk = (\<lambda>i. find (\<lambda>v. ve_ID v = i) (rev bulk))" for bulk
    by (rule ext) (rule capByVolumeID_last)
  then show ?thesis
    by (simp add: collectArrayCapacityMetrics_def bulk_loop_eq legacy_loop_eq
        split: sum.splits option.splits)
qed

text \<open>The record of one volume, as its array answers for it.\<close>

definition volume_record :: "pmax_client \<Rightarrow> string \<Rightarrow> volume_info \<Rightarrow> capacity_record option" where
  "volume_record client arrayID =
     (case GetVolumesCapacityBulk client arrayID of
        Inr (Some bulk) \<Rightarrow> bulk_record arrayID (\<lambda>i. find (\<lambda>v. ve_ID v = i) (rev bulk))
      | _ \<Rightarrow> legacy_record client arrayID)"

lemma array_capacity_volumes:
  "collectArrayCapacityMetrics client arrayID volumes = List.map_filter (volume_record client arrayID) volumes"
  by (simp add: array_capacity_eq volume_record_def split: sum.splits option.splits)

text \<open>
  What one array contributes: with a usable bulk answer, one record per volume the answer
  knows, in the order of the volumes, carrying the last entry with that volume's ID; with an error
  or a nil answer, one record per volume that answers individually. Volumes of no use are
  skipped, and the others are not affected.
\<close>

theorem array_capacity_exact:
  "collectArrayCapacityMetrics client arrayID volumes =
     (case GetVolumesCapacityBulk client arrayID of
        Inr (Some bulk) \<Rightarrow>
          List.map_filter (bulk_record arrayID (\<lambda>i. find (\<lambda>v. ve_ID v = i) (rev bulk))) volumes
      | _ \<Rightarrow> List.map_filter (legacy_record client arrayID) volumes)"
  by (rule array_capacity_eq)

text \<open>
  A bulk entry is sane when its numbers are binary64 values and a positive capacity is at
  least as large as the non-negative used capacity.
\<close>

definition sane_capacity :: "volume_enhanced \<Rightarrow> bool" where
  "sane_capacity v \<longleftrightarrow> wf64 (ve_CapGB v) \<and> wf64 (ve_EffectiveUsedCapacityGB v) \<and>
     is_finite64 (ve_CapGB v) \<and> is_finite64 (ve_EffectiveUsedCapacityGB v) \<and>
     \<not> f64_neg (ve_EffectiveUsedCapacityGB v) \<and>
     (f64_less f64_zero (ve_CapGB v) \<longrightarrow> f64_val (ve_EffectiveUsedCapacityGB v) \<le> f64_val (ve_CapGB v))"

lemma bulk_percent_bounds:
  assumes "sane_capacity v"
  shows "is_percent (bulk_used_percent v)"
proof (cases "f64_less f64_zero (ve_CapGB v)")
  case True
  then obtain c where c: "ve_CapGB v = Fin c" "0 < c"
    using assms by (cases "ve_CapGB v") (auto simp: sane_capacity_def)
  have "0 \<le> f64_val (ve_EffectiveUsedCapacityGB v)"
    using assms by (cases "ve_EffectiveUsedCapacityGB v") (auto simp: sane_capacity_def)
  then show ?thesis
    using assms c by (auto intro!: f64_percent simp: bulk_used_percent_def sane_capacity_def)
next
  case False
  then show ?thesis by (simp add: bulk_used_percent_def is_percent_def)
qed

text \<open>
  C26. The percentage of a bulk record is a percentage: division by a zero capacity is avoided, and
  neither the rounding of the quotient nor that of the product by 100 leaves [0, 100].
\<close>

theorem bulk_percentages_bounded:
  assumes "GetVolumesCapacityBulk client arrayID = Inr (Some bulk)" and "list_all sane_capacity bulk"
  shows "list_all (\<lambda>r. is_percent (cr_UsedPercent r)) (collectArrayCapacityMetrics client arrayID volumes)"
proof -
  have sane: "sane_capacity v" if "find P (rev bulk) = Some v" for P v
    using find_SomeD [OF that] assms(2) by (simp add: list_all_iff)
  show ?thesis
    unfolding array_capacity_eq assms(1)
    by (auto simp: list_all_map_filter bulk_record_def capacity_record_of_def
        intro!: bulk_percent_bounds dest!: sane split: option.splits)
qed

lemma sample_bulk_sane: "list_all sane_capacity sample_bulk"
  using f64_of_int_exact [of 8] f64_of_int_exact [of 2]
  by (simp add: sample_bulk_def sane_capacity_def f64_of_int_def)

theorem bulk_percentages_bounded_witness:
  "list_all (\<lambda>r. is_percent (cr_UsedPercent r))
     (collectArrayCapacityMetrics sample_client ''0257'' [sample_volume])"
  by (rule bulk_percentages_bounded [OF _ sample_bulk_sane]) (simp add: sample_client_def)

definition record_labels :: "capacity_record \<Rightarrow> capacity_record" where
  "record_labels r = r\<lparr>cr_Total := f64_zero, cr_Used := f64_zero, cr_UsedPercent := f64_zero\<rparr>"

text \<open>
  The fallback reports the same volumes as the bulk path, with the same labels and in the
  same order, whenever the two endpoints of the array agree on which volumes exist.
\<close>

theorem fallback_same_volumes:
  assumes "GetVolumesCapacityBulk client arrayID = Inr (Some bulk)"
    and "\<And>i. (\<exists>v\<in>set bulk. ve_ID v = i) \<longleftrightarrow> (\<exists>v. GetVolumeByID client arrayID i = Inr v)"
    and "GetVolumesCapacityBulk client' arrayID = Inl err"
    and "GetVolumeByID client' = GetVolumeByID client"
  shows "map record_labels (collectArrayCapacityMetrics client arrayID volumes) =
    map record_labels (collectArrayCapacityMetrics client' arrayID volumes)"
proof -
  let ?b = "bulk_record arrayID (\<lambda>i. find (\<lambda>v. ve_ID v = i) (rev bulk))"
  have known: "(\<exists>w. find (\<lambda>v. ve_ID v = i) (rev bulk) = Some w) \<longleftrightarrow>
      (\<exists>v. GetVolumeByID client arrayID i = Inr v)" for i
    using assms(2) [of i] find_None_filter [of "\<lambda>v. ve_ID v = i" "rev bulk"]
    by (auto simp: filter_empty_conv)
  have "map_option record_labels (?b v) = map_option record_labels (legacy_record client' arrayID v)" for v
    using known [of "handle_volume_id (vi_VolumeHandle v)"] assms(4)
    by (auto simp: bulk_record_def legacy_record_def record_labels_def capacity_record_of_def
        split: sum.splits)
  then have "map record_labels (List.map_filter ?b volumes) =
      map record_labels (List.map_filter (legacy_record client' arrayID) volumes)"
    by (intro map_filter_cong_on)
  then show ?thesis using assms(1,3) by (simp add: array_capacity_eq)
qed

theorem fallback_same_volumes_witness:
  "map record_labels (collectArrayCapacityMetrics sample_client ''0257'' [sample_volume]) =
   map record_labels (collectArrayCapacityMetrics
     (sample_client\<lparr>GetVolumesCapacityBulk := \<lambda>a. Inl (Err ''500'')\<rparr>) ''0257'' [sample_volume])"
  by (rule fallback_same_volumes [where bulk = sample_bulk and err = "Err ''500''"])
    (auto simp: sample_client_def sample_bulk_def)

subsection \<open>The workers and the gathered stream\<close>

definition capacity_worker ::
  "base_metrics \<Rightarrow> string \<times> volume_info list \<Rightarrow> capacity_record list result" where
  "capacity_worker m av =
     (case GetPowerMaxClient m (fst av) of
        Inl err \<Rightarrow> Inr []
      | Inr None \<Rightarrow> Inl (Panic ''nil client'')
      | Inr (Some client) \<Rightarrow> Inr (collectArrayCapacityMetrics client (fst av) (snd av)))"

definition empty_capacity_record :: capacity_record where
  "empty_capacity_record =
     \<lparr>cr_ArrayID = [], cr_VolumeID = [], cr_SrpID = [], cr_StorageGroupID = [], cr_StorageClass = [],
      cr_Driver = [], cr_PersistentVolumeName = [], cr_PersistentVolumeStatus = [],
      cr_PersistentVolumeClaimName = [], cr_Namespace = [],
      cr_Total = f64_zero, cr_Used = f64_zero, cr_UsedPercent = f64_zero\<rparr>"

text \<open>
  \<open>gatherCapacityMetrics\<close>: \<open>ord\<close> is the order in which the spawner ranges over the arrays, and
  the result says which sequences the channel can carry.
\<close>

definition gathers_capacity ::
  "base_metrics \<Rightarrow> volume_info list \<Rightarrow> capacity_record list \<Rightarrow> bool" where
  "gathers_capacity m pvs out \<longleftrightarrow>
     (\<exists>ord tasks. iteration_of (array2Volumes pvs) ord \<and>
        map (capacity_worker m) ord = map Inr tasks \<and>
        delivers tasks empty_capacity_record (nat (bm_MaxPowerMaxConnections m)) out)"

lemma capacity_worker_ok: "base_ok m \<Longrightarrow> \<exists>rs. capacity_worker m av = Inr rs"
  using GetPowerMaxClient_never_nil [of m "fst av"]
  by (auto simp: capacity_worker_def split: sum.splits option.splits)

definition capacity_of_array :: "base_metrics \<Rightarrow> string \<times> volume_info list \<Rightarrow> capacity_record list" where
  "capacity_of_array m av =
     (case GetPowerMaxClient m (fst av) of
        Inr (Some client) \<Rightarrow> List.map_filter (volume_record client (fst av)) (snd av)
      | _ \<Rightarrow> [])"

lemma capacity_worker_eq: "capacity_worker m av = Inr rs \<Longrightarrow> rs = capacity_of_array m av"
  by (auto simp: capacity_worker_def capacity_of_array_def array_capacity_volumes
      split: sum.splits option.splits)

lemma capacity_tasks_unique:
  "map (capacity_worker m) ord = map Inr tasks \<Longrightarrow> tasks = map (capacity_of_array m) ord"
  by (induction ord arbitrary: tasks) (auto simp: Cons_eq_map_conv dest: capacity_worker_eq)

text \<open>The record of a volume of the cluster: none without an array, a live client or an answer.\<close>

definition volume_capacity :: "base_metrics \<Rightarrow> volume_info \<Rightarrow> capacity_record option" where
  "volume_capacity m volume =
     (case handle_array_id (vi_VolumeHandle volume) of
        None \<Rightarrow> None
      | Some arrayID \<Rightarrow>
          (case GetPowerMaxClient m arrayID of
             Inr (Some client) \<Rightarrow> volume_record client arrayID volume
           | _ \<Rightarrow> None))"

lemma capacity_by_volume:
  "mset (concat (map (capacity_of_array m) (array2Volumes pvs))) =
   mset (List.map_filter (volume_capacity m) pvs)"
proof -
  let ?g = "\<lambda>a v. case GetPowerMaxClient m a of
      Inr (Some client) \<Rightarrow> List.map_filter (volume_record client a) [v] | _ \<Rightarrow> []"
  have "mset (concat (map (capacity_of_array m) (array2Volumes pvs))) =
      mset (concat (map (\<lambda>v. case handle_array_id (vi_VolumeHandle v) of None \<Rightarrow> [] | Some a \<Rightarrow> ?g a v) pvs))"
    unfolding array2Volumes_def
    by (rule mset_grouped) (simp_all add: capacity_of_array_def map_filter_append split: sum.splits option.splits)
  also have "concat (map (\<lambda>v. case handle_array_id (vi_VolumeHandle v) of None \<Rightarrow> [] | Some a \<Rightarrow> ?g a v) pvs) =
      List.map_filter (volume_capacity m) pvs"
    by (induction pvs) (simp_all add: volume_capacity_def split: sum.splits option.splits)
  finally show ?thesis .
qed

lemma capacity_out:
  assumes "gathers_capacity m pvs out"
  shows "mset out = (if list_all (\<lambda>v. handle_array_id (vi_VolumeHandle v) = None) pvs
     then {#empty_capacity_record#}
     else mset (List.map_filter (volume_capacity m) pvs))"
proof -
  obtain ord tasks where o: "iteration_of (array2Volumes pvs) ord"
    and t: "map (capacity_worker m) ord = map Inr tasks"
    and d: "delivers tasks empty_capacity_record (nat (bm_MaxPowerMaxConnections m)) out"
    using assms by (auto simp: gathers_capacity_def)
  have "tasks = [] \<longleftrightarrow> array2Volumes pvs = []"
    using t iteration_of_length [OF o] by (metis length_0_conv length_map)
  then show ?thesis
    using delivers_mset [OF d] mset_concat_iteration [OF o, of "capacity_of_array m"]
      capacity_by_volume [of m pvs]
    by (simp add: expected_def capacity_tasks_unique [OF t] array2Volumes_Nil_iff)
qed

text \<open>
  A collection of a healthy service never gets stuck: with a positive limit and clients as
  \<open>k8spmax\<close> makes them, some sequence is delivered.
\<close>

lemma capacity_gather_delivers:
  assumes "base_ok m" and "0 < bm_MaxPowerMaxConnections m"
  shows "\<exists>out. gathers_capacity m pvs out"
proof -
  let ?tasks = "map (capacity_of_array m) (array2Volumes pvs)"
  have "capacity_worker m av = Inr (capacity_of_array m av)" for av
    using capacity_worker_ok [OF assms(1), of av] capacity_worker_eq [of m av] by blast
  then have "map (capacity_worker m) (array2Volumes pvs) = map Inr ?tasks" by simp
  moreover obtain out where
    "delivers ?tasks empty_capacity_record (nat (bm_MaxPowerMaxConnections m)) out"
    using delivers_exists assms(2) by (metis zero_less_nat_eq)
  ultimately show ?thesis unfolding gathers_capacity_def using iteration_of_refl by blast
qed

lemma sample_capacity:
  "volume_capacity sample_base sample_volume =
     Some (capacity_record_of ''0257'' ''00822'' sample_volume (Fin 8) (Fin 2) (bulk_used_percent (hd sample_bulk)))"
  by (simp add: volume_capacity_def sample_handle sample_client_found volume_record_def)
    (simp add: sample_client_def sample_bulk_def bulk_record_def sample_handle)

lemma sample_capacity_out:
  assumes "mset out = (if list_all (\<lambda>v. handle_array_id (vi_VolumeHandle v) = None) [sample_volume]
     then {#empty_capacity_record#}
     else mset (List.map_filter (volume_capacity sample_base) [sample_volume]))"
  shows "out = [capacity_record_of ''0257'' ''00822'' sample_volume (Fin 8) (Fin 2) (bulk_used_percent (hd sample_bulk))]"
  using assms by (simp add: sample_handle sample_capacity)

text \<open>
  C8. What a capacity collection delivers, whatever the iteration order of the map and the
  schedule of the workers: each persistent volume contributes its own record, independently of
  the grouping: the one its array gives it in bulk or, without a bulk answer, individually, and none
  when its array has no active client or does not know it; the empty record exactly when no handle
  names an array.
\<close>

theorem capacity_delivered:
  assumes "gathers_capacity m pvs out"
  shows "mset out = (if list_all (\<lambda>v. handle_array_id (vi_VolumeHandle v) = None) pvs
     then {#empty_capacity_record#}
     else mset (List.map_filter (volume_capacity m) pvs))"
  using assms by (rule capacity_out)

theorem capacity_delivered_witness:
  "gathers_capacity (sample_base :: base_metrics) [sample_volume]
     [capacity_record_of ''0257'' ''00822'' sample_volume (Fin 8) (Fin 2) (bulk_used_percent (hd sample_bulk))]"
proof -
  obtain out where out: "gathers_capacity (sample_base :: base_metrics) [sample_volume] out"
    using capacity_gather_delivers [OF sample_base_ok sample_base_limit] by blast
  then show ?thesis using sample_capacity_out [OF capacity_delivered [OF out]] by simp
qed

text \<open>
  When every volume's array is without an active client, nothing at all is delivered, not even the
  empty record that is meant to clear stale entries: the flag that suppresses it is set when a
  worker is started, not when a record is exported.
\<close>

theorem no_client_no_record:
  assumes "gathers_capacity m pvs out"
    and "\<not> list_all (\<lambda>v. handle_array_id (vi_VolumeHandle v) = None) pvs"
    and "\<And>a. \<exists>e. GetPowerMaxClient m a = Inl e"
  shows "out = []"
proof -
  have "volume_capacity m v = None" for v
    using assms(3) by (auto simp: volume_capacity_def split: option.splits sum.splits) (metis sum.distinct(1))
  then have "List.map_filter (volume_capacity m) pvs = []" by (induction pvs) simp_all
  then have "mset out = {#}"
    using capacity_out [OF assms(1)] assms(2) by simp
  then show ?thesis by simp
qed

theorem no_client_no_record_witness:
  "gathers_capacity ((sample_base :: base_metrics)\<lparr>bm_PowerMaxClients := Some []\<rparr>) [sample_volume] []"
proof -
  let ?m = "(sample_base :: base_metrics)\<lparr>bm_PowerMaxClients := Some []\<rparr>"
  have ok: "base_ok ?m" by (simp add: base_ok_def clients_ok_def)
  have lim: "0 < bm_MaxPowerMaxConnections ?m" by (simp add: sample_base_def)
  obtain out where out: "gathers_capacity ?m [sample_volume] out"
    using capacity_gather_delivers [OF ok lim] by blast
  moreover have "out = []"
    by (rule no_client_no_record [OF out]) (simp_all add: sample_handle GetPowerMaxClient_def)
  ultimately show ?thesis by simp
qed

end
