(* ===== verification/Capacity_Push.thy ===== *)
theory Capacity_Push
  imports Capacity Fanout
begin

section \<open>Summing and recording capacities (\<open>pushCapacityMetrics\<close>)\<close>

text \<open>
  The consumer of the gathered stream keeps five maps (by array, storage class, volume,
  storage group and storage resource pool), adds every record to each of them, and then records one
  observation per entry. The theorems give each entry as a fold over the records of its group in
  the order of arrival, show that the composed keys keep the groups apart, and count the
  observations.
\<close>

subsection \<open>\<open>cumulate\<close>\<close>

type_synonym capacity_map = "(string \<times> capacity_record) list"

definition cumulate :: "string \<Rightarrow> capacity_map \<Rightarrow> capacity_record \<Rightarrow> capacity_map" where
  "cumulate key cacheMap metric =
     (case map_of cacheMap key of
        None \<Rightarrow> AList.update key metric cacheMap
      | Some volMetrics \<Rightarrow>
          AList.update key
            (volMetrics\<lparr>cr_Total := f64_add (cr_Total volMetrics) (cr_Total metric),
                        cr_Used := f64_add (cr_Used volMetrics) (cr_Used metric)\<rparr>) cacheMap)"

record capacity_sums =
  cs_array :: capacity_map
  cs_class :: capacity_map
  cs_group :: capacity_map
  cs_srp :: capacity_map
  cs_volume :: capacity_map

definition no_sums :: capacity_sums where
  "no_sums = \<lparr>cs_array = [], cs_class = [], cs_group = [], cs_srp = [], cs_volume = []\<rparr>"

text \<open>\<open>fmt.Sprintf("%s-%s", a, b)\<close>.\<close>

definition dash_key :: "string \<Rightarrow> string \<Rightarrow> string" where
  "dash_key a b = a @ ''-'' @ b"

definition cumulate_all :: "capacity_sums \<Rightarrow> capacity_record \<Rightarrow> capacity_sums" where
  "cumulate_all s metric =
     s\<lparr>cs_array := cumulate (cr_ArrayID metric) (cs_array s) metric,
       cs_class := cumulate (cr_StorageClass metric) (cs_class s) metric,
       cs_volume := cumulate (dash_key (cr_ArrayID metric) (cr_VolumeID metric)) (cs_volume s) metric,
       cs_group := cumulate (dash_key (cr_ArrayID metric) (cr_StorageGroupID metric)) (cs_group s) metric,
       cs_srp := cumulate (dash_key (cr_ArrayID metric) (cr_SrpID metric)) (cs_srp s) metric\<rparr>"

definition capacity_sums_of :: "capacity_record list \<Rightarrow> capacity_sums" where
  "capacity_sums_of rs = foldl cumulate_all no_sums rs"

text \<open>One map on its own.\<close>

definition sum_map :: "(capacity_record \<Rightarrow> string) \<Rightarrow> capacity_record list \<Rightarrow> capacity_map" where
  "sum_map key rs = foldl (\<lambda>m r. cumulate (key r) m r) [] rs"

lemma capacity_sums_of_maps:
  "cs_array (capacity_sums_of rs) = sum_map cr_ArrayID rs"
  "cs_class (capacity_sums_of rs) = sum_map cr_StorageClass rs"
  "cs_volume (capacity_sums_of rs) = sum_map (\<lambda>r. dash_key (cr_ArrayID r) (cr_VolumeID r)) rs"
  "cs_group (capacity_sums_of rs) = sum_map (\<lambda>r. dash_key (cr_ArrayID r) (cr_StorageGroupID r)) rs"
  "cs_srp (capacity_sums_of rs) = sum_map (\<lambda>r. dash_key (cr_ArrayID r) (cr_SrpID r)) rs"
  unfolding capacity_sums_of_def sum_map_def
  by (induction rs rule: rev_induct) (simp_all add: no_sums_def cumulate_all_def)

subsection \<open>Every entry is the sum of its group\<close>

definition add_metric :: "capacity_record option \<Rightarrow> capacity_record \<Rightarrow> capacity_record" where
  "add_metric acc r = (case acc of
     None \<Rightarrow> r
   | Some v \<Rightarrow> v\<lparr>cr_Total := f64_add (cr_Total v) (cr_Total r),
                 cr_Used := f64_add (cr_Used v) (cr_Used r)\<rparr>)"

lemma cumulate_eq: "cumulate k m r = AList.update k (add_metric (map_of m k) r) m"
  by (simp add: cumulate_def add_metric_def split: option.splits)

text \<open>
  The specification of an entry: the labels of the first record of the group, the totals and the
  used capacities added up from the left.
\<close>

definition group_sum :: "capacity_record list \<Rightarrow> capacity_record option" where
  "group_sum rs = (case rs of
     [] \<Rightarrow> None
   | r # rest \<Rightarrow> Some (r\<lparr>cr_Total := foldl f64_add (cr_Total r) (map cr_Total rest),
                         cr_Used := foldl f64_add (cr_Used r) (map cr_Used rest)\<rparr>))"

lemma fold_add_metric_Some:
  "foldl (\<lambda>acc r. Some (add_metric acc r)) (Some v) rs =
     Some (v\<lparr>cr_Total := foldl f64_add (cr_Total v) (map cr_Total rs),
             cr_Used := foldl f64_add (cr_Used v) (map cr_Used rs)\<rparr>)"
  by (induction rs arbitrary: v) (simp_all add: add_metric_def)

lemma fold_add_metric: "foldl (\<lambda>acc r. Some (add_metric acc r)) None rs = group_sum rs"
  by (cases rs) (simp_all add: group_sum_def add_metric_def [of None] fold_add_metric_Some)

lemma group_sum_None_iff: "group_sum rs = None \<longleftrightarrow> rs = []"
  by (simp add: group_sum_def split: list.splits)

lemma sum_map_lookup: "map_of (sum_map key rs) k = group_sum (filter (\<lambda>r. key r = k) rs)"
  using alist_map.lookup_fill_empty [where key = "\<lambda>r. Some (key r)" and add = add_metric and rs = rs and k = k]
  by (simp add: sum_map_def cumulate_eq fold_add_metric)

lemma sum_map_distinct: "distinct (map fst (sum_map key rs))"
  unfolding sum_map_def cumulate_eq
  using distinct_fill [where m = "[]" and key = "\<lambda>r. Some (key r)" and add = add_metric and rs = rs] by simp

lemma sum_map_keys: "fst ` set (sum_map key rs) = key ` set rs"
proof -
  have "k \<notin> fst ` set (sum_map key rs) \<longleftrightarrow> k \<notin> key ` set rs" for k
    unfolding map_of_eq_None_iff [symmetric] sum_map_lookup
    by (auto simp: group_sum_None_iff filter_empty_conv)
  then show ?thesis by blast
qed

lemma length_sum_map: "length (sum_map key rs) = card (key ` set rs)"
  using distinct_card [OF sum_map_distinct [of key rs]] by (simp add: sum_map_keys)

lemma dash_key_inj:
  "CHR ''-'' \<notin> set a \<Longrightarrow> CHR ''-'' \<notin> set b \<Longrightarrow> dash_key a x = dash_key b y \<longleftrightarrow> a = b \<and> x = y"
  using sep_append_eq [of "CHR ''-''" a b x y] by (auto simp: dash_key_def)

text \<open>No record of a collection has a dash in its array ID.\<close>

definition dash_free :: "capacity_record list \<Rightarrow> bool" where
  "dash_free rs \<longleftrightarrow> list_all (\<lambda>r. CHR ''-'' \<notin> set (cr_ArrayID r)) rs"

lemma pair_sum_lookup:
  assumes "dash_free rs" and "CHR ''-'' \<notin> set a"
  shows "map_of (sum_map (\<lambda>r. dash_key (cr_ArrayID r) (f r)) rs) (dash_key a b) =
    group_sum (filter (\<lambda>r. cr_ArrayID r = a \<and> f r = b) rs)"
  unfolding sum_map_lookup
  using assms by (intro arg_cong [of _ _ group_sum] filter_cong)
    (auto simp: dash_free_def list_all_iff dash_key_inj)

lemma dash_free_gathered:
  assumes "gathers_capacity m pvs out"
  shows "dash_free out"
proof -
  have "CHR ''-'' \<notin> set (cr_ArrayID r)" if "r \<in> set out" for r
  proof (cases "list_all (\<lambda>v. handle_array_id (vi_VolumeHandle v) = None) pvs")
    case True
    then have "mset out = {#empty_capacity_record#}" using capacity_out [OF assms] by simp
    with that have "r = empty_capacity_record" by (metis set_mset_mset set_mset_single set_mset_add_mset_insert singletonD)
    then show ?thesis by (simp add: empty_capacity_record_def)
  next
    case False
    then have "mset out = mset (List.map_filter (volume_capacity m) pvs)"
      using capacity_out [OF assms] by simp
    then have "set out = set (List.map_filter (volume_capacity m) pvs)"
      by (rule mset_eq_setD)
    with that obtain v where v: "volume_capacity m v = Some r"
      by (auto simp: in_set_map_filter)
    then have "handle_array_id (vi_VolumeHandle v) = Some (cr_ArrayID r)"
      by (auto simp: volume_capacity_def volume_record_def bulk_record_def legacy_record_def
          capacity_record_of_def split: sum.splits option.splits)
    then show ?thesis by (rule handle_array_id_no_dash)
  qed
  then show ?thesis by (simp add: dash_free_def list_all_iff)
qed

subsection \<open>The observations\<close>

type_synonym capacity_call = "string \<times> label list \<times> capacity_record"

definition volume_labels :: "capacity_record \<Rightarrow> label list" where
  "volume_labels r =
     [(''ArrayID'', cr_ArrayID r), (''SrpID'', cr_SrpID r), (''StorageGroupID'', cr_StorageGroupID r),
      (''VolumeID'', cr_VolumeID r), (''Driver'', cr_Driver r), (''StorageClass'', cr_StorageClass r),
      (''PersistentVolumeName'', cr_PersistentVolumeName r),
      (''PersistentVolumeStatus'', cr_PersistentVolumeStatus r),
      (''PersistentVolumeClaimName'', cr_PersistentVolumeClaimName r),
      (''Namespace'', cr_Namespace r), (''PlotWithMean'', ''No'')]"

definition group_labels :: "capacity_record \<Rightarrow> label list" where
  "group_labels r =
     [(''ArrayID'', cr_ArrayID r), (''Driver'', cr_Driver r), (''StorageGroupID'', cr_StorageGroupID r),
      (''SrpID'', cr_SrpID r), (''PlotWithMean'', ''No'')]"

definition srp_labels :: "capacity_record \<Rightarrow> label list" where
  "srp_labels r =
     [(''ArrayID'', cr_ArrayID r), (''Driver'', cr_Driver r), (''SrpID'', cr_SrpID r),
      (''PlotWithMean'', ''No'')]"

definition array_labels :: "capacity_record \<Rightarrow> label list" where
  "array_labels r =
     [(''ArrayID'', cr_ArrayID r), (''Driver'', cr_Driver r), (''PlotWithMean'', ''No'')]"

definition class_labels :: "capacity_record \<Rightarrow> label list" where
  "class_labels r =
     [(''ArrayID'', cr_ArrayID r), (''Driver'', cr_Driver r), (''StorageClass'', cr_StorageClass r),
      (''PlotWithMean'', ''No'')]"

text \<open>
  The goroutines of one loop over one map: the call each makes, with the ID it sends when
  the call succeeds.
\<close>

definition level_tasks ::
  "string \<Rightarrow> (capacity_record \<Rightarrow> label list) \<Rightarrow> (capacity_record \<Rightarrow> string) \<Rightarrow> capacity_map \<Rightarrow>
   (capacity_call \<times> string) list" where
  "level_tasks prefix labels ident m = map (\<lambda>(k, metric). ((prefix, labels metric, metric), ident metric)) m"

definition record_task :: "metrics_recorder \<Rightarrow> capacity_call \<times> string \<Rightarrow> string option" where
  "record_task rec task =
     (case task of ((prefix, labels, metric), ident) \<Rightarrow>
        (case RecordNumericMetrics rec prefix labels metric of
           Inl err \<Rightarrow> None
         | Inr _ \<Rightarrow> Some ident))"

text \<open>The goroutines in the order the five loops start them, each loop in the order of its range.\<close>

definition push_tasks :: "capacity_sums \<Rightarrow> (capacity_call \<times> string) list \<Rightarrow> bool" where
  "push_tasks s tasks \<longleftrightarrow>
     (\<exists>volumes groups srps arrays classes.
        iteration_of (cs_volume s) volumes \<and> iteration_of (cs_group s) groups \<and>
        iteration_of (cs_srp s) srps \<and> iteration_of (cs_array s) arrays \<and>
        iteration_of (cs_class s) classes \<and>
        tasks =
          level_tasks ''powermax_volume_'' volume_labels cr_VolumeID volumes @
          level_tasks ''powermax_storage_group_'' group_labels cr_StorageGroupID groups @
          level_tasks ''powermax_srp_'' srp_labels cr_SrpID srps @
          level_tasks ''powermax_array_'' array_labels cr_ArrayID arrays @
          level_tasks ''powermax_storage_class_'' class_labels cr_ArrayID classes)"

text \<open>
  \<open>pushCapacityMetrics\<close> on the records in their order of arrival: the calls of the recorder, in any
  order, and the IDs the consumer receives.
\<close>

definition pushCapacityMetrics ::
  "metrics_recorder \<Rightarrow> capacity_record list \<Rightarrow> capacity_call list \<times> string list \<Rightarrow> bool" where
  "pushCapacityMetrics rec arrivals out \<longleftrightarrow>
     (\<exists>tasks. push_tasks (capacity_sums_of arrivals) tasks \<and>
        mset (fst out) = mset (map fst tasks) \<and>
        stage_delivers (record_task rec) tasks (snd out))"

lemma push_capacity_exists: "\<exists>out. pushCapacityMetrics rec arrivals out"
proof -
  obtain tasks where t: "push_tasks (capacity_sums_of arrivals) tasks"
    unfolding push_tasks_def using iteration_of_refl by blast
  obtain ids where "stage_delivers (record_task rec) tasks ids" using stage_delivers_exists by blast
  with t show ?thesis unfolding pushCapacityMetrics_def
    by (intro exI [of _ "(map fst tasks, ids)"]) auto
qed

text \<open>
  \<open>Collect\<close>: the outcomes of a collection. The recorder is an interface; the first call of a
  method of a nil one panics, which \<open>ExportMetrics\<close> rules out before.
\<close>

inductive capacity_Collect ::
  "base_metrics \<Rightarrow> (capacity_call list \<times> string list) result \<Rightarrow> bool"
  for m where
  find_error: "bm_VolumeFinder m () = Inl err \<Longrightarrow> capacity_Collect m (Inl err)"
| collected: "bm_VolumeFinder m () = Inr pvs \<Longrightarrow> gathers_capacity m pvs arrivals \<Longrightarrow>
    bm_MetricsRecorder m = Some rec \<Longrightarrow> pushCapacityMetrics rec arrivals out \<Longrightarrow>
    capacity_Collect m (Inr out)"
| nothing: "bm_VolumeFinder m () = Inr pvs \<Longrightarrow> gathers_capacity m pvs [] \<Longrightarrow>
    bm_MetricsRecorder m = None \<Longrightarrow> capacity_Collect m (Inr ([], []))"
| nil_recorder: "bm_VolumeFinder m () = Inr pvs \<Longrightarrow> gathers_capacity m pvs arrivals \<Longrightarrow>
    arrivals \<noteq> [] \<Longrightarrow> bm_MetricsRecorder m = None \<Longrightarrow> capacity_Collect m (Inl (Panic ''nil recorder''))"

inductive_simps capacity_Collect_iff: "capacity_Collect m out"

interpretation capacity_collector: metrics_collector capacity_Collect
proof unfold_locales
  fix m out e
  show "bm_VolumeFinder m () = Inl e \<Longrightarrow> capacity_Collect m out \<longleftrightarrow> out = Inl e"
    by (auto simp: capacity_Collect_iff)
next
  fix m out pvs
  show "bm_VolumeFinder m () = Inr pvs \<Longrightarrow> bm_MetricsRecorder m \<noteq> None \<Longrightarrow>
      capacity_Collect m out \<Longrightarrow> \<exists>x. out = Inr x"
    by (auto simp: capacity_Collect_iff)
next
  fix m :: "base_metrics"
  assume "base_ok m" "bm_MetricsRecorder m \<noteq> None" "0 < bm_MaxPowerMaxConnections m"
  then show "\<exists>out. capacity_Collect m out"
    using capacity_gather_delivers [of m] push_capacity_exists
    by (cases "bm_VolumeFinder m ()") (blast intro: capacity_Collect.intros)+
qed

subsection \<open>Properties\<close>

lemma group_sum_amounts:
  assumes "group_sum rs = Some s" and "list_all (\<lambda>r. amount64 (cr_Total r)) rs" and "r \<in> set rs"
  shows "f64_le (cr_Total r) (cr_Total s) \<and> amount64 (cr_Total s)"
proof -
  obtain r0 rest where rs: "rs = r0 # rest" using assms(3) by (cases rs) auto
  have all: "amount64 (cr_Total r0)" "list_all amount64 (map cr_Total rest)"
    using assms(2) by (simp_all add: rs list.pred_map comp_def)
  have "cr_Total s = foldl f64_add (cr_Total r0) (map cr_Total rest)"
    using assms(1) by (auto simp: rs group_sum_def)
  then show ?thesis
    using foldl_add_ge [OF all] amount64_foldl [OF all] assms(3) by (auto simp: rs)
qed

text \<open>
  Every level's sums are exact groupings of what arrived: the entry of an array or a storage
  class folds the records with that array or class, and the entry of a volume, a storage group or a
  resource pool folds the records with that array and that part; the composed key never mixes
  two arrays, because no array ID contains the separator.
\<close>

theorem level_sums_exact:
  assumes "gathers_capacity m pvs out" and "CHR ''-'' \<notin> set a"
  shows "map_of (cs_array (capacity_sums_of out)) a = group_sum (filter (\<lambda>r. cr_ArrayID r = a) out) \<and>
    map_of (cs_class (capacity_sums_of out)) c = group_sum (filter (\<lambda>r. cr_StorageClass r = c) out) \<and>
    map_of (cs_volume (capacity_sums_of out)) (dash_key a v) =
      group_sum (filter (\<lambda>r. cr_ArrayID r = a \<and> cr_VolumeID r = v) out) \<and>
    map_of (cs_group (capacity_sums_of out)) (dash_key a g) =
      group_sum (filter (\<lambda>r. cr_ArrayID r = a \<and> cr_StorageGroupID r = g) out) \<and>
    map_of (cs_srp (capacity_sums_of out)) (dash_key a p) =
      group_sum (filter (\<lambda>r. cr_ArrayID r = a \<and> cr_SrpID r = p) out)"
  unfolding capacity_sums_of_maps pair_sum_lookup [OF dash_free_gathered [OF assms(1)] assms(2)]
  by (simp add: sum_map_lookup)

lemma sample_gathers: "\<exists>out. gathers_capacity (sample_base :: base_metrics) [sample_volume] out"
  by (rule capacity_gather_delivers [OF sample_base_ok sample_base_limit])

theorem level_sums_exact_witness:
  "\<exists>out. gathers_capacity (sample_base :: base_metrics) [sample_volume] out \<and>
     map_of (cs_array (capacity_sums_of out)) ''0257'' =
       group_sum (filter (\<lambda>r. cr_ArrayID r = ''0257'') out)"
proof -
  obtain out where out: "gathers_capacity (sample_base :: base_metrics) [sample_volume] out"
    using sample_gathers by blast
  have "CHR ''-'' \<notin> set ''0257''" by simp
  with level_sums_exact [OF out] out show ?thesis by blast
qed

text \<open>
  An array's total is at least the total of each of its volumes and is itself an amount (a
  non-negative binary64 value, never NaN), although the additions round and happen in the
  order of arrival.
\<close>

theorem array_total_covers_volumes:
  assumes "list_all (\<lambda>r. amount64 (cr_Total r)) out" and "r \<in> set out"
  shows "\<exists>s. map_of (cs_array (capacity_sums_of out)) (cr_ArrayID r) = Some s \<and>
    f64_le (cr_Total r) (cr_Total s) \<and> amount64 (cr_Total s)"
proof -
  let ?g = "filter (\<lambda>x. cr_ArrayID x = cr_ArrayID r) out"
  have mem: "r \<in> set ?g" using assms(2) by simp
  have "?g \<noteq> []" using length_pos_if_in_set [OF mem] unfolding length_greater_0_conv .
  then have "group_sum ?g \<noteq> None" unfolding group_sum_None_iff .
  then obtain s where s: "group_sum ?g = Some s" by (metis not_None_eq)
  moreover have "list_all (\<lambda>r. amount64 (cr_Total r)) ?g"
    using assms(1) by (auto simp: list_all_iff)
  ultimately have "f64_le (cr_Total r) (cr_Total s) \<and> amount64 (cr_Total s)"
    using mem by (intro group_sum_amounts)
  then show ?thesis using s by (simp add: capacity_sums_of_maps sum_map_lookup)
qed

theorem array_total_covers_volumes_witness:
  "\<exists>s. map_of (cs_array (capacity_sums_of
       [empty_capacity_record\<lparr>cr_ArrayID := ''0257'', cr_Total := Fin 8\<rparr>,
        empty_capacity_record\<lparr>cr_ArrayID := ''0257'', cr_Total := Fin 2\<rparr>])) ''0257'' = Some s \<and>
     f64_le (Fin 2) (cr_Total s)"
proof -
  let ?r = "empty_capacity_record\<lparr>cr_ArrayID := ''0257'', cr_Total := Fin 8\<rparr>"
  let ?q = "empty_capacity_record\<lparr>cr_ArrayID := ''0257'', cr_Total := Fin 2\<rparr>"
  have "list_all (\<lambda>r. amount64 (cr_Total r)) [?r, ?q]"
    using f64_of_int_exact [of 8] f64_of_int_exact [of 2]
    by (simp add: amount64_def nonneg64_def f64_of_int_def)
  then show ?thesis using array_total_covers_volumes [of "[?r, ?q]" ?q] by auto
qed

lemma card_dash_key:
  assumes "dash_free rs"
  shows "card ((\<lambda>r. dash_key (cr_ArrayID r) (f r)) ` set rs) = card ((\<lambda>r. (cr_ArrayID r, f r)) ` set rs)"
proof -
  have "inj_on (\<lambda>(a, b). dash_key a b) ((\<lambda>r. (cr_ArrayID r, f r)) ` set rs)"
    using assms by (auto simp: inj_on_def dash_free_def list_all_iff dash_key_inj)
  then show ?thesis using card_image [of "\<lambda>(a, b). dash_key a b" "(\<lambda>r. (cr_ArrayID r, f r)) ` set rs"]
    by (simp add: image_image)
qed

lemma level_tasks_length [simp]: "length (level_tasks p lab ident m) = length m"
  by (simp add: level_tasks_def)

lemma push_tasks_length:
  assumes "push_tasks s tasks"
  shows "length tasks = length (cs_volume s) + length (cs_group s) + length (cs_srp s) +
    length (cs_array s) + length (cs_class s)"
  using assms by (auto simp: push_tasks_def dest!: iteration_of_length)

lemma record_tasks_length:
  "length (List.map_filter (record_task rec) tasks) =
   length (filter (\<lambda>(p, ls, r). RecordNumericMetrics rec p ls r = Inr ()) (map fst tasks))"
  by (induction tasks) (auto simp: record_task_def split: sum.splits)

text \<open>
  One observation per group: the recorder is called once for each distinct volume, storage
  group, resource pool, array and storage class that arrived, and one ID is sent to the collector for
  each call that does not fail.
\<close>

theorem one_observation_per_group:
  assumes "gathers_capacity m pvs arrivals" and "pushCapacityMetrics rec arrivals (calls, ids)"
  shows "length calls =
    card ((\<lambda>r. (cr_ArrayID r, cr_VolumeID r)) ` set arrivals) +
    card ((\<lambda>r. (cr_ArrayID r, cr_StorageGroupID r)) ` set arrivals) +
    card ((\<lambda>r. (cr_ArrayID r, cr_SrpID r)) ` set arrivals) +
    card (cr_ArrayID ` set arrivals) + card (cr_StorageClass ` set arrivals) \<and>
    length ids = length (filter (\<lambda>(p, ls, r). RecordNumericMetrics rec p ls r = Inr ()) calls)"
proof -
  obtain tasks where t: "push_tasks (capacity_sums_of arrivals) tasks"
    and calls: "mset calls = mset (map fst tasks)" and ids: "stage_delivers (record_task rec) tasks ids"
    using assms(2) by (auto simp: pushCapacityMetrics_def)
  have "length calls = length tasks" using mset_eq_length [OF calls] by simp
  moreover have "length ids = length (List.map_filter (record_task rec) tasks)"
    using mset_eq_length [OF stage_delivers_mset [OF ids]] .
  moreover have "length (filter P calls) = length (filter P (map fst tasks))" for P
    using calls by (metis mset_eq_length mset_filter)
  ultimately show ?thesis
    using push_tasks_length [OF t] dash_free_gathered [OF assms(1)]
    by (simp add: capacity_sums_of_maps length_sum_map card_dash_key record_tasks_length)
qed

theorem one_observation_per_group_witness:
  "\<exists>calls ids. pushCapacityMetrics sample_recorder
       [capacity_record_of ''0257'' ''00822'' sample_volume (Fin 8) (Fin 2) (bulk_used_percent (hd sample_bulk))]
       (calls, ids) \<and> length calls = 5 \<and> length ids = 5"
proof -
  obtain out where out: "gathers_capacity (sample_base :: base_metrics) [sample_volume] out"
    using sample_gathers by blast
  have o: "out = [capacity_record_of ''0257'' ''00822'' sample_volume (Fin 8) (Fin 2) (bulk_used_percent (hd sample_bulk))]"
    by (rule sample_capacity_out) (rule capacity_out [OF out])
  obtain calls ids where push: "pushCapacityMetrics sample_recorder out (calls, ids)"
    using push_capacity_exists by (metis prod.collapse)
  from one_observation_per_group [OF out push] have "length calls = 5 \<and> length ids = length calls"
    by (simp add: o sample_recorder_def split_def)
  then show ?thesis using push unfolding o by (intro exI [of _ calls] exI [of _ ids]) simp
qed

subsection \<open>Which calls a level makes\<close>

text \<open>The calls of one metric family for the records with a property, and what they should be.\<close>

definition calls_for :: "string \<Rightarrow> (capacity_record \<Rightarrow> bool) \<Rightarrow> capacity_call list \<Rightarrow> capacity_call list" where
  "calls_for prefix P calls = filter (\<lambda>(p, ls, r). p = prefix \<and> P r) calls"

definition group_call ::
  "string \<Rightarrow> (capacity_record \<Rightarrow> label list) \<Rightarrow> (capacity_record \<Rightarrow> bool) \<Rightarrow> capacity_record list \<Rightarrow>
   capacity_call list" where
  "group_call prefix labels P rs =
     (case group_sum (filter P rs) of None \<Rightarrow> [] | Some s \<Rightarrow> [(prefix, labels s, s)])"

lemma filter_one_key:
  "distinct (map fst m) \<Longrightarrow> filter (\<lambda>kv. fst kv = k) m = (case map_of m k of None \<Rightarrow> [] | Some v \<Rightarrow> [(k, v)])"
proof (induction m)
  case (Cons kv m)
  then show ?case
    by (cases kv; cases "fst kv = k") (auto simp: filter_empty_conv rev_image_eqI split: option.splits)
qed simp

lemma sum_map_own_key:
  assumes "\<And>r t u. key (r\<lparr>cr_Total := t, cr_Used := u\<rparr>) = key r" and "(k, s) \<in> set (sum_map key rs)"
  shows "key s = k"
proof -
  have g: "group_sum (filter (\<lambda>r. key r = k) rs) = Some s"
    using assms(2) sum_map_lookup [of key rs k] by (simp add: sum_map_distinct)
  then obtain r rest where r: "filter (\<lambda>r. key r = k) rs = r # rest"
    by (cases "filter (\<lambda>r. key r = k) rs") (simp_all add: group_sum_def)
  then have "key r = k" using list.set_intros(1) [of r rest] unfolding r [symmetric] by simp
  then show ?thesis using g assms(1) by (auto simp: r group_sum_def)
qed

lemma level_calls_for:
  assumes "iteration_of (sum_map key rs) m" and "\<And>r t u. key (r\<lparr>cr_Total := t, cr_Used := u\<rparr>) = key r"
  shows "mset (calls_for p (\<lambda>r. key r = k) (map fst (level_tasks p lab ident m))) =
    mset (group_call p lab (\<lambda>r. key r = k) rs)"
proof -
  have own: "key (snd kv) = fst kv" if "kv \<in> set (sum_map key rs)" for kv
    using sum_map_own_key [OF assms(2), of "fst kv" "snd kv" rs] that by simp
  have "mset (calls_for p (\<lambda>r. key r = k) (map fst (level_tasks p lab ident m))) =
      mset (map (\<lambda>kv. (p, lab (snd kv), snd kv)) (filter (\<lambda>kv. key (snd kv) = k) m))"
    by (simp add: calls_for_def level_tasks_def filter_map comp_def case_prod_beta)
  also have "\<dots> = mset (map (\<lambda>kv. (p, lab (snd kv), snd kv)) (filter (\<lambda>kv. key (snd kv) = k) (sum_map key rs)))"
    by (simp only: mset_map mset_filter assms(1) [unfolded iteration_of_def])
  also have "filter (\<lambda>kv. key (snd kv) = k) (sum_map key rs) = filter (\<lambda>kv. fst kv = k) (sum_map key rs)"
    using own by (intro filter_cong) auto
  also have "map (\<lambda>kv. (p, lab (snd kv), snd kv)) (filter (\<lambda>kv. fst kv = k) (sum_map key rs)) =
      group_call p lab (\<lambda>r. key r = k) rs"
    unfolding filter_one_key [OF sum_map_distinct] sum_map_lookup group_call_def
    by (simp split: option.splits)
  finally show ?thesis .
qed

lemma other_level_calls: "p \<noteq> q \<Longrightarrow> calls_for p P (map fst (level_tasks q lab ident m)) = []"
  by (auto simp: calls_for_def level_tasks_def filter_empty_conv)

lemma calls_for_append [simp]: "calls_for p P (xs @ ys) = calls_for p P xs @ calls_for p P ys"
  by (simp add: calls_for_def)

text \<open>The five levels by their keys.\<close>

lemma pushed_calls:
  assumes "pushCapacityMetrics rec rs (calls, ids)"
  shows "mset (calls_for ''powermax_volume_'' (\<lambda>r. dash_key (cr_ArrayID r) (cr_VolumeID r) = k) calls) =
      mset (group_call ''powermax_volume_'' volume_labels (\<lambda>r. dash_key (cr_ArrayID r) (cr_VolumeID r) = k) rs)"
    and "mset (calls_for ''powermax_storage_group_'' (\<lambda>r. dash_key (cr_ArrayID r) (cr_StorageGroupID r) = k) calls) =
      mset (group_call ''powermax_storage_group_'' group_labels (\<lambda>r. dash_key (cr_ArrayID r) (cr_StorageGroupID r) = k) rs)"
    and "mset (calls_for ''powermax_srp_'' (\<lambda>r. dash_key (cr_ArrayID r) (cr_SrpID r) = k) calls) =
      mset (group_call ''powermax_srp_'' srp_labels (\<lambda>r. dash_key (cr_ArrayID r) (cr_SrpID r) = k) rs)"
    and "mset (calls_for ''powermax_array_'' (\<lambda>r. cr_ArrayID r = k) calls) =
      mset (group_call ''powermax_array_'' array_labels (\<lambda>r. cr_ArrayID r = k) rs)"
    and "mset (calls_for ''powermax_storage_class_'' (\<lambda>r. cr_StorageClass r = k) calls) =
      mset (group_call ''powermax_storage_class_'' class_labels (\<lambda>r. cr_StorageClass r = k) rs)"
proof -
  obtain tasks where t: "push_tasks (capacity_sums_of rs) tasks" and c: "mset calls = mset (map fst tasks)"
    using assms by (auto simp: pushCapacityMetrics_def)
  have f: "mset (calls_for p P calls) = mset (calls_for p P (map fst tasks))" for p P
    unfolding calls_for_def mset_filter c ..
  obtain volumes groups srps arrays classes where
    i: "iteration_of (sum_map (\<lambda>r. dash_key (cr_ArrayID r) (cr_VolumeID r)) rs) volumes"
      "iteration_of (sum_map (\<lambda>r. dash_key (cr_ArrayID r) (cr_StorageGroupID r)) rs) groups"
      "iteration_of (sum_map (\<lambda>r. dash_key (cr_ArrayID r) (cr_SrpID r)) rs) srps"
      "iteration_of (sum_map cr_ArrayID rs) arrays" "iteration_of (sum_map cr_StorageClass rs) classes"
    and tasks: "tasks =
      level_tasks ''powermax_volume_'' volume_labels cr_VolumeID volumes @
      level_tasks ''powermax_storage_group_'' group_labels cr_StorageGroupID groups @
      level_tasks ''powermax_srp_'' srp_labels cr_SrpID srps @
      level_tasks ''powermax_array_'' array_labels cr_ArrayID arrays @
      level_tasks ''powermax_storage_class_'' class_labels cr_ArrayID classes"
    using t unfolding push_tasks_def capacity_sums_of_maps by blast
  show "mset (calls_for ''powermax_volume_'' (\<lambda>r. dash_key (cr_ArrayID r) (cr_VolumeID r) = k) calls) =
      mset (group_call ''powermax_volume_'' volume_labels (\<lambda>r. dash_key (cr_ArrayID r) (cr_VolumeID r) = k) rs)"
    unfolding f tasks using level_calls_for [OF i(1)] by (simp add: other_level_calls)
  show "mset (calls_for ''powermax_storage_group_'' (\<lambda>r. dash_key (cr_ArrayID r) (cr_StorageGroupID r) = k) calls) =
      mset (group_call ''powermax_storage_group_'' group_labels (\<lambda>r. dash_key (cr_ArrayID r) (cr_StorageGroupID r) = k) rs)"
    unfolding f tasks using level_calls_for [OF i(2)] by (simp add: other_level_calls)
  show "mset (calls_for ''powermax_srp_'' (\<lambda>r. dash_key (cr_ArrayID r) (cr_SrpID r) = k) calls) =
      mset (group_call ''powermax_srp_'' srp_labels (\<lambda>r. dash_key (cr_ArrayID r) (cr_SrpID r) = k) rs)"
    unfolding f tasks using level_calls_for [OF i(3)] by (simp add: other_level_calls)
  show "mset (calls_for ''powermax_array_'' (\<lambda>r. cr_ArrayID r = k) calls) =
      mset (group_call ''powermax_array_'' array_labels (\<lambda>r. cr_ArrayID r = k) rs)"
    unfolding f tasks using level_calls_for [OF i(4)] by (simp add: other_level_calls)
  show "mset (calls_for ''powermax_storage_class_'' (\<lambda>r. cr_StorageClass r = k) calls) =
      mset (group_call ''powermax_storage_class_'' class_labels (\<lambda>r. cr_StorageClass r = k) rs)"
    unfolding f tasks using level_calls_for [OF i(5)] by (simp add: other_level_calls)
qed

lemma mset_eq_short: "mset xs = mset ys \<Longrightarrow> length ys \<le> 1 \<Longrightarrow> xs = ys"
  by (cases ys) auto

lemma group_call_short: "length (group_call p lab P rs) \<le> 1"
  by (simp add: group_call_def split: option.splits)

text \<open>Every call is about an array that a live client answers for, or the empty record.\<close>

lemma sum_map_array:
  assumes "(k, s) \<in> set (sum_map key rs)"
  shows "cr_ArrayID s \<in> cr_ArrayID ` set rs"
proof -
  have g: "group_sum (filter (\<lambda>r. key r = k) rs) = Some s"
    using assms sum_map_lookup [of key rs k] by (simp add: sum_map_distinct)
  then obtain r rest where r: "filter (\<lambda>r. key r = k) rs = r # rest"
    by (cases "filter (\<lambda>r. key r = k) rs") (simp_all add: group_sum_def)
  have "r \<in> set rs" using list.set_intros(1) [of r rest] unfolding r [symmetric] by simp
  then show ?thesis using g by (auto simp: r group_sum_def)
qed

lemma level_tasks_array:
  "iteration_of (sum_map key rs) m \<Longrightarrow> ((p, ls, r), i) \<in> set (level_tasks q lab ident m) \<Longrightarrow>
     cr_ArrayID r \<in> cr_ArrayID ` set rs"
  using sum_map_array [of _ r key rs] iteration_of_set [of "sum_map key rs" m] by (auto simp: level_tasks_def)

lemma pushed_arrays:
  assumes "pushCapacityMetrics rec rs (calls, ids)" and "(p, ls, r) \<in> set calls"
  shows "cr_ArrayID r \<in> cr_ArrayID ` set rs"
proof -
  obtain tasks where t: "push_tasks (capacity_sums_of rs) tasks" and c: "mset calls = mset (map fst tasks)"
    using assms(1) by (auto simp: pushCapacityMetrics_def)
  then obtain i where "((p, ls, r), i) \<in> set tasks" using assms(2) mset_eq_setD [OF c] by force
  with t show ?thesis
    unfolding push_tasks_def capacity_sums_of_maps
    by (elim exE conjE) (hypsubst, unfold set_append Un_iff, elim disjE; erule (1) level_tasks_array)
qed

lemma gathered_arrays:
  assumes "gathers_capacity m pvs out" and "r \<in> set out"
  shows "cr_ArrayID r = [] \<or> (\<exists>c. GetPowerMaxClient m (cr_ArrayID r) = Inr (Some c))"
proof -
  have "r \<in># mset out" using assms(2) by simp
  then consider "r = empty_capacity_record" | v where "volume_capacity m v = Some r"
    unfolding capacity_out [OF assms(1)] by (auto simp: in_set_map_filter split: if_splits)
  then show ?thesis
    by cases (auto simp: empty_capacity_record_def volume_capacity_def volume_record_def bulk_record_def
        legacy_record_def capacity_record_of_def split: sum.splits option.splits)
qed

text \<open>The calls of the five levels, by what identifies a group.\<close>

lemma calls_for_pair:
  assumes "\<And>p ls r. (p, ls, r) \<in> set calls \<Longrightarrow> CHR ''-'' \<notin> set (cr_ArrayID r)" and "CHR ''-'' \<notin> set a"
  shows "calls_for p (\<lambda>r. dash_key (cr_ArrayID r) (f r) = dash_key a b) calls =
    calls_for p (\<lambda>r. cr_ArrayID r = a \<and> f r = b) calls"
  unfolding calls_for_def using assms by (intro filter_cong) (auto simp: dash_key_inj)

lemma group_call_pair:
  assumes "dash_free rs" and "CHR ''-'' \<notin> set a"
  shows "group_call p lab (\<lambda>r. dash_key (cr_ArrayID r) (f r) = dash_key a b) rs =
    group_call p lab (\<lambda>r. cr_ArrayID r = a \<and> f r = b) rs"
proof -
  have "filter (\<lambda>r. dash_key (cr_ArrayID r) (f r) = dash_key a b) rs = filter (\<lambda>r. cr_ArrayID r = a \<and> f r = b) rs"
    using assms by (intro filter_cong) (auto simp: dash_free_def list_all_iff dash_key_inj)
  then show ?thesis by (simp add: group_call_def)
qed

lemma pushed_levels:
  assumes "dash_free rs" and "CHR ''-'' \<notin> set a"
    and "(\<exists>rec. pushCapacityMetrics rec rs (calls, ids)) \<or> rs = [] \<and> calls = []"
  shows "calls_for ''powermax_volume_'' (\<lambda>r. cr_ArrayID r = a \<and> cr_VolumeID r = v) calls =
      group_call ''powermax_volume_'' volume_labels (\<lambda>r. cr_ArrayID r = a \<and> cr_VolumeID r = v) rs"
    and "calls_for ''powermax_storage_group_'' (\<lambda>r. cr_ArrayID r = a \<and> cr_StorageGroupID r = g) calls =
      group_call ''powermax_storage_group_'' group_labels (\<lambda>r. cr_ArrayID r = a \<and> cr_StorageGroupID r = g) rs"
    and "calls_for ''powermax_srp_'' (\<lambda>r. cr_ArrayID r = a \<and> cr_SrpID r = p) calls =
      group_call ''powermax_srp_'' srp_labels (\<lambda>r. cr_ArrayID r = a \<and> cr_SrpID r = p) rs"
    and "calls_for ''powermax_array_'' (\<lambda>r. cr_ArrayID r = a) calls =
      group_call ''powermax_array_'' array_labels (\<lambda>r. cr_ArrayID r = a) rs"
    and "calls_for ''powermax_storage_class_'' (\<lambda>r. cr_StorageClass r = c) calls =
      group_call ''powermax_storage_class_'' class_labels (\<lambda>r. cr_StorageClass r = c) rs"
proof -
  have none: "calls_for q P [] = group_call q lab P []" for q P lab
    by (simp add: calls_for_def group_call_def group_sum_def)
  have free: "CHR ''-'' \<notin> set (cr_ArrayID r)" if "(q, ls, r) \<in> set calls" for q ls r
    using assms(1,3) that by (auto simp: dash_free_def list_all_iff dest!: pushed_arrays)
  have "calls_for q (\<lambda>r. dash_key (cr_ArrayID r) (f r) = dash_key a b) calls =
      calls_for q (\<lambda>r. cr_ArrayID r = a \<and> f r = b) calls" for q f b
    using free assms(2) by (rule calls_for_pair)
  note pair = this group_call_pair [OF assms(1,2)]
  note eq = mset_eq_short [OF _ group_call_short]
  show "calls_for ''powermax_volume_'' (\<lambda>r. cr_ArrayID r = a \<and> cr_VolumeID r = v) calls =
      group_call ''powermax_volume_'' volume_labels (\<lambda>r. cr_ArrayID r = a \<and> cr_VolumeID r = v) rs"
    using assms(3) none eq [OF pushed_calls(1) [where rs = rs and calls = calls and k = "dash_key a v"], unfolded pair] by blast
  show "calls_for ''powermax_storage_group_'' (\<lambda>r. cr_ArrayID r = a \<and> cr_StorageGroupID r = g) calls =
      group_call ''powermax_storage_group_'' group_labels (\<lambda>r. cr_ArrayID r = a \<and> cr_StorageGroupID r = g) rs"
    using assms(3) none eq [OF pushed_calls(2) [where rs = rs and calls = calls and k = "dash_key a g"], unfolded pair] by blast
  show "calls_for ''powermax_srp_'' (\<lambda>r. cr_ArrayID r = a \<and> cr_SrpID r = p) calls =
      group_call ''powermax_srp_'' srp_labels (\<lambda>r. cr_ArrayID r = a \<and> cr_SrpID r = p) rs"
    using assms(3) none eq [OF pushed_calls(3) [where rs = rs and calls = calls and k = "dash_key a p"], unfolded pair] by blast
  show "calls_for ''powermax_array_'' (\<lambda>r. cr_ArrayID r = a) calls =
      group_call ''powermax_array_'' array_labels (\<lambda>r. cr_ArrayID r = a) rs"
    using assms(3) none eq [OF pushed_calls(4)] by blast
  show "calls_for ''powermax_storage_class_'' (\<lambda>r. cr_StorageClass r = c) calls =
      group_call ''powermax_storage_class_'' class_labels (\<lambda>r. cr_StorageClass r = c) rs"
    using assms(3) none eq [OF pushed_calls(5)] by blast
qed

subsection \<open>What a call carries\<close>

definition wf_capacity :: "capacity_record \<Rightarrow> bool" where
  "wf_capacity r \<longleftrightarrow> wf64 (cr_Total r) \<and> wf64 (cr_Used r) \<and> wf64 (cr_UsedPercent r)"

text \<open>A client whose answers are binary64 values.\<close>

definition wf_client :: "pmax_client \<Rightarrow> string \<Rightarrow> bool" where
  "wf_client c a \<longleftrightarrow>
     (case GetVolumesCapacityBulk c a of
        Inr (Some bulk) \<Rightarrow> list_all (\<lambda>v. wf64 (ve_CapGB v) \<and> wf64 (ve_EffectiveUsedCapacityGB v)) bulk
      | _ \<Rightarrow> True) \<and>
     (\<forall>i v. GetVolumeByID c a i = Inr v \<longrightarrow> wf64 (pv_CapacityGB v))"

lemma wf_of_int [simp]: "wf64 (f64_of_int n)"
  by (simp add: f64_of_int_def)

lemma volume_record_wf:
  assumes "wf_client c a" and "volume_record c a v = Some r"
  shows "wf_capacity r"
proof (cases "\<exists>bulk. GetVolumesCapacityBulk c a = Inr (Some bulk)")
  case True
  then obtain bulk where b: "GetVolumesCapacityBulk c a = Inr (Some bulk)" by blast
  then obtain x where x: "find (\<lambda>y. ve_ID y = handle_volume_id (vi_VolumeHandle v)) (rev bulk) = Some x"
    and r: "r = capacity_record_of a (handle_volume_id (vi_VolumeHandle v)) v (ve_CapGB x)
      (ve_EffectiveUsedCapacityGB x) (bulk_used_percent x)"
    using assms(2) by (auto simp: volume_record_def bulk_record_def)
  have "wf64 (ve_CapGB x)" "wf64 (ve_EffectiveUsedCapacityGB x)"
    using assms(1) b find_SomeD [OF x] by (auto simp: wf_client_def list_all_iff)
  then show ?thesis
    by (auto simp: r wf_capacity_def capacity_record_of_def bulk_used_percent_def intro!: f64_wf_intros)
next
  case False
  then have "volume_record c a v = legacy_record c a v"
    by (auto simp: volume_record_def split: sum.splits option.splits)
  with assms show ?thesis
    by (auto simp: legacy_record_def wf_capacity_def capacity_record_of_def wf_client_def
        intro!: f64_wf_intros split: sum.splits)
qed

lemma gathered_wf:
  assumes "gathers_capacity m pvs out" and "\<And>a c. GetPowerMaxClient m a = Inr (Some c) \<Longrightarrow> wf_client c a"
    and "r \<in> set out"
  shows "wf_capacity r"
proof -
  have "r \<in># mset out" using assms(3) by simp
  then consider "r = empty_capacity_record" | v where "volume_capacity m v = Some r"
    unfolding capacity_out [OF assms(1)] by (auto simp: in_set_map_filter split: if_splits)
  then show ?thesis
  proof cases
    case 1
    then show ?thesis by (simp add: wf_capacity_def empty_capacity_record_def)
  next
    case (2 v)
    then obtain a c where "GetPowerMaxClient m a = Inr (Some c)" "volume_record c a v = Some r"
      by (auto simp: volume_capacity_def split: option.splits sum.splits)
    then show ?thesis using assms(2) volume_record_wf by blast
  qed
qed

lemma foldl_add_wf: "wf64 x \<Longrightarrow> list_all wf64 ys \<Longrightarrow> wf64 (foldl f64_add x ys)"
  by (induction ys arbitrary: x) (auto intro: f64_add_wf)

lemma group_sum_wf:
  assumes "group_sum rs = Some s" and "list_all wf_capacity rs"
  shows "wf_capacity s"
  using assms
  by (cases rs) (auto simp: group_sum_def wf_capacity_def list_all_iff intro!: foldl_add_wf)

lemma sum_map_wf:
  assumes "list_all wf_capacity rs" and "(k, s) \<in> set (sum_map key rs)"
  shows "wf_capacity s"
proof -
  have "group_sum (filter (\<lambda>r. key r = k) rs) = Some s"
    using assms(2) sum_map_lookup [of key rs k] by (simp add: sum_map_distinct)
  then show ?thesis by (rule group_sum_wf) (use assms(1) in \<open>auto simp: list_all_iff\<close>)
qed

text \<open>The metric families and their label keys.\<close>

definition capacity_schema :: "(string \<times> string list) list" where
  "capacity_schema =
     [(''powermax_volume_'', [''ArrayID'', ''SrpID'', ''StorageGroupID'', ''VolumeID'', ''Driver'',
         ''StorageClass'', ''PersistentVolumeName'', ''PersistentVolumeStatus'',
         ''PersistentVolumeClaimName'', ''Namespace'', ''PlotWithMean'']),
      (''powermax_storage_group_'', [''ArrayID'', ''Driver'', ''StorageGroupID'', ''SrpID'', ''PlotWithMean'']),
      (''powermax_srp_'', [''ArrayID'', ''Driver'', ''SrpID'', ''PlotWithMean'']),
      (''powermax_array_'', [''ArrayID'', ''Driver'', ''PlotWithMean'']),
      (''powermax_storage_class_'', [''ArrayID'', ''Driver'', ''StorageClass'', ''PlotWithMean''])]"

lemma level_tasks_typed:
  assumes "iteration_of (sum_map key rs) m" and "list_all wf_capacity rs"
    and "\<And>r. (p, map fst (lab r)) \<in> set capacity_schema" and "t \<in> set (level_tasks p lab ident m)"
  shows "case fst t of (q, ls, r) \<Rightarrow> wf_capacity r \<and> (q, map fst ls) \<in> set capacity_schema"
  using assms sum_map_wf [OF assms(2)] iteration_of_set [OF assms(1)]
  by (auto simp: level_tasks_def)

text \<open>
  C21. Every call of the recorder is well typed: its prefix is one of the five metric families, its labels
  are exactly the keys of that family, in order, and its total, used and percentage are binary64
  values (sums and quotients included), whenever the numbers of the arrays are.
\<close>

theorem capacity_calls_typed:
  assumes "gathers_capacity m pvs arrivals" and "pushCapacityMetrics rec arrivals (calls, ids)"
    and "\<And>a c. GetPowerMaxClient m a = Inr (Some c) \<Longrightarrow> wf_client c a"
  shows "list_all (\<lambda>(p, ls, r). wf_capacity r \<and> (p, map fst ls) \<in> set capacity_schema) calls"
proof -
  have wf: "list_all wf_capacity arrivals"
    using gathered_wf [OF assms(1,3)] by (auto simp: list_all_iff)
  obtain tasks where t: "push_tasks (capacity_sums_of arrivals) tasks"
    and calls: "mset calls = mset (map fst tasks)"
    using assms(2) by (auto simp: pushCapacityMetrics_def)
  have "case fst u of (p, ls, r) \<Rightarrow> wf_capacity r \<and> (p, map fst ls) \<in> set capacity_schema"
    if "u \<in> set tasks" for u
    using t that unfolding push_tasks_def capacity_sums_of_maps
    by (elim exE conjE) (hypsubst, unfold set_append Un_iff, elim disjE;
      erule (1) level_tasks_typed [OF _ wf, rotated 2], simp add: capacity_schema_def volume_labels_def
        group_labels_def srp_labels_def array_labels_def class_labels_def)
  moreover have "set calls = fst ` set tasks" using mset_eq_setD [OF calls] by simp
  ultimately show ?thesis by (auto simp: list_all_iff)
qed

lemma sample_client_wf: "wf_client sample_client a"
  using f64_of_int_exact [of 8] f64_of_int_exact [of 2]
  by (auto simp: wf_client_def sample_client_def sample_bulk_def f64_of_int_def split: if_splits)

lemma sample_clients_wf:
  "GetPowerMaxClient (sample_base :: base_metrics) a = Inr (Some c) \<Longrightarrow> wf_client c b"
  by (auto simp: GetPowerMaxClient_def sample_base_def sample_array_def sample_client_wf split: if_splits)

theorem capacity_calls_typed_witness:
  "\<exists>calls ids. pushCapacityMetrics sample_recorder
       [capacity_record_of ''0257'' ''00822'' sample_volume (Fin 8) (Fin 2) (bulk_used_percent (hd sample_bulk))]
       (calls, ids) \<and>
     list_all (\<lambda>(p, ls, r). wf_capacity r \<and> (p, map fst ls) \<in> set capacity_schema) calls"
proof -
  obtain out where out: "gathers_capacity (sample_base :: base_metrics) [sample_volume] out"
    using sample_gathers by blast
  have o: "out = [capacity_record_of ''0257'' ''00822'' sample_volume (Fin 8) (Fin 2) (bulk_used_percent (hd sample_bulk))]"
    by (rule sample_capacity_out) (rule capacity_out [OF out])
  obtain calls ids where push: "pushCapacityMetrics sample_recorder out (calls, ids)"
    using push_capacity_exists by (metis prod.collapse)
  from capacity_calls_typed [OF out push sample_clients_wf] push show ?thesis
    unfolding o by (intro exI [of _ calls] exI [of _ ids] conjI)
qed

end
