(* ===== verification/Performance.thy ===== *)
theory Performance
  imports Samples Pipeline Fanout
begin

section \<open>Performance metrics (\<open>internal/service/metric/performance_metrics.go\<close>)\<close>

text \<open>
  One collection groups the persistent volumes by array and storage group, asks every array for the
  measurements of its volumes and, at the same time, for those of its storage groups (all at
  once when enough of the array's groups are monitored, one by one otherwise), and records one
  observation per measurement. The number of storage groups of an array is cached for five minutes.
\<close>

subsection \<open>The bulk threshold\<close>

definition defaultBulkThresholdRatio :: float64 where
  "defaultBulkThresholdRatio = Fin (1 / 4)"

text \<open>
  The package's \<open>init\<close>: \<open>v\<close> is the value of \<open>POWERMAX_BULK_THRESHOLD_RATIO\<close> (empty when unset),
  and \<open>strconv.ParseFloat\<close> is a parameter.
\<close>

definition bulkThresholdRatio :: "(string \<Rightarrow> float64 result) \<Rightarrow> string \<Rightarrow> float64" where
  "bulkThresholdRatio ParseFloat v =
     (if v = [] then defaultBulkThresholdRatio
      else case ParseFloat v of
        Inl err \<Rightarrow> defaultBulkThresholdRatio
      | Inr parsed \<Rightarrow>
          if f64_less parsed f64_zero \<or> f64_less (f64_of_int 1) parsed
          then defaultBulkThresholdRatio else parsed)"

text \<open>\<open>requestedSGs\<close> is the number of monitored groups, \<open>totalSGs\<close> that of all groups.\<close>

definition useBulk :: "float64 \<Rightarrow> int \<Rightarrow> int \<Rightarrow> bool" where
  "useBulk ratio requestedSGs totalSGs \<longleftrightarrow>
     0 < totalSGs \<and> 0 < requestedSGs \<and>
     f64_less ratio (f64_div (f64_of_int requestedSGs) (f64_of_int totalSGs))"

subsection \<open>The cache of storage group counts\<close>

text \<open>Times are nanoseconds. A nil map is \<open>None\<close>.\<close>

record sg_count_entry =
  sce_count :: int
  sce_timestamp :: int

type_synonym sg_cache = "(string \<rightharpoonup> sg_count_entry) option"

definition sgCountCacheTTL :: int where
  "sgCountCacheTTL = 5 * 60 * 1000000000"

definition cache_entry :: "sg_cache \<Rightarrow> string \<Rightarrow> sg_count_entry option" where
  "cache_entry cache arrayID = (case cache of None \<Rightarrow> None | Some m \<Rightarrow> m arrayID)"

definition cache_store :: "sg_cache \<Rightarrow> string \<Rightarrow> sg_count_entry \<Rightarrow> sg_cache" where
  "cache_store cache arrayID entry =
     Some ((case cache of None \<Rightarrow> Map.empty | Some m \<Rightarrow> m)(arrayID \<mapsto> entry))"

text \<open>The clock is read twice: when the age of an entry is checked and when a new one is stored.\<close>

definition getTotalSGCount ::
  "pmax_client \<Rightarrow> string \<Rightarrow> int \<times> int \<Rightarrow> sg_cache \<Rightarrow> int result \<times> sg_cache" where
  "getTotalSGCount client arrayID clock cache =
     (case cache_entry cache arrayID of
        Some entry \<Rightarrow>
          if fst clock - sce_timestamp entry < sgCountCacheTTL then (Inr (sce_count entry), cache)
          else (case GetStorageGroupIDList client arrayID [] False of
                  Inl err \<Rightarrow> (Inl err, cache)
                | Inr ids \<Rightarrow>
                    (Inr (int (length ids)),
                     cache_store cache arrayID
                       \<lparr>sce_count = int (length ids), sce_timestamp = snd clock\<rparr>))
      | None \<Rightarrow>
          (case GetStorageGroupIDList client arrayID [] False of
             Inl err \<Rightarrow> (Inl err, cache)
           | Inr ids \<Rightarrow>
               (Inr (int (length ids)),
                cache_store cache arrayID
                  \<lparr>sce_count = int (length ids), sce_timestamp = snd clock\<rparr>)))"

subsection \<open>Reorganizing the volumes\<close>

text \<open>A \<open>map[string]struct{}\<close> is a list without duplicates.\<close>

definition add_sg :: "string list option \<Rightarrow> volume_info \<Rightarrow> string list" where
  "add_sg sgs volume = (case sgs of
     Some sgs \<Rightarrow> if vi_StorageGroup volume \<in> set sgs then sgs else sgs @ [vi_StorageGroup volume]
   | None \<Rightarrow> [vi_StorageGroup volume])"

definition array2Sgs :: "volume_info list \<Rightarrow> (string \<times> string list) list" where
  "array2Sgs pvs = foldl (\<lambda>m volume.
     case handle_array_id (vi_VolumeHandle volume) of
       None \<Rightarrow> m
     | Some arrayID \<Rightarrow> AList.update arrayID (add_sg (map_of m arrayID) volume) m) [] pvs"

definition volume_key :: "string \<Rightarrow> string \<Rightarrow> string" where
  "volume_key volumeID arrayID = volumeID @ ''='' @ arrayID"

definition id2Volume :: "volume_info list \<Rightarrow> (string \<rightharpoonup> volume_info)" where
  "id2Volume pvs = foldl (\<lambda>m volume.
     case handle_array_id (vi_VolumeHandle volume) of
       None \<Rightarrow> m
     | Some arrayID \<Rightarrow> m(volume_key (handle_volume_id (vi_VolumeHandle volume)) arrayID \<mapsto> volume))
     Map.empty pvs"

subsection \<open>Volume performance\<close>

text \<open>\<open>array2LastAvailTime\<close>: the arrays in the order of the range.\<close>

fun last_avail_loop ::
  "base_metrics \<Rightarrow> (string \<rightharpoonup> int) \<Rightarrow> (string \<times> string list) list \<Rightarrow> (string \<rightharpoonup> int) result" where
  "last_avail_loop m avail [] = Inr avail"
| "last_avail_loop m avail ((arrayID, sgs) # rest) =
     (if avail arrayID \<noteq> None then last_avail_loop m avail rest
      else case GetPowerMaxClient m arrayID of
        Inl err \<Rightarrow> last_avail_loop m avail rest
      | Inr None \<Rightarrow> Inl (Panic ''nil client'')
      | Inr (Some client) \<Rightarrow>
          (case GetArrayPerfKeys client of
             Inl err \<Rightarrow> last_avail_loop m avail rest
           | Inr infos \<Rightarrow>
               last_avail_loop m
                 (foldl (\<lambda>t info. t(ai_SymmetrixID info \<mapsto> ai_LastAvailableDate info)) avail infos)
                 rest))"

definition querySgParams :: "string list \<Rightarrow> string" where
  "querySgParams sgs = foldl (\<lambda>q sgID. q @ sgID @ '','') [] sgs"

definition volume_metrics_query :: "string list" where
  "volume_metrics_query =
     [''MBRead'', ''MBWritten'', ''ReadResponseTime'', ''WriteResponseTime'', ''Reads'', ''Writes'']"

definition vol_perf_record_of ::
  "string \<Rightarrow> string \<Rightarrow> volume_info \<Rightarrow> volume_metric \<Rightarrow> vol_perf_record" where
  "vol_perf_record_of arrayID volumeID volume metric =
     \<lparr>vr_ArrayID = arrayID, vr_VolumeID = volumeID, vr_StorageGroupID = vi_StorageGroup volume,
      vr_StorageClass = vi_StorageClass volume, vr_Driver = vi_Driver volume,
      vr_PersistentVolumeName = vi_PersistentVolume volume,
      vr_PersistentVolumeClaimName = vi_VolumeClaimName volume,
      vr_Namespace = vi_Namespace volume,
      vr_MBRead = vm_MBRead metric, vr_MBWritten = vm_MBWritten metric,
      vr_ReadResponseTime = vm_ReadResponseTime metric,
      vr_WriteResponseTime = vm_WriteResponseTime metric,
      vr_Reads = vm_Reads metric, vr_Writes = vm_Writes metric\<rparr>"

fun volume_result_loop ::
  "string \<Rightarrow> (string \<rightharpoonup> volume_info) \<Rightarrow> vol_perf_record list \<Rightarrow> volume_result list \<Rightarrow>
   vol_perf_record list" where
  "volume_result_loop arrayID ids sent [] = sent"
| "volume_result_loop arrayID ids sent (result # rest) =
     (case ids (volume_key (vres_VolumeID result) arrayID) of
        None \<Rightarrow> volume_result_loop arrayID ids sent rest
      | Some volume \<Rightarrow>
          if str_contains (vres_StorageGroups result) (vi_StorageGroup volume)
          then (case vres_VolumeResult result of
                  [] \<Rightarrow> volume_result_loop arrayID ids sent rest
                | metric # _ \<Rightarrow>
                    volume_result_loop arrayID ids
                      (sent @ [vol_perf_record_of arrayID (vres_VolumeID result) volume metric]) rest)
          else volume_result_loop arrayID ids sent rest)"

definition volume_worker ::
  "base_metrics \<Rightarrow> (string \<rightharpoonup> int) \<Rightarrow> (string \<rightharpoonup> volume_info) \<Rightarrow> string \<times> string list \<Rightarrow>
   vol_perf_record list result" where
  "volume_worker m avail ids task =
     (let arrayID = fst task; sgs = snd task
      in case avail arrayID of
           None \<Rightarrow> Inr []
         | Some t \<Rightarrow>
             (case GetPowerMaxClient m arrayID of
                Inl err \<Rightarrow> Inr []
              | Inr None \<Rightarrow> Inl (Panic ''nil client'')
              | Inr (Some client) \<Rightarrow>
                  (case GetVolumesMetrics client arrayID (querySgParams sgs) volume_metrics_query t t of
                     Inl err \<Rightarrow> Inr []
                   | Inr results \<Rightarrow> Inr (volume_result_loop arrayID ids [] results))))"

definition empty_vol_perf :: vol_perf_record where
  "empty_vol_perf =
     \<lparr>vr_ArrayID = [], vr_VolumeID = [], vr_StorageGroupID = [], vr_StorageClass = [], vr_Driver = [],
      vr_PersistentVolumeName = [], vr_PersistentVolumeClaimName = [], vr_Namespace = [],
      vr_MBRead = f64_zero, vr_MBWritten = f64_zero, vr_ReadResponseTime = f64_zero,
      vr_WriteResponseTime = f64_zero, vr_Reads = f64_zero, vr_Writes = f64_zero\<rparr>"

text \<open>
  The order of one range over the arrays, and within each worker of one range over its storage
  groups.
\<close>

definition nested_iteration ::
  "(string \<times> string list) list \<Rightarrow> (string \<times> string list) list \<Rightarrow> bool" where
  "nested_iteration m ord \<longleftrightarrow>
     (\<exists>ys. iteration_of m ys \<and> list_all2 (\<lambda>x y. fst x = fst y \<and> mset (snd x) = mset (snd y)) ys ord)"

definition gathers_volumes ::
  "base_metrics \<Rightarrow> volume_info list \<Rightarrow> vol_perf_record list \<Rightarrow> bool" where
  "gathers_volumes m pvs out \<longleftrightarrow>
     (\<exists>ord0 avail ord tasks. iteration_of (array2Sgs pvs) ord0 \<and>
        last_avail_loop m Map.empty ord0 = Inr avail \<and>
        nested_iteration (array2Sgs pvs) ord \<and>
        map (volume_worker m avail (id2Volume pvs)) ord = map Inr tasks \<and>
        delivers tasks empty_vol_perf (nat (bm_MaxPowerMaxConnections m)) out)"

subsection \<open>Storage group performance\<close>

definition sg_perf_record_of :: "string \<Rightarrow> string \<Rightarrow> sg_metric \<Rightarrow> sg_perf_record" where
  "sg_perf_record_of arrayID sgID metric =
     \<lparr>sr_ArrayID = arrayID, sr_StorageGroupID = sgID,
      sr_HostMBReads = sm_HostMBReads metric, sr_HostMBWritten = sm_HostMBWritten metric,
      sr_ReadResponseTime = sm_ReadResponseTime metric,
      sr_WriteResponseTime = sm_WriteResponseTime metric,
      sr_HostReads = sm_HostReads metric, sr_HostWrites = sm_HostWrites metric,
      sr_AvgIOSize = sm_AvgIOSize metric\<rparr>"

fun bulk_sg_loop ::
  "string \<Rightarrow> string list \<Rightarrow> sg_perf_record list \<Rightarrow> sg_instance list \<Rightarrow> sg_perf_record list" where
  "bulk_sg_loop arrayID sgs sent [] = sent"
| "bulk_sg_loop arrayID sgs sent (inst # rest) =
     (if si_ID inst \<notin> set sgs then bulk_sg_loop arrayID sgs sent rest
      else bulk_sg_loop arrayID sgs
        (sent @ map (sg_perf_record_of arrayID (si_ID inst)) (si_Metrics inst)) rest)"

text \<open>The records it sends and the boolean it returns; \<open>metricsEmitted\<close> is their number.\<close>

definition collectSGMetricsBulk ::
  "pmax_client \<Rightarrow> string \<Rightarrow> string list \<Rightarrow> sg_perf_record list \<times> bool" where
  "collectSGMetricsBulk client arrayID sgs =
     (case GetStorageGroupMetricsBulk client arrayID of
        Inl err \<Rightarrow> ([], False)
      | Inr None \<Rightarrow> ([], False)
      | Inr (Some instances) \<Rightarrow>
          (let sent = bulk_sg_loop arrayID sgs [] instances; metricsEmitted = length sent
           in if metricsEmitted = 0 \<and> length sgs > 0 then (sent, False) else (sent, True)))"

definition sgPerfMetricsQuery :: "string list" where
  "sgPerfMetricsQuery =
     [''HostMBReads'', ''HostMBWritten'', ''ReadResponseTime'', ''WriteResponseTime'', ''HostReads'',
      ''HostWrites'', ''AvgIOSize'']"

definition storageGroup2LastAvailTime :: "string list \<Rightarrow> sg_info list \<Rightarrow> (string \<rightharpoonup> int)" where
  "storageGroup2LastAvailTime sgs infos = foldl (\<lambda>t info.
     if gi_StorageGroupID info \<in> set sgs then t(gi_StorageGroupID info \<mapsto> gi_LastAvailableDate info)
     else t) Map.empty infos"

fun legacy_sg_loop ::
  "pmax_client \<Rightarrow> string \<Rightarrow> (string \<rightharpoonup> int) \<Rightarrow> sg_perf_record list \<Rightarrow> string list \<Rightarrow>
   sg_perf_record list" where
  "legacy_sg_loop client arrayID avail sent [] = sent"
| "legacy_sg_loop client arrayID avail sent (sgID # rest) =
     (case avail sgID of
        None \<Rightarrow> legacy_sg_loop client arrayID avail sent rest
      | Some t \<Rightarrow>
          (case GetStorageGroupMetrics client arrayID sgID sgPerfMetricsQuery t t of
             Inl sgErr \<Rightarrow> legacy_sg_loop client arrayID avail sent rest
           | Inr results \<Rightarrow>
               legacy_sg_loop client arrayID avail
                 (sent @ map (sg_perf_record_of arrayID sgID) results) rest))"

definition collectSGMetricsLegacy ::
  "pmax_client \<Rightarrow> string \<Rightarrow> string list \<Rightarrow> sg_perf_record list" where
  "collectSGMetricsLegacy client arrayID sgs =
     (case GetStorageGroupPerfKeys client arrayID of
        Inl err \<Rightarrow> []
      | Inr infos \<Rightarrow>
          legacy_sg_loop client arrayID (storageGroup2LastAvailTime sgs infos) [] sgs)"

definition sg_worker ::
  "float64 \<Rightarrow> base_metrics \<Rightarrow> (string \<Rightarrow> int \<times> int) \<Rightarrow> string \<times> string list \<Rightarrow> sg_cache \<Rightarrow>
   sg_perf_record list result \<times> sg_cache" where
  "sg_worker ratio m clock task cache =
     (let arrayID = fst task; sgs = snd task
      in case GetPowerMaxClient m arrayID of
           Inl err \<Rightarrow> (Inr [], cache)
         | Inr None \<Rightarrow> (Inl (Panic ''nil client''), cache)
         | Inr (Some client) \<Rightarrow>
             (case getTotalSGCount client arrayID (clock arrayID) cache of
                (Inl err, cache) \<Rightarrow> (Inr (collectSGMetricsLegacy client arrayID sgs), cache)
              | (Inr totalSGs, cache) \<Rightarrow>
                  let requestedSGs = int (length sgs)
                  in if useBulk ratio requestedSGs totalSGs
                     then (case collectSGMetricsBulk client arrayID sgs of
                             (sent, True) \<Rightarrow> (Inr sent, cache)
                           | (sent, False) \<Rightarrow>
                               (Inr (sent @ collectSGMetricsLegacy client arrayID sgs), cache))
                     else (Inr (collectSGMetricsLegacy client arrayID sgs), cache)))"

definition empty_sg_perf :: sg_perf_record where
  "empty_sg_perf =
     \<lparr>sr_ArrayID = [], sr_StorageGroupID = [], sr_HostMBReads = f64_zero, sr_HostMBWritten = f64_zero,
      sr_ReadResponseTime = f64_zero, sr_WriteResponseTime = f64_zero, sr_HostReads = f64_zero,
      sr_HostWrites = f64_zero, sr_AvgIOSize = f64_zero\<rparr>"

text \<open>
  The workers share the cache. Each reads and writes the entry of its own array only, so running
  their cache accesses one worker after the other, in any order, gives what every interleaving
  gives (lemma \<open>sg_workers_local\<close>).
\<close>

fun sg_workers ::
  "float64 \<Rightarrow> base_metrics \<Rightarrow> (string \<Rightarrow> int \<times> int) \<Rightarrow> (string \<times> string list) list \<Rightarrow> sg_cache \<Rightarrow>
   sg_perf_record list result list \<times> sg_cache" where
  "sg_workers ratio m clock [] cache = ([], cache)"
| "sg_workers ratio m clock (task # rest) cache =
     (let (res, cache) = sg_worker ratio m clock task cache;
          (ress, cache) = sg_workers ratio m clock rest cache
      in (res # ress, cache))"

definition gathers_groups ::
  "float64 \<Rightarrow> base_metrics \<Rightarrow> (string \<Rightarrow> int \<times> int) \<Rightarrow> sg_cache \<Rightarrow> volume_info list \<Rightarrow>
   sg_perf_record list \<Rightarrow> sg_cache \<Rightarrow> bool" where
  "gathers_groups ratio m clock cache pvs out cache' \<longleftrightarrow>
     (\<exists>ord tasks. nested_iteration (array2Sgs pvs) ord \<and>
        sg_workers ratio m clock ord cache = (map Inr tasks, cache') \<and>
        delivers tasks empty_sg_perf (nat (bm_MaxPowerMaxConnections m)) out)"

subsection \<open>Recording\<close>

definition push_volume :: "metrics_recorder \<Rightarrow> vol_perf_record \<Rightarrow> string option" where
  "push_volume rec metric =
     (case RecordVolPerfMetrics rec ''powermax_volume'' metric of
        Inl err \<Rightarrow> None
      | Inr _ \<Rightarrow> Some (vr_VolumeID metric))"

definition pushVolumePerformanceMetrics ::
  "metrics_recorder \<Rightarrow> vol_perf_record list \<Rightarrow> string list \<Rightarrow> bool" where
  "pushVolumePerformanceMetrics rec arrivals out \<longleftrightarrow> stage_delivers (push_volume rec) arrivals out"

definition push_group :: "metrics_recorder \<Rightarrow> sg_perf_record \<Rightarrow> string option" where
  "push_group rec metric =
     (case RecordStorageGroupPerfMetrics rec ''powermax_storage_group'' metric of
        Inl err \<Rightarrow> None
      | Inr _ \<Rightarrow> Some (sr_StorageGroupID metric))"

definition pushStorageGroupPerformanceMetrics ::
  "metrics_recorder \<Rightarrow> sg_perf_record list \<Rightarrow> string list \<Rightarrow> bool" where
  "pushStorageGroupPerformanceMetrics rec arrivals out \<longleftrightarrow> stage_delivers (push_group rec) arrivals out"

text \<open>
  An outcome of a collection: the records the recorder was called with, the IDs that were consumed,
  and the cache as the storage group workers leave it.
\<close>

record performance_out =
  po_volumes :: "vol_perf_record list"
  po_volume_ids :: "string list"
  po_groups :: "sg_perf_record list"
  po_group_ids :: "string list"
  po_cache :: sg_cache

text \<open>
  \<open>Collect\<close>: the volumes and the storage groups are gathered and recorded by two goroutines that
  share nothing but the read-only maps, so an outcome is any pair of their outcomes. A nil recorder
  panics at its first call.
\<close>

inductive performance_Collect ::
  "float64 \<Rightarrow> (string \<Rightarrow> int \<times> int) \<Rightarrow> sg_cache \<Rightarrow>
   base_metrics \<Rightarrow> performance_out result \<Rightarrow> bool"
  for ratio clock cache m where
  find_error: "bm_VolumeFinder m () = Inl err \<Longrightarrow> performance_Collect ratio clock cache m (Inl err)"
| collected: "bm_VolumeFinder m () = Inr pvs \<Longrightarrow> gathers_volumes m pvs vols \<Longrightarrow>
    gathers_groups ratio m clock cache pvs groups cache' \<Longrightarrow> bm_MetricsRecorder m = Some rec \<Longrightarrow>
    pushVolumePerformanceMetrics rec vols vids \<Longrightarrow> pushStorageGroupPerformanceMetrics rec groups gids \<Longrightarrow>
    performance_Collect ratio clock cache m
      (Inr \<lparr>po_volumes = vols, po_volume_ids = vids, po_groups = groups, po_group_ids = gids,
            po_cache = cache'\<rparr>)"
| nothing: "bm_VolumeFinder m () = Inr pvs \<Longrightarrow> gathers_volumes m pvs [] \<Longrightarrow>
    gathers_groups ratio m clock cache pvs [] cache' \<Longrightarrow> bm_MetricsRecorder m = None \<Longrightarrow>
    performance_Collect ratio clock cache m
      (Inr \<lparr>po_volumes = [], po_volume_ids = [], po_groups = [], po_group_ids = [], po_cache = cache'\<rparr>)"
| nil_recorder: "bm_VolumeFinder m () = Inr pvs \<Longrightarrow> gathers_volumes m pvs vols \<Longrightarrow>
    gathers_groups ratio m clock cache pvs groups cache' \<Longrightarrow> vols \<noteq> [] \<or> groups \<noteq> [] \<Longrightarrow>
    bm_MetricsRecorder m = None \<Longrightarrow> performance_Collect ratio clock cache m (Inl (Panic ''nil recorder''))"

inductive_simps performance_Collect_iff: "performance_Collect ratio clock cache m out"

end
