(* ===== verification/Performance_Facts.thy ===== *)
theory Performance_Facts
  imports Performance
begin

section \<open>What a performance collection guarantees\<close>

text \<open>
  Lemmas and properties of theory \<open>Performance\<close>: the grouping of the volumes, the bulk
  threshold, the freshness of the cached counts, the choice between the bulk and the individual
  queries, what the two streams deliver, and the interpretation of the collector interface.
\<close>

subsection \<open>The threshold\<close>

text \<open>
  The configured ratio never leaves [0, 1], with one exception: the text NaN parses without an
  error and passes both range checks, and a NaN ratio turns the bulk endpoint off for good.
\<close>

theorem threshold_range:
  "\<not> f64_less (bulkThresholdRatio P v) f64_zero \<and> \<not> f64_less (f64_of_int 1) (bulkThresholdRatio P v) \<and>
   (bulkThresholdRatio P v = NaN \<longleftrightarrow> v \<noteq> [] \<and> P v = Inr NaN) \<and> \<not> useBulk NaN requestedSGs totalSGs"
  using f64_of_int_exact [of 1]
  by (auto simp: bulkThresholdRatio_def defaultBulkThresholdRatio_def useBulk_def split: sum.splits)

text \<open>
  C28. With the default ratio the bulk endpoint is used exactly when more than a quarter of
  the array's storage groups is monitored; the floating-point quotient decides as the integers would.
\<close>

theorem default_threshold_exact:
  assumes "requestedSGs \<le> 2 ^ 53" and "totalSGs < 2 ^ 53"
  shows "useBulk defaultBulkThresholdRatio requestedSGs totalSGs \<longleftrightarrow>
    0 < requestedSGs \<and> 0 < totalSGs \<and> totalSGs < 4 * requestedSGs"
  using quarter_ratio_exact [of requestedSGs totalSGs] assms
  by (auto simp: useBulk_def defaultBulkThresholdRatio_def)

theorem default_threshold_exact_witness:
  "useBulk defaultBulkThresholdRatio 26 103 \<and> \<not> useBulk defaultBulkThresholdRatio 25 100"
  using default_threshold_exact [of 26 103] default_threshold_exact [of 25 100] by simp

subsection \<open>Grouping\<close>

lemma add_sg_fold:
  "vs \<noteq> [] \<Longrightarrow> \<exists>sgs. foldl (\<lambda>acc r. Some (add_sg acc r)) None vs = Some sgs \<and> distinct sgs \<and>
     set sgs = vi_StorageGroup ` set vs"
proof (induction vs rule: rev_induct)
  case Nil
  then show ?case by simp
next
  case (snoc v vs)
  show ?case
  proof (cases "vs = []")
    case True
    then show ?thesis by (simp add: add_sg_def)
  next
    case False
    with snoc.IH obtain sgs where "foldl (\<lambda>acc r. Some (add_sg acc r)) None vs = Some sgs"
      "distinct sgs" "set sgs = vi_StorageGroup ` set vs" by blast
    then show ?thesis by (auto simp: add_sg_def)
  qed
qed

lemma array2Sgs_fold:
  "map_of (array2Sgs pvs) a = foldl (\<lambda>acc r. Some (add_sg acc r)) None
     (filter (\<lambda>v. handle_array_id (vi_VolumeHandle v) = Some a) pvs)"
  unfolding array2Sgs_def by (rule alist_map.lookup_fill_empty)

lemma array2Sgs_distinct: "distinct (map fst (array2Sgs pvs))"
  unfolding array2Sgs_def by (rule distinct_fill) simp

lemma array2Sgs_Some:
  assumes "map_of (array2Sgs pvs) a = Some sgs"
  shows "distinct sgs" and "set sgs = vi_StorageGroup ` {v \<in> set pvs. handle_array_id (vi_VolumeHandle v) = Some a}"
    and "sgs \<noteq> []"
proof -
  let ?vs = "filter (\<lambda>v. handle_array_id (vi_VolumeHandle v) = Some a) pvs"
  have ne: "?vs \<noteq> []" using assms by (auto simp: array2Sgs_fold)
  with add_sg_fold [OF ne] assms
  have "distinct sgs \<and> set sgs = vi_StorageGroup ` set ?vs" by (simp add: array2Sgs_fold)
  then have d: "distinct sgs" and s: "set sgs = vi_StorageGroup ` set ?vs" by simp_all
  show "distinct sgs" by (rule d)
  show "set sgs = vi_StorageGroup ` {v \<in> set pvs. handle_array_id (vi_VolumeHandle v) = Some a}"
    by (simp add: s)
  have "vi_StorageGroup (hd ?vs) \<in> set sgs" unfolding s using hd_in_set [OF ne] by (rule imageI)
  then show "sgs \<noteq> []" by (cases sgs) simp_all
qed

lemma array2Sgs_None:
  "map_of (array2Sgs pvs) a = None \<longleftrightarrow>
     list_all (\<lambda>v. handle_array_id (vi_VolumeHandle v) \<noteq> Some a) pvs"
proof (cases "filter (\<lambda>v. handle_array_id (vi_VolumeHandle v) = Some a) pvs = []")
  case True
  then show ?thesis by (simp add: array2Sgs_fold) (simp add: filter_empty_conv list_all_iff)
next
  case False
  from add_sg_fold [OF False] have "map_of (array2Sgs pvs) a \<noteq> None"
    by (auto simp: array2Sgs_fold)
  with False show ?thesis by (auto simp: filter_empty_conv list_all_iff)
qed

lemma array2Sgs_mem_iff: "(a, sgs) \<in> set (array2Sgs pvs) \<longleftrightarrow> map_of (array2Sgs pvs) a = Some sgs"
  by (simp add: array2Sgs_distinct)

lemma array2Sgs_Nil_iff:
  "array2Sgs pvs = [] \<longleftrightarrow> list_all (\<lambda>v. handle_array_id (vi_VolumeHandle v) = None) pvs"
proof -
  have "array2Sgs pvs = [] \<longleftrightarrow> (\<forall>a. map_of (array2Sgs pvs) a = None)"
    by (cases "array2Sgs pvs") (auto simp: array2Sgs_distinct map_of_eq_None_iff)
  also have "\<dots> \<longleftrightarrow> list_all (\<lambda>v. handle_array_id (vi_VolumeHandle v) = None) pvs"
    by (auto simp: array2Sgs_None list_all_iff) (metis option.exhaust)
  finally show ?thesis .
qed

text \<open>
  The grouping is exact: an array has an entry when some handle names it, and its entry lists the
  storage groups of its volumes, each once.
\<close>

theorem array_groups_exact:
  "case map_of (array2Sgs pvs) a of
     None \<Rightarrow> list_all (\<lambda>v. handle_array_id (vi_VolumeHandle v) \<noteq> Some a) pvs
   | Some sgs \<Rightarrow> sgs \<noteq> [] \<and> distinct sgs \<and>
       set sgs = vi_StorageGroup ` {v \<in> set pvs. handle_array_id (vi_VolumeHandle v) = Some a}"
proof (cases "map_of (array2Sgs pvs) a")
  case None
  then show ?thesis using array2Sgs_None [of pvs a] by simp
next
  case (Some sgs)
  from array2Sgs_Some [OF Some] show ?thesis by (simp add: Some)
qed

definition volume_key_of :: "volume_info \<Rightarrow> string option" where
  "volume_key_of v = map_option (volume_key (handle_volume_id (vi_VolumeHandle v)))
     (handle_array_id (vi_VolumeHandle v))"

lemma id2Volume_lookup: "id2Volume pvs k = find (\<lambda>v. volume_key_of v = Some k) (rev pvs)"
  unfolding id2Volume_def
  by (induction pvs rule: rev_induct) (auto simp: volume_key_of_def split: option.splits)

lemma volume_key_inj:
  assumes "CHR ''='' \<notin> set a" and "CHR ''='' \<notin> set b"
  shows "volume_key x a = volume_key y b \<longleftrightarrow> x = y \<and> a = b"
proof -
  have "rev (volume_key x a) = rev a @ CHR ''='' # rev x" for x a by (simp add: volume_key_def)
  then show ?thesis
    using sep_append_eq [of "CHR ''=''" "rev a" "rev b" "rev x" "rev y"] assms
    by (metis rev_rev_ident set_rev)
qed

subsection \<open>The two loops over one array's answers\<close>

definition volume_perf_of ::
  "string \<Rightarrow> (string \<rightharpoonup> volume_info) \<Rightarrow> volume_result \<Rightarrow> vol_perf_record option" where
  "volume_perf_of arrayID ids result =
     (case ids (volume_key (vres_VolumeID result) arrayID) of
        None \<Rightarrow> None
      | Some volume \<Rightarrow>
          if str_contains (vres_StorageGroups result) (vi_StorageGroup volume)
          then (case vres_VolumeResult result of
                  [] \<Rightarrow> None
                | metric # _ \<Rightarrow> Some (vol_perf_record_of arrayID (vres_VolumeID result) volume metric))
          else None)"

lemma volume_result_loop_eq:
  "volume_result_loop a ids acc rs = acc @ List.map_filter (volume_perf_of a ids) rs"
  by (induction rs arbitrary: acc)
    (simp_all add: volume_perf_of_def List.map_filter_simps split: option.splits list.splits)

definition bulk_groups :: "pmax_client \<Rightarrow> string \<Rightarrow> string list \<Rightarrow> sg_perf_record list" where
  "bulk_groups client a sgs =
     (case GetStorageGroupMetricsBulk client a of
        Inr (Some instances) \<Rightarrow>
          concat (map (\<lambda>i. map (sg_perf_record_of a (si_ID i)) (si_Metrics i))
            (filter (\<lambda>i. si_ID i \<in> set sgs) instances))
      | _ \<Rightarrow> [])"

lemma bulk_sg_loop_eq:
  "bulk_sg_loop a sgs acc is =
     acc @ concat (map (\<lambda>i. map (sg_perf_record_of a (si_ID i)) (si_Metrics i))
       (filter (\<lambda>i. si_ID i \<in> set sgs) is))"
  by (induction "is" arbitrary: acc) auto

lemma collectSGMetricsBulk_eq:
  "sgs \<noteq> [] \<Longrightarrow> collectSGMetricsBulk client a sgs =
     (bulk_groups client a sgs, bulk_groups client a sgs \<noteq> [])"
  by (simp add: collectSGMetricsBulk_def bulk_groups_def bulk_sg_loop_eq Let_def del: concat_eq_Nil_conv
      split: sum.splits option.splits)

text \<open>The specification of the individual queries: per group, at the last date listed for it.\<close>

definition legacy_group ::
  "pmax_client \<Rightarrow> string \<Rightarrow> sg_info list \<Rightarrow> string \<Rightarrow> sg_perf_record list" where
  "legacy_group client a infos g =
     (case find (\<lambda>i. gi_StorageGroupID i = g) (rev infos) of
        None \<Rightarrow> []
      | Some i \<Rightarrow>
          (case GetStorageGroupMetrics client a g sgPerfMetricsQuery
               (gi_LastAvailableDate i) (gi_LastAvailableDate i) of
             Inl err \<Rightarrow> []
           | Inr results \<Rightarrow> map (sg_perf_record_of a g) results))"

lemma storageGroup2LastAvailTime_lookup:
  "g \<in> set sgs \<Longrightarrow> storageGroup2LastAvailTime sgs infos g =
     map_option gi_LastAvailableDate (find (\<lambda>i. gi_StorageGroupID i = g) (rev infos))"
  unfolding storageGroup2LastAvailTime_def by (induction infos rule: rev_induct) auto

lemma legacy_sg_loop_eq:
  "list_all (\<lambda>g. avail g = map_option gi_LastAvailableDate (find (\<lambda>i. gi_StorageGroupID i = g) (rev infos))) gs \<Longrightarrow>
   legacy_sg_loop client a avail acc gs = acc @ concat (map (legacy_group client a infos) gs)"
  by (induction gs arbitrary: acc) (auto simp: legacy_group_def split: option.splits sum.splits)

lemma collectSGMetricsLegacy_eq:
  "collectSGMetricsLegacy client a sgs =
     (case GetStorageGroupPerfKeys client a of
        Inl err \<Rightarrow> []
      | Inr infos \<Rightarrow> concat (map (legacy_group client a infos) sgs))"
  using legacy_sg_loop_eq [of "storageGroup2LastAvailTime sgs infos" infos sgs client a "[]" for infos]
  by (simp add: collectSGMetricsLegacy_def list_all_iff storageGroup2LastAvailTime_lookup split: sum.splits)

subsection \<open>The cached counts\<close>

lemma cache_entry_store [simp]:
  "cache_entry (cache_store cache a e) b = (if b = a then Some e else cache_entry cache b)"
  by (simp add: cache_entry_def cache_store_def split: option.splits)

lemma getTotalSGCount_frame:
  "b \<noteq> a \<Longrightarrow> cache_entry (snd (getTotalSGCount client a clock cache)) b = cache_entry cache b"
  by (auto simp: getTotalSGCount_def split: option.splits sum.splits)

lemma getTotalSGCount_local:
  "cache_entry cache a = cache_entry cache' a \<Longrightarrow>
     fst (getTotalSGCount client a clock cache) = fst (getTotalSGCount client a clock cache') \<and>
     cache_entry (snd (getTotalSGCount client a clock cache)) a =
       cache_entry (snd (getTotalSGCount client a clock cache')) a"
  by (auto simp: getTotalSGCount_def split: option.splits sum.splits)

text \<open>A request is an array, a client and the two readings of the clock; the cache is shared by all arrays.\<close>

type_synonym count_request = "string \<times> pmax_client \<times> (int \<times> int)"

fun count_run :: "count_request list \<Rightarrow> sg_cache \<Rightarrow> int result list \<times> sg_cache" where
  "count_run [] cache = ([], cache)"
| "count_run ((a, client, clock) # rest) cache =
     (let (r, cache) = getTotalSGCount client a clock cache; (rs, cache) = count_run rest cache
      in (r # rs, cache))"

lemma length_count_run: "length (fst (count_run reqs cache)) = length reqs"
  by (induction reqs cache rule: count_run.induct) (auto simp: Let_def split: prod.splits)

lemma count_run_append:
  "count_run (xs @ ys) cache =
     (let (r, c) = count_run xs cache; (rs, c) = count_run ys c in (r @ rs, c))"
  by (induction xs cache rule: count_run.induct) (auto simp: Let_def split: prod.splits)

definition fetched :: "count_request \<Rightarrow> int \<Rightarrow> bool" where
  "fetched req n \<longleftrightarrow>
     (\<exists>ids. GetStorageGroupIDList (fst (snd req)) (fst req) [] False = Inr ids \<and> n = int (length ids))"

text \<open>Every entry of the cache is the answer of an earlier request for its own array.\<close>

definition cache_justified :: "count_request list \<Rightarrow> sg_cache \<Rightarrow> bool" where
  "cache_justified reqs cache \<longleftrightarrow>
     (\<forall>a e. cache_entry cache a = Some e \<longrightarrow>
        (\<exists>j < length reqs. fst (reqs ! j) = a \<and> fetched (reqs ! j) (sce_count e) \<and>
           snd (snd (snd (reqs ! j))) = sce_timestamp e))"

lemma cache_justified_snoc:
  assumes "cache_justified reqs cache"
  shows "cache_justified (reqs @ [(a, client, clock)]) (snd (getTotalSGCount client a clock cache))"
proof -
  have old: "cache_justified (reqs @ [(a, client, clock)]) cache"
    using assms by (fastforce simp: cache_justified_def nth_append)
  have new: "cache_justified (reqs @ [(a, client, clock)])
      (cache_store cache a \<lparr>sce_count = int (length ids), sce_timestamp = snd clock\<rparr>)"
    if "GetStorageGroupIDList client a [] False = Inr ids" for ids
    using old that unfolding cache_justified_def cache_entry_store
    by (auto simp: fetched_def intro!: exI [of _ "length reqs"])
  show ?thesis using old new by (auto simp: getTotalSGCount_def split: option.splits sum.splits)
qed

lemma count_run_justified: "cache_justified reqs (snd (count_run reqs (Some Map.empty)))"
proof (induction reqs rule: rev_induct)
  case Nil
  then show ?case by (simp add: cache_justified_def cache_entry_def)
next
  case (snoc req reqs)
  obtain a client clock where req: "req = (a, client, clock)" by (cases req)
  show ?case
    using cache_justified_snoc [OF snoc, of a client clock]
    by (simp add: req count_run_append Let_def case_prod_beta)
qed

text \<open>
  C23. A count is never older than five minutes and never that of another array: in any sequence of requests for any arrays that
  share the cache, every count a request returns was either fetched by that very request, or by an earlier one for the same
  array whose answer was stored less than the TTL before the request; a failed fetch is reported and never cached.
\<close>

theorem count_fresh:
  assumes "i < length reqs" and "fst (count_run reqs (Some Map.empty)) ! i = Inr n"
  shows "fetched (reqs ! i) n \<or>
    (\<exists>j < i. fst (reqs ! j) = fst (reqs ! i) \<and> fetched (reqs ! j) n \<and>
       fst (snd (snd (reqs ! i))) - snd (snd (snd (reqs ! j))) < sgCountCacheTTL)"
proof -
  obtain a client clock where ri: "reqs ! i = (a, client, clock)" by (cases "reqs ! i")
  let ?cache = "snd (count_run (take i reqs) (Some Map.empty))"
  have split: "reqs = take i reqs @ (a, client, clock) # drop (Suc i) reqs"
    using id_take_nth_drop [OF assms(1)] ri by simp
  have "fst (count_run reqs (Some Map.empty)) ! i = fst (getTotalSGCount client a clock ?cache)"
    using length_count_run [of "take i reqs" "Some Map.empty"] assms(1)
    by (subst split) (simp add: count_run_append Let_def nth_append case_prod_beta)
  then have r: "fst (getTotalSGCount client a clock ?cache) = Inr n" using assms(2) by simp
  show ?thesis
  proof (cases "\<exists>e. cache_entry ?cache a = Some e \<and> fst clock - sce_timestamp e < sgCountCacheTTL \<and> sce_count e = n")
    case True
    with count_run_justified [of "take i reqs"] assms(1) obtain j where
      "j < i" "fst (reqs ! j) = a" "fetched (reqs ! j) n" "fst clock - snd (snd (snd (reqs ! j))) < sgCountCacheTTL"
      by (fastforce simp: cache_justified_def)
    then show ?thesis using ri by auto
  next
    case False
    with r have "fetched (a, client, clock) n"
      by (auto simp: getTotalSGCount_def fetched_def split: option.splits sum.splits if_splits)
    then show ?thesis using ri by simp
  qed
qed

text \<open>A second array between two requests for the first; its client does not answer.\<close>

theorem count_fresh_witness:
  "let silent = sample_client\<lparr>GetStorageGroupIDList := \<lambda>_ _ _. Inl (Err ''unreachable'')\<rparr>;
       reqs = [(''0257'', sample_client, (0, 0)), (''0258'', sample_client, (30, 30)), (''0257'', silent, (60, 60))]
   in \<not> fetched (reqs ! 2) 2 \<and>
     (\<exists>j < 2. fst (reqs ! j) = ''0257'' \<and> fetched (reqs ! j) 2 \<and> 60 - snd (snd (snd (reqs ! j))) < sgCountCacheTTL)"
proof -
  let ?silent = "sample_client\<lparr>GetStorageGroupIDList := \<lambda>_ _ _. Inl (Err ''unreachable'')\<rparr>"
  let ?reqs = "[(''0257'', sample_client, (0, 0)), (''0258'', sample_client, (30, 30)), (''0257'', ?silent, (60, 60))]
    :: count_request list"
  have "fst (count_run ?reqs (Some Map.empty)) ! 2 = Inr 2"
    by (simp add: getTotalSGCount_def cache_entry_def cache_store_def sample_client_def sgCountCacheTTL_def)
  moreover have "\<not> fetched (?reqs ! 2) 2" by (simp add: fetched_def)
  ultimately show ?thesis using count_fresh [of 2 ?reqs 2] by (simp add: Let_def)
qed

subsection \<open>The strategy of a storage group worker\<close>

definition legacy_groups :: "pmax_client \<Rightarrow> string \<Rightarrow> string list \<Rightarrow> sg_perf_record list" where
  "legacy_groups client a sgs =
     (case GetStorageGroupPerfKeys client a of
        Inl err \<Rightarrow> []
      | Inr infos \<Rightarrow> concat (map (legacy_group client a infos) sgs))"

definition bulk_wanted :: "float64 \<Rightarrow> int result \<Rightarrow> string list \<Rightarrow> bool" where
  "bulk_wanted ratio cnt sgs =
     (case cnt of Inl err \<Rightarrow> False | Inr n \<Rightarrow> useBulk ratio (int (length sgs)) n)"

lemma sg_worker_client:
  assumes "GetPowerMaxClient m a = Inr (Some client)"
  shows "fst (sg_worker ratio m clock (a, sgs) cache) =
    Inr (if bulk_wanted ratio (fst (getTotalSGCount client a (clock a) cache)) sgs \<and>
            bulk_groups client a sgs \<noteq> []
         then bulk_groups client a sgs else legacy_groups client a sgs)"
proof (cases "getTotalSGCount client a (clock a) cache")
  case (Pair r c)
  show ?thesis
  proof (cases r)
    case (Inl e)
    then show ?thesis
      using assms Pair by (simp add: sg_worker_def bulk_wanted_def legacy_groups_def collectSGMetricsLegacy_eq)
  next
    case (Inr n)
    show ?thesis
    proof (cases "useBulk ratio (int (length sgs)) n")
      case True
      then have "sgs \<noteq> []" by (auto simp: useBulk_def)
      then show ?thesis
        using assms Pair Inr True
        by (simp add: sg_worker_def bulk_wanted_def legacy_groups_def collectSGMetricsLegacy_eq
            collectSGMetricsBulk_eq Let_def split: bool.splits)
    next
      case False
      then show ?thesis
        using assms Pair Inr
        by (simp add: sg_worker_def bulk_wanted_def legacy_groups_def collectSGMetricsLegacy_eq Let_def)
    qed
  qed
qed

lemma sg_worker_cache:
  "snd (sg_worker ratio m clock task cache) =
     (case GetPowerMaxClient m (fst task) of
        Inr (Some client) \<Rightarrow> snd (getTotalSGCount client (fst task) (clock (fst task)) cache)
      | _ \<Rightarrow> cache)"
  by (auto simp: sg_worker_def Let_def split: sum.splits option.splits prod.splits bool.splits)

text \<open>
  C22. A worker's records are either all from the bulk endpoint or all from the individual
  queries, never a mixture with duplicates: the bulk records are used when the count calls for them
  and there is at least one, and everything else (no count, few groups, a failed, nil or empty bulk
  answer) falls back to the individual queries.
\<close>

theorem sg_strategy:
  assumes "GetPowerMaxClient m a = Inr (Some client)"
  shows "fst (sg_worker ratio m clock (a, sgs) cache) =
    Inr (if bulk_wanted ratio (fst (getTotalSGCount client a (clock a) cache)) sgs \<and>
            bulk_groups client a sgs \<noteq> []
         then bulk_groups client a sgs else legacy_groups client a sgs)"
  using assms by (rule sg_worker_client)

theorem sg_strategy_witness:
  "fst (sg_worker (Fin (1 / 4)) (sample_base :: base_metrics) (\<lambda>_. (0, 0)) (''0257'', [''sg1'']) None) =
     Inr (if bulk_wanted (Fin (1 / 4)) (fst (getTotalSGCount sample_client ''0257'' (0, 0) None)) [''sg1''] \<and>
            bulk_groups sample_client ''0257'' [''sg1''] \<noteq> []
          then bulk_groups sample_client ''0257'' [''sg1''] else legacy_groups sample_client ''0257'' [''sg1''])"
  by (rule sg_strategy) (rule sample_client_found)

lemma sg_worker_frame:
  "b \<noteq> fst task \<Longrightarrow> cache_entry (snd (sg_worker ratio m clock task cache)) b = cache_entry cache b"
  by (simp add: sg_worker_cache getTotalSGCount_frame split: sum.splits option.splits)

lemma sg_worker_local:
  assumes "cache_entry cache (fst task) = cache_entry cache' (fst task)"
  shows "fst (sg_worker ratio m clock task cache) = fst (sg_worker ratio m clock task cache')"
proof (cases "\<exists>client. GetPowerMaxClient m (fst task) = Inr (Some client)")
  case True
  then obtain client where "GetPowerMaxClient m (fst task) = Inr (Some client)" by blast
  then show ?thesis
    using getTotalSGCount_local [OF assms, of client "clock (fst task)"]
      sg_worker_client [of m "fst task" client ratio clock "snd task"] by simp
next
  case False
  then show ?thesis by (auto simp: sg_worker_def Let_def split: sum.splits option.splits)
qed

lemma sg_workers_local:
  "distinct (map fst ord) \<Longrightarrow>
   fst (sg_workers ratio m clock ord cache) = map (\<lambda>t. fst (sg_worker ratio m clock t cache)) ord"
proof (induction ord arbitrary: cache)
  case Nil
  then show ?case by simp
next
  case (Cons t ord)
  let ?cache = "snd (sg_worker ratio m clock t cache)"
  have "fst (sg_worker ratio m clock u ?cache) = fst (sg_worker ratio m clock u cache)"
    if "u \<in> set ord" for u
  proof -
    have "fst u \<noteq> fst t" using Cons.prems that by (metis (no_types) distinct.simps(2) image_eqI list.set_map list.simps(9))
    then show ?thesis by (intro sg_worker_local) (rule sg_worker_frame)
  qed
  then have "map (\<lambda>u. fst (sg_worker ratio m clock u ?cache)) ord =
      map (\<lambda>u. fst (sg_worker ratio m clock u cache)) ord" by simp
  moreover have "fst (sg_workers ratio m clock ord ?cache) =
      map (\<lambda>u. fst (sg_worker ratio m clock u ?cache)) ord"
    using Cons.prems by (intro Cons.IH) simp
  ultimately show ?case by (simp add: Let_def case_prod_beta)
qed

subsection \<open>What the streams deliver\<close>

lemma nested_iteration_elem:
  assumes "nested_iteration m ord" and "(a, gs) \<in> set ord"
  shows "\<exists>hs. (a, hs) \<in> set m \<and> mset hs = mset gs"
proof -
  obtain ys where ys: "iteration_of m ys" "list_all2 (\<lambda>x y. fst x = fst y \<and> mset (snd x) = mset (snd y)) ys ord"
    using assms(1) by (auto simp: nested_iteration_def)
  from assms(2) obtain i where "i < length ord" "ord ! i = (a, gs)" by (auto simp: in_set_conv_nth)
  with ys(2) have i: "i < length ys" "fst (ys ! i) = a" "mset (snd (ys ! i)) = mset gs"
    by (auto simp: list_all2_conv_all_nth)
  then have "(a, snd (ys ! i)) \<in> set ys" by (metis nth_mem prod.collapse)
  with i(3) iteration_of_set [OF ys(1)] show ?thesis by auto
qed

lemma nested_iteration_length: "nested_iteration m ord \<Longrightarrow> length ord = length m"
  unfolding nested_iteration_def using list_all2_lengthD iteration_of_length by fastforce

lemma nested_iteration_refl: "nested_iteration m m"
  unfolding nested_iteration_def by (intro exI [of _ m]) (simp add: list.rel_refl)

lemma nested_iteration_keys:
  assumes "nested_iteration m ord" and "distinct (map fst m)"
  shows "distinct (map fst ord)"
proof -
  obtain ys where ys: "iteration_of m ys" "list_all2 (\<lambda>x y. fst x = fst y \<and> mset (snd x) = mset (snd y)) ys ord"
    using assms(1) by (auto simp: nested_iteration_def)
  from ys(2) have "map fst ys = map fst ord" by (induction rule: list_all2_induct) simp_all
  then show ?thesis using iteration_of_distinct [OF ys(1) assms(2)] by simp
qed

lemma volume_perf_of_SomeD:
  "volume_perf_of a ids result = Some r \<Longrightarrow>
     \<exists>volume metric. ids (volume_key (vres_VolumeID result) a) = Some volume \<and>
       r = vol_perf_record_of a (vres_VolumeID result) volume metric"
  by (auto simp: volume_perf_of_def split: option.splits if_splits list.splits)

lemma volume_worker_Inr:
  assumes "volume_worker m avail ids (a, sgs) = Inr rs" and "r \<in> set rs"
  shows "\<exists>(result :: volume_result) volume metric. ids (volume_key (vres_VolumeID result) a) = Some volume \<and>
    r = vol_perf_record_of a (vres_VolumeID result) volume metric"
proof -
  obtain results where "rs = List.map_filter (volume_perf_of a ids) results"
    using assms by (auto simp: volume_worker_def Let_def volume_result_loop_eq
        split: option.splits sum.splits)
  with assms(2) obtain result where "volume_perf_of a ids result = Some r"
    by (auto simp: in_set_map_filter)
  from volume_perf_of_SomeD [OF this] show ?thesis by (rule exI)
qed

lemma gathers_volumes_source:
  assumes "gathers_volumes m pvs out" and "r \<in> set out" and "r \<noteq> empty_vol_perf"
  shows "\<exists>volume metric sgs. volume \<in> set pvs \<and>
    volume_key_of volume = Some (volume_key (vr_VolumeID r) (vr_ArrayID r)) \<and>
    r = vol_perf_record_of (vr_ArrayID r) (vr_VolumeID r) volume metric \<and>
    (vr_ArrayID r, sgs) \<in> set (array2Sgs pvs)"
proof -
  obtain avail ord tasks where ord: "nested_iteration (array2Sgs pvs) ord"
    and tasks: "map (volume_worker m avail (id2Volume pvs)) ord = map Inr tasks"
    and out: "delivers tasks empty_vol_perf (nat (bm_MaxPowerMaxConnections m)) out"
    using assms(1) by (auto simp: gathers_volumes_def)
  have "set_mset (mset out) \<subseteq> insert empty_vol_perf (set (concat tasks))"
    unfolding delivers_mset [OF out] expected_def by auto
  with assms(2,3) obtain rs where rs: "rs \<in> set tasks" "r \<in> set rs" by auto
  from rs(1) have "Inr rs \<in> set (map (volume_worker m avail (id2Volume pvs)) ord)"
    unfolding tasks by simp
  then obtain a sgs where task: "(a, sgs) \<in> set ord" "volume_worker m avail (id2Volume pvs) (a, sgs) = Inr rs"
    by auto
  obtain result :: volume_result and volume metric where v: "id2Volume pvs (volume_key (vres_VolumeID result) a) = Some volume"
    "r = vol_perf_record_of a (vres_VolumeID result) volume metric"
    using volume_worker_Inr [OF task(2) rs(2)] by blast
  have "volume \<in> set pvs" "volume_key_of volume = Some (volume_key (vres_VolumeID result) a)"
    using find_SomeD [OF v(1) [unfolded id2Volume_lookup]] by simp_all
  moreover have "vr_ArrayID r = a" "vr_VolumeID r = vres_VolumeID result"
    using v(2) by (simp_all add: vol_perf_record_of_def)
  moreover obtain hs where "(a, hs) \<in> set (array2Sgs pvs)"
    using nested_iteration_elem [OF ord task(1)] by blast
  ultimately show ?thesis using v(2) by metis
qed

text \<open>No array ID of a volume contains the separator of the volume keys.\<close>

definition keys_unambiguous :: "volume_info list \<Rightarrow> bool" where
  "keys_unambiguous pvs \<longleftrightarrow> list_all (\<lambda>v. case handle_array_id (vi_VolumeHandle v) of
     None \<Rightarrow> True | Some a \<Rightarrow> CHR ''='' \<notin> set a) pvs"

lemma volume_source:
  assumes "gathers_volumes m pvs out" and "keys_unambiguous pvs" and "r \<in> set out"
    and "r \<noteq> empty_vol_perf"
  shows "\<exists>volume metric. volume \<in> set pvs \<and>
    handle_volume_id (vi_VolumeHandle volume) = vr_VolumeID r \<and>
    handle_array_id (vi_VolumeHandle volume) = Some (vr_ArrayID r) \<and>
    r = vol_perf_record_of (vr_ArrayID r) (vr_VolumeID r) volume metric"
proof -
  obtain volume metric sgs where v: "volume \<in> set pvs"
    "volume_key_of volume = Some (volume_key (vr_VolumeID r) (vr_ArrayID r))"
    "r = vol_perf_record_of (vr_ArrayID r) (vr_VolumeID r) volume metric"
    and a: "(vr_ArrayID r, sgs) \<in> set (array2Sgs pvs)"
    using gathers_volumes_source [OF assms(1,3,4)] by blast
  have "\<exists>w\<in>set pvs. handle_array_id (vi_VolumeHandle w) = Some (vr_ArrayID r)"
    using a array2Sgs_None [of pvs "vr_ArrayID r"] by (auto simp: array2Sgs_mem_iff list_all_iff)
  then have "CHR ''='' \<notin> set (vr_ArrayID r)"
    using assms(2) by (fastforce simp: keys_unambiguous_def list_all_iff)
  moreover obtain b where b: "handle_array_id (vi_VolumeHandle volume) = Some b"
    "volume_key (handle_volume_id (vi_VolumeHandle volume)) b = volume_key (vr_VolumeID r) (vr_ArrayID r)"
    using v(2) by (auto simp: volume_key_of_def)
  moreover have "CHR ''='' \<notin> set b"
    using assms(2) v(1) b(1) by (fastforce simp: keys_unambiguous_def list_all_iff)
  ultimately have "handle_volume_id (vi_VolumeHandle volume) = vr_VolumeID r" "b = vr_ArrayID r"
    by (simp_all add: volume_key_inj)
  with b(1) v show ?thesis by blast
qed

text \<open>
  C10. Every measurement delivered for a volume belongs to a persistent volume of this collection: the
  volume whose handle names that volume on that array, with that volume's labels; the only other
  record is the empty one. Array identifiers are without the equals sign that the keys of the volumes are joined with.
\<close>

theorem volume_records_sound:
  assumes "gathers_volumes m pvs out" and "keys_unambiguous pvs"
  shows "list_all (\<lambda>r. r = empty_vol_perf \<or> list_ex (\<lambda>volume.
      handle_volume_id (vi_VolumeHandle volume) = vr_VolumeID r \<and>
      handle_array_id (vi_VolumeHandle volume) = Some (vr_ArrayID r) \<and>
      vr_StorageGroupID r = vi_StorageGroup volume \<and> vr_StorageClass r = vi_StorageClass volume \<and>
      vr_PersistentVolumeName r = vi_PersistentVolume volume \<and>
      vr_PersistentVolumeClaimName r = vi_VolumeClaimName volume \<and>
      vr_Namespace r = vi_Namespace volume) pvs) out"
  unfolding list_all_iff
proof (intro ballI)
  fix r assume r: "r \<in> set out"
  show "r = empty_vol_perf \<or> list_ex (\<lambda>volume.
      handle_volume_id (vi_VolumeHandle volume) = vr_VolumeID r \<and>
      handle_array_id (vi_VolumeHandle volume) = Some (vr_ArrayID r) \<and>
      vr_StorageGroupID r = vi_StorageGroup volume \<and> vr_StorageClass r = vi_StorageClass volume \<and>
      vr_PersistentVolumeName r = vi_PersistentVolume volume \<and>
      vr_PersistentVolumeClaimName r = vi_VolumeClaimName volume \<and>
      vr_Namespace r = vi_Namespace volume) pvs"
  proof (cases "r = empty_vol_perf")
    case False
    obtain volume metric where v: "volume \<in> set pvs"
      "handle_volume_id (vi_VolumeHandle volume) = vr_VolumeID r"
      "handle_array_id (vi_VolumeHandle volume) = Some (vr_ArrayID r)"
      "r = vol_perf_record_of (vr_ArrayID r) (vr_VolumeID r) volume metric"
      using volume_source [OF assms r False] by blast
    from v(4) have "vr_StorageGroupID r = vi_StorageGroup volume" "vr_StorageClass r = vi_StorageClass volume"
      "vr_PersistentVolumeName r = vi_PersistentVolume volume"
      "vr_PersistentVolumeClaimName r = vi_VolumeClaimName volume" "vr_Namespace r = vi_Namespace volume"
      by (metis vol_perf_record_of_def vol_perf_record.select_convs)+
    with v show ?thesis by (auto simp: list_ex_iff)
  qed simp
qed

text \<open>And nothing the arrays report for a volume of the cluster is lost.\<close>

lemma last_avail_grows:
  "last_avail_loop m avail ord = Inr avail' \<Longrightarrow> avail a \<noteq> None \<Longrightarrow> avail' a \<noteq> None"
proof (induction m avail ord rule: last_avail_loop.induct)
  case (2 m avail i sgs rest)
  have fold_dom: "foldl (\<lambda>t info. t(ai_SymmetrixID info \<mapsto> ai_LastAvailableDate info)) t infos a \<noteq> None"
    if "t a \<noteq> None" for t and infos :: "array_info list"
    using that by (induction infos arbitrary: t) auto
  from 2 show ?case using fold_dom by (auto split: if_splits sum.splits option.splits)
qed simp

lemma last_avail_found:
  assumes "last_avail_loop m avail ord = Inr avail'" and "a \<in> fst ` set ord"
    and "GetPowerMaxClient m a = Inr (Some c)" and "GetArrayPerfKeys c = Inr infos"
    and "a \<in> ai_SymmetrixID ` set infos"
  shows "avail' a \<noteq> None"
  using assms(1,2)
proof (induction ord arbitrary: avail)
  case (Cons t rest)
  obtain i sgs where t: "t = (i, sgs)" by (cases t)
  have fold_hit: "foldl (\<lambda>t info. t(ai_SymmetrixID info \<mapsto> ai_LastAvailableDate info)) t infos a \<noteq> None" for t
    using assms(5) by (induction infos arbitrary: t rule: rev_induct) auto
  show ?case
  proof (cases "i = a \<and> avail a = None")
    case True
    then have "last_avail_loop m
        (foldl (\<lambda>t info. t(ai_SymmetrixID info \<mapsto> ai_LastAvailableDate info)) avail infos) rest = Inr avail'"
      using Cons.prems(1) assms(3,4) by (simp add: t)
    then show ?thesis using fold_hit by (rule last_avail_grows)
  next
    case False
    show ?thesis
    proof (cases "avail a")
      case None
      with False have "a \<in> fst ` set rest" using Cons.prems(2) by (auto simp: t)
      then show ?thesis
        using Cons.IH Cons.prems(1) by (auto simp: t split: if_splits sum.splits option.splits)
    next
      case (Some u)
      then show ?thesis using last_avail_grows [OF Cons.prems(1), of a] by simp
    qed
  qed
qed simp

lemma nested_iteration_key:
  assumes "nested_iteration m ord" and "(a, gs) \<in> set m"
  shows "\<exists>hs. (a, hs) \<in> set ord"
proof -
  obtain ys where ys: "iteration_of m ys" "list_all2 (\<lambda>x y. fst x = fst y \<and> mset (snd x) = mset (snd y)) ys ord"
    using assms(1) by (auto simp: nested_iteration_def)
  have "(a, gs) \<in> set ys" using assms(2) iteration_of_set [OF ys(1)] by simp
  then obtain i where "i < length ys" "ys ! i = (a, gs)" by (auto simp: in_set_conv_nth)
  then have "i < length ord" "fst (ord ! i) = a" using ys(2) by (auto simp: list_all2_conv_all_nth)
  then show ?thesis by (metis nth_mem prod.collapse)
qed

lemma id2Volume_unique:
  assumes "keys_unambiguous pvs" and "v \<in> set pvs" and "handle_array_id (vi_VolumeHandle v) = Some a"
    and "\<And>w. w \<in> set pvs \<Longrightarrow> handle_array_id (vi_VolumeHandle w) = Some a \<Longrightarrow>
      handle_volume_id (vi_VolumeHandle w) = handle_volume_id (vi_VolumeHandle v) \<Longrightarrow> w = v"
  shows "id2Volume pvs (volume_key (handle_volume_id (vi_VolumeHandle v)) a) = Some v"
proof -
  let ?k = "volume_key (handle_volume_id (vi_VolumeHandle v)) a"
  have free: "CHR ''='' \<notin> set b" if "w \<in> set pvs" "handle_array_id (vi_VolumeHandle w) = Some b" for w b
    using assms(1) that by (fastforce simp: keys_unambiguous_def list_all_iff)
  have same: "w = v" if w: "w \<in> set pvs" and k: "volume_key_of w = Some ?k" for w
  proof -
    obtain b where b: "handle_array_id (vi_VolumeHandle w) = Some b"
      "volume_key (handle_volume_id (vi_VolumeHandle w)) b = ?k"
      using k by (auto simp: volume_key_of_def)
    then have "handle_volume_id (vi_VolumeHandle w) = handle_volume_id (vi_VolumeHandle v)" "b = a"
      using volume_key_inj free [OF w b(1)] free [OF assms(2,3)] by blast+
    then show ?thesis using assms(4) w b(1) by blast
  qed
  have "find (\<lambda>w. volume_key_of w = Some ?k) (rev pvs) \<noteq> None"
    using assms(2,3) by (auto simp: find_None_filter filter_empty_conv volume_key_of_def)
  then obtain w where w: "find (\<lambda>w. volume_key_of w = Some ?k) (rev pvs) = Some w" by blast
  then have "w = v" using find_SomeD [OF w] same by auto
  with w show ?thesis by (simp add: id2Volume_lookup)
qed

text \<open>
  The dates that some array's performance keys give for array \<open>a\<close>, and an answer of the array for a volume: an entry that
  names the volume's storage group and holds a measurement. The query lists the storage groups, each followed by a comma.
\<close>

definition reported_date :: "base_metrics \<Rightarrow> string \<Rightarrow> int \<Rightarrow> bool" where
  "reported_date m a t \<longleftrightarrow>
     (\<exists>b client infos info. GetPowerMaxClient m b = Inr (Some client) \<and> GetArrayPerfKeys client = Inr infos \<and>
        info \<in> set infos \<and> ai_SymmetrixID info = a \<and> ai_LastAvailableDate info = t)"

definition volume_answer ::
  "pmax_client \<Rightarrow> string \<Rightarrow> string list \<Rightarrow> int \<Rightarrow> volume_info \<Rightarrow> volume_metric \<Rightarrow> bool" where
  "volume_answer client a groups t v metric \<longleftrightarrow>
     (\<exists>results result rest. GetVolumesMetrics client a (concat (map (\<lambda>g. g @ '','') groups))
          [''MBRead'', ''MBWritten'', ''ReadResponseTime'', ''WriteResponseTime'', ''Reads'', ''Writes''] t t = Inr results \<and>
        result \<in> set results \<and> vres_VolumeID result = handle_volume_id (vi_VolumeHandle v) \<and>
        str_contains (vres_StorageGroups result) (vi_StorageGroup v) \<and> vres_VolumeResult result = metric # rest)"

lemma querySgParams_concat: "querySgParams sgs = concat (map (\<lambda>g. g @ '','') sgs)"
proof -
  have "foldl (\<lambda>q sgID. q @ sgID @ '','') q sgs = q @ concat (map (\<lambda>g. g @ '','') sgs)" for q
    by (induction sgs arbitrary: q) simp_all
  then show ?thesis by (simp add: querySgParams_def)
qed

lemma last_avail_reported:
  "last_avail_loop m avail ord = Inr avail' \<Longrightarrow> (\<And>b u. avail b = Some u \<Longrightarrow> reported_date m b u) \<Longrightarrow>
   avail' a = Some t \<Longrightarrow> reported_date m a t"
proof (induction ord arbitrary: avail)
  case (Cons task rest)
  obtain i sgs where task: "task = (i, sgs)" by (cases task)
  have fold: "reported_date m b u"
    if "GetPowerMaxClient m i = Inr (Some client)" "GetArrayPerfKeys client = Inr infos" "set xs \<subseteq> set infos"
      "foldl (\<lambda>t info. t(ai_SymmetrixID info \<mapsto> ai_LastAvailableDate info)) avail xs b = Some u"
    for client infos xs b u
    using that(3,4)
  proof (induction xs rule: rev_induct)
    case Nil
    then show ?case using Cons.prems(2) by simp
  next
    case (snoc x xs)
    then show ?case using that(1,2) by (auto simp: reported_date_def split: if_splits)
  qed
  consider "last_avail_loop m avail rest = Inr avail'"
    | client infos where "GetPowerMaxClient m i = Inr (Some client)" "GetArrayPerfKeys client = Inr infos"
      "last_avail_loop m (foldl (\<lambda>t info. t(ai_SymmetrixID info \<mapsto> ai_LastAvailableDate info)) avail infos) rest = Inr avail'"
    using Cons.prems(1) by (auto simp: task split: if_splits sum.splits option.splits)
  then show ?case
  proof cases
    case 1
    then show ?thesis using Cons.IH Cons.prems(2,3) by blast
  next
    case 2
    show ?thesis by (rule Cons.IH [OF 2(3) _ Cons.prems(3)]) (rule fold [OF 2(1,2) order_refl])
  qed
qed simp

lemma nested_iteration_groups:
  assumes "nested_iteration (array2Sgs pvs) ord" and "(a, gs) \<in> set ord"
  shows "distinct gs \<and> set gs = vi_StorageGroup ` {w \<in> set pvs. handle_array_id (vi_VolumeHandle w) = Some a}"
proof -
  obtain ys where ys: "iteration_of (array2Sgs pvs) ys" "list_all2 (\<lambda>x y. fst x = fst y \<and> mset (snd x) = mset (snd y)) ys ord"
    using assms(1) by (auto simp: nested_iteration_def)
  obtain i where i: "i < length ord" "ord ! i = (a, gs)" using assms(2) by (auto simp: in_set_conv_nth)
  then obtain sgs where sgs: "ys ! i = (a, sgs)" "mset sgs = mset gs" "i < length ys"
    using ys(2) by (cases "ys ! i") (auto simp: list_all2_conv_all_nth)
  then have "(a, sgs) \<in> set (array2Sgs pvs)" using iteration_of_set [OF ys(1)] by (metis nth_mem)
  then have "distinct sgs \<and> set sgs = vi_StorageGroup ` {w \<in> set pvs. handle_array_id (vi_VolumeHandle w) = Some a}"
    using array_groups_exact [where pvs = pvs and a = a] by (simp add: array2Sgs_mem_iff)
  then show ?thesis using sgs(2) by (metis mset_eq_imp_distinct_iff mset_eq_setD)
qed

lemma volume_worker_answer:
  assumes "volume_worker m avail (id2Volume pvs) (a, gs) = Inr rs" and "avail a = Some t"
    and "GetPowerMaxClient m a = Inr (Some c)" and "volume_answer c a gs t v metric"
    and "id2Volume pvs (volume_key (handle_volume_id (vi_VolumeHandle v)) a) = Some v"
  shows "vol_perf_record_of a (handle_volume_id (vi_VolumeHandle v)) v metric \<in> set rs"
proof -
  obtain results result rest where q: "GetVolumesMetrics c a (querySgParams gs) volume_metrics_query t t = Inr results"
    and r: "result \<in> set results" "vres_VolumeID result = handle_volume_id (vi_VolumeHandle v)"
      "str_contains (vres_StorageGroups result) (vi_StorageGroup v)" "vres_VolumeResult result = metric # rest"
    using assms(4) unfolding volume_answer_def querySgParams_concat volume_metrics_query_def by blast
  have "volume_perf_of a (id2Volume pvs) result =
      Some (vol_perf_record_of a (handle_volume_id (vi_VolumeHandle v)) v metric)"
    by (simp add: volume_perf_of_def r assms(5))
  then show ?thesis
    using assms(1-3) q r(1)
    by (auto simp: volume_worker_def Let_def volume_result_loop_eq in_set_map_filter intro!: bexI [of _ result])
qed

text \<open>
  C11. No volume of the cluster that its array measures is lost. Let a volume be the only one with the identifiers of its handle, its
  array have a live client whose performance keys list the array, and that client answer the query for exactly the
  storage groups of the cluster's volumes on the array, in any order, at any date that some array reported for
  it, with an entry for the volume that names its storage group and holds a measurement. Then, whatever the
  iteration orders and the schedule, the record of the first measurement of such an answer is sent.
\<close>

theorem volume_records_complete:
  assumes "gathers_volumes m pvs out" and "keys_unambiguous pvs"
    and "v \<in> set pvs" and "handle_array_id (vi_VolumeHandle v) = Some a"
    and "\<And>w. w \<in> set pvs \<Longrightarrow> handle_array_id (vi_VolumeHandle w) = Some a \<Longrightarrow>
      handle_volume_id (vi_VolumeHandle w) = handle_volume_id (vi_VolumeHandle v) \<Longrightarrow> w = v"
    and "GetPowerMaxClient m a = Inr (Some c)"
    and "GetArrayPerfKeys c = Inr infos" and "a \<in> ai_SymmetrixID ` set infos"
    and "\<And>gs t. distinct gs \<Longrightarrow>
      set gs = vi_StorageGroup ` {w \<in> set pvs. handle_array_id (vi_VolumeHandle w) = Some a} \<Longrightarrow>
      reported_date m a t \<Longrightarrow> \<exists>metric. volume_answer c a gs t v metric"
  shows "\<exists>gs t metric. distinct gs \<and>
    set gs = vi_StorageGroup ` {w \<in> set pvs. handle_array_id (vi_VolumeHandle w) = Some a} \<and>
    reported_date m a t \<and> volume_answer c a gs t v metric \<and>
    vol_perf_record_of a (handle_volume_id (vi_VolumeHandle v)) v metric \<in> set out"
proof -
  obtain ord0 avail ord tasks where ord0: "iteration_of (array2Sgs pvs) ord0"
    and avail: "last_avail_loop m Map.empty ord0 = Inr avail" and ord: "nested_iteration (array2Sgs pvs) ord"
    and tasks: "map (volume_worker m avail (id2Volume pvs)) ord = map Inr tasks"
    and out: "delivers tasks empty_vol_perf (nat (bm_MaxPowerMaxConnections m)) out"
    using assms(1) by (auto simp: gathers_volumes_def)
  have "map_of (array2Sgs pvs) a \<noteq> None" using array2Sgs_None [of pvs a] assms(3,4) by (auto simp: list_all_iff)
  then obtain sgs where sgs: "(a, sgs) \<in> set (array2Sgs pvs)" by (auto simp: array2Sgs_mem_iff)
  have "a \<in> fst ` set ord0" using sgs iteration_of_set [OF ord0] by force
  then obtain t where t: "avail a = Some t" using last_avail_found [OF avail _ assms(6-8)] by blast
  have date: "reported_date m a t" by (rule last_avail_reported [OF avail _ t]) simp
  obtain gs where gs: "(a, gs) \<in> set ord" using nested_iteration_key [OF ord sgs] by blast
  note groups = nested_iteration_groups [OF ord gs]
  obtain metric where answer: "volume_answer c a gs t v metric" using assms(9) groups date by blast
  have "volume_worker m avail (id2Volume pvs) (a, gs) \<in> set (map (volume_worker m avail (id2Volume pvs)) ord)"
    using gs by simp
  then obtain rs where rs: "rs \<in> set tasks" "volume_worker m avail (id2Volume pvs) (a, gs) = Inr rs"
    unfolding tasks by auto
  have id: "id2Volume pvs (volume_key (handle_volume_id (vi_VolumeHandle v)) a) = Some v"
    by (rule id2Volume_unique [OF assms(2-4)]) (rule assms(5))
  have "vol_perf_record_of a (handle_volume_id (vi_VolumeHandle v)) v metric \<in> set rs"
    by (rule volume_worker_answer [OF rs(2) t assms(6) answer id])
  then have mem: "vol_perf_record_of a (handle_volume_id (vi_VolumeHandle v)) v metric \<in> set (concat tasks)"
    using rs(1) by auto
  have "tasks \<noteq> []" using rs(1) by auto
  then have "mset out = mset (concat tasks)" using delivers_mset [OF out] by (simp add: expected_def)
  then have "set out = set (concat tasks)" by (rule mset_eq_setD)
  with mem groups date answer show ?thesis by blast
qed

text \<open>The records of one array's storage groups, with the cache as it was before the collection.\<close>

definition groups_of_array ::
  "float64 \<Rightarrow> base_metrics \<Rightarrow> (string \<Rightarrow> int \<times> int) \<Rightarrow> sg_cache \<Rightarrow> string \<times> string list \<Rightarrow>
   sg_perf_record list" where
  "groups_of_array ratio m clock cache task =
     (case GetPowerMaxClient m (fst task) of
        Inr (Some client) \<Rightarrow>
          (if bulk_wanted ratio (fst (getTotalSGCount client (fst task) (clock (fst task)) cache)) (snd task) \<and>
              bulk_groups client (fst task) (snd task) \<noteq> []
           then bulk_groups client (fst task) (snd task) else legacy_groups client (fst task) (snd task))
      | _ \<Rightarrow> [])"

lemma sg_worker_groups:
  "fst (sg_worker ratio m clock task cache) = Inr rs \<Longrightarrow> rs = groups_of_array ratio m clock cache task"
proof (cases "\<exists>client. GetPowerMaxClient m (fst task) = Inr (Some client)")
  case True
  then obtain client where "GetPowerMaxClient m (fst task) = Inr (Some client)" by blast
  moreover assume "fst (sg_worker ratio m clock task cache) = Inr rs"
  ultimately show ?thesis
    using sg_worker_client [of m "fst task" client ratio clock "snd task" cache]
    by (simp add: groups_of_array_def)
next
  case False
  moreover assume "fst (sg_worker ratio m clock task cache) = Inr rs"
  ultimately show ?thesis
    by (auto simp: groups_of_array_def sg_worker_def Let_def split: sum.splits option.splits)
qed

lemma bulk_groups_perm:
  assumes "mset gs = mset hs"
  shows "bulk_groups client a gs = bulk_groups client a hs"
  using mset_eq_setD [OF assms] by (simp add: bulk_groups_def split: sum.splits option.splits)

lemma legacy_groups_perm:
  assumes "mset gs = mset hs"
  shows "mset (legacy_groups client a gs) = mset (legacy_groups client a hs)"
  by (simp add: legacy_groups_def mset_concat_map assms split: sum.splits)

lemma groups_of_array_perm:
  assumes "mset gs = mset hs"
  shows "mset (groups_of_array ratio m clock cache (a, gs)) = mset (groups_of_array ratio m clock cache (a, hs))"
proof (cases "\<exists>client. GetPowerMaxClient m a = Inr (Some client)")
  case True
  then obtain client where "GetPowerMaxClient m a = Inr (Some client)" by blast
  moreover have "bulk_wanted ratio r gs = bulk_wanted ratio r hs" for r
    using mset_eq_length [OF assms] by (simp add: bulk_wanted_def split: sum.splits)
  ultimately show ?thesis
    using bulk_groups_perm [OF assms, of client a] legacy_groups_perm [OF assms, of client a]
    by (simp add: groups_of_array_def)
next
  case False
  then show ?thesis
    by (auto simp: groups_of_array_def split: sum.splits option.splits)
qed

lemma nested_concat:
  assumes "nested_iteration m ord"
    and "\<And>a gs hs. mset gs = mset hs \<Longrightarrow> mset (f (a, gs)) = mset (f (a, hs))"
  shows "mset (concat (map f ord)) = mset (concat (map f m))"
proof -
  obtain ys where ys: "iteration_of m ys" "list_all2 (\<lambda>x y. fst x = fst y \<and> mset (snd x) = mset (snd y)) ys ord"
    using assms(1) by (auto simp: nested_iteration_def)
  from ys(2) have "mset (concat (map f ys)) = mset (concat (map f ord))"
  proof (induction rule: list_all2_induct)
    case (Cons x xs y ys)
    have "mset (f x) = mset (f y)" using assms(2) Cons(1) by (metis prod.collapse)
    with Cons show ?case by simp
  qed simp
  then show ?thesis using mset_concat_iteration [OF ys(1), of f] by simp
qed

lemma groups_out:
  assumes "gathers_groups ratio m clock cache pvs out cache'"
  shows "mset out = (if list_all (\<lambda>v. handle_array_id (vi_VolumeHandle v) = None) pvs
     then {#empty_sg_perf#}
     else mset (concat (map (groups_of_array ratio m clock cache) (array2Sgs pvs))))"
proof -
  obtain ord tasks where ord: "nested_iteration (array2Sgs pvs) ord"
    and run: "sg_workers ratio m clock ord cache = (map Inr tasks, cache')"
    and out: "delivers tasks empty_sg_perf (nat (bm_MaxPowerMaxConnections m)) out"
    using assms by (auto simp: gathers_groups_def)
  have "map (\<lambda>t. fst (sg_worker ratio m clock t cache)) ord = map Inr tasks"
    using sg_workers_local [OF nested_iteration_keys [OF ord array2Sgs_distinct], of ratio m clock cache]
      run by simp
  then have tasks: "tasks = map (groups_of_array ratio m clock cache) ord"
    by (induction ord arbitrary: tasks) (auto simp: Cons_eq_map_conv dest: sg_worker_groups)
  have "tasks = [] \<longleftrightarrow> array2Sgs pvs = []"
    using tasks nested_iteration_length [OF ord] by (metis length_0_conv length_map)
  then show ?thesis
    using delivers_mset [OF out]
      nested_concat [where f = "groups_of_array ratio m clock cache", OF ord groups_of_array_perm]
    by (simp add: expected_def tasks array2Sgs_Nil_iff)
qed

text \<open>
  C9. What a storage group collection delivers does not depend on the iteration orders of the maps, on
  the schedule of the workers or on how their cache accesses interleave: for each array with a
  live client, the bulk records when the count, taken from the cache as it was at the start, asks for
  bulk and bulk gives any, and otherwise the records of its groups one by one.
\<close>

theorem groups_delivered:
  assumes "gathers_groups ratio m clock cache pvs out cache'"
  shows "mset out = (if list_all (\<lambda>v. handle_array_id (vi_VolumeHandle v) = None) pvs
     then {#empty_sg_perf#}
     else mset (concat (map (groups_of_array ratio m clock cache) (array2Sgs pvs))))"
  using assms by (rule groups_out)

subsection \<open>A healthy collection succeeds\<close>

lemma last_avail_Inr: "base_ok m \<Longrightarrow> \<exists>a. last_avail_loop m avail ord = Inr a"
  by (induction m avail ord rule: last_avail_loop.induct)
    (auto simp: GetPowerMaxClient_never_nil split: sum.splits option.splits)

lemma volume_worker_ok: "base_ok m \<Longrightarrow> \<exists>rs. volume_worker m avail ids task = Inr rs"
  using GetPowerMaxClient_never_nil [of m "fst task"]
  by (auto simp: volume_worker_def Let_def split: sum.splits option.splits)

lemma sg_worker_ok: "base_ok m \<Longrightarrow> \<exists>rs. fst (sg_worker ratio m clock task cache) = Inr rs"
  using GetPowerMaxClient_never_nil [of m "fst task"]
  by (auto simp: sg_worker_def Let_def split: sum.splits option.splits prod.splits bool.splits)

lemma sg_workers_ok:
  "base_ok m \<Longrightarrow> \<exists>tasks. fst (sg_workers ratio m clock ord cache) = map Inr tasks"
proof (induction ord arbitrary: cache)
  case Nil
  then show ?case by simp
next
  case (Cons t ord)
  obtain rs where "fst (sg_worker ratio m clock t cache) = Inr rs"
    using sg_worker_ok [OF Cons.prems] by blast
  moreover obtain tasks where "fst (sg_workers ratio m clock ord (snd (sg_worker ratio m clock t cache))) = map Inr tasks"
    using Cons by blast
  ultimately have "fst (sg_workers ratio m clock (t # ord) cache) = map Inr (rs # tasks)"
    by (simp add: Let_def case_prod_beta)
  then show ?case by (rule exI)
qed

lemma map_Inr_exists: "(\<And>x. \<exists>y. f x = Inr y) \<Longrightarrow> \<exists>ys. map f xs = map Inr ys"
  by (induction xs) (auto simp: Cons_eq_map_conv)

lemma gathers_volumes_exists:
  assumes "base_ok m" and "0 < bm_MaxPowerMaxConnections m"
  shows "\<exists>out. gathers_volumes m pvs out"
proof -
  obtain avail where a: "last_avail_loop m Map.empty (array2Sgs pvs) = Inr avail"
    using last_avail_Inr [OF assms(1)] by blast
  obtain tasks where t: "map (volume_worker m avail (id2Volume pvs)) (array2Sgs pvs) = map Inr tasks"
    using map_Inr_exists volume_worker_ok [OF assms(1)] by metis
  obtain out where "delivers tasks empty_vol_perf (nat (bm_MaxPowerMaxConnections m)) out"
    using delivers_exists assms(2) by (metis zero_less_nat_eq)
  with a t iteration_of_refl nested_iteration_refl show ?thesis unfolding gathers_volumes_def by blast
qed

lemma gathers_groups_exists:
  assumes "base_ok m" and "0 < bm_MaxPowerMaxConnections m"
  shows "\<exists>out cache'. gathers_groups ratio m clock cache pvs out cache'"
proof -
  obtain tasks where t: "fst (sg_workers ratio m clock (array2Sgs pvs) cache) = map Inr tasks"
    using sg_workers_ok [OF assms(1)] by blast
  obtain out where "delivers tasks empty_sg_perf (nat (bm_MaxPowerMaxConnections m)) out"
    using delivers_exists assms(2) by (metis zero_less_nat_eq)
  with t nested_iteration_refl show ?thesis unfolding gathers_groups_def by (metis prod.collapse)
qed

lemma push_volumes_exists: "\<exists>out. pushVolumePerformanceMetrics rec arrivals out"
  unfolding pushVolumePerformanceMetrics_def by (rule stage_delivers_exists)

lemma push_groups_exists: "\<exists>out. pushStorageGroupPerformanceMetrics rec arrivals out"
  unfolding pushStorageGroupPerformanceMetrics_def by (rule stage_delivers_exists)

interpretation performance_collector: metrics_collector "performance_Collect ratio clock cache"
  for ratio clock cache
proof unfold_locales
  fix m out e
  show "bm_VolumeFinder m () = Inl e \<Longrightarrow> performance_Collect ratio clock cache m out \<longleftrightarrow> out = Inl e"
    by (auto simp: performance_Collect_iff)
next
  fix m out pvs
  show "bm_VolumeFinder m () = Inr pvs \<Longrightarrow> bm_MetricsRecorder m \<noteq> None \<Longrightarrow>
      performance_Collect ratio clock cache m out \<Longrightarrow> \<exists>x. out = Inr x"
    by (auto simp: performance_Collect_iff)
next
  fix m :: "base_metrics"
  assume "base_ok m" "bm_MetricsRecorder m \<noteq> None" "0 < bm_MaxPowerMaxConnections m"
  then show "\<exists>out. performance_Collect ratio clock cache m out"
    using gathers_volumes_exists [of m] gathers_groups_exists [of m ratio clock cache]
      push_volumes_exists push_groups_exists
    by (cases "bm_VolumeFinder m ()") (blast intro: performance_Collect.intros)+
qed

subsection \<open>Concrete collections\<close>

theorem volume_records_sound_witness:
  "\<exists>out. gathers_volumes (sample_base :: base_metrics) [sample_volume] out \<and>
     list_all (\<lambda>r. r = empty_vol_perf \<or> list_ex (\<lambda>volume.
      handle_volume_id (vi_VolumeHandle volume) = vr_VolumeID r \<and>
      handle_array_id (vi_VolumeHandle volume) = Some (vr_ArrayID r) \<and>
      vr_StorageGroupID r = vi_StorageGroup volume \<and> vr_StorageClass r = vi_StorageClass volume \<and>
      vr_PersistentVolumeName r = vi_PersistentVolume volume \<and>
      vr_PersistentVolumeClaimName r = vi_VolumeClaimName volume \<and>
      vr_Namespace r = vi_Namespace volume) [sample_volume]) out"
proof -
  obtain out where out: "gathers_volumes (sample_base :: base_metrics) [sample_volume] out"
    using gathers_volumes_exists [OF sample_base_ok sample_base_limit] by blast
  have "keys_unambiguous [sample_volume]" by (simp add: keys_unambiguous_def sample_handle)
  from volume_records_sound [OF out this] out show ?thesis by blast
qed

theorem groups_delivered_witness:
  "\<exists>out cache'. gathers_groups (Fin (1 / 4)) (sample_base :: base_metrics) (\<lambda>_. (0, 0)) None
       [sample_volume] out cache' \<and>
     mset out = mset (concat (map (groups_of_array (Fin (1 / 4)) (sample_base :: base_metrics) (\<lambda>_. (0, 0)) None)
       (array2Sgs [sample_volume])))"
proof -
  obtain out cache' where out: "gathers_groups (Fin (1 / 4)) (sample_base :: base_metrics) (\<lambda>_. (0, 0)) None
       [sample_volume] out cache'"
    using gathers_groups_exists [OF sample_base_ok sample_base_limit] by blast
  from groups_delivered [OF out]
  have "mset out = mset (concat (map (groups_of_array (Fin (1 / 4)) (sample_base :: base_metrics) (\<lambda>_. (0, 0)) None)
       (array2Sgs [sample_volume])))" by (simp add: sample_handle)
  with out show ?thesis by blast
qed

lemma sample_answers:
  "GetArrayPerfKeys sample_client = Inr [\<lparr>ai_SymmetrixID = ''0257'', ai_LastAvailableDate = 1700\<rparr>]"
  "GetVolumesMetrics sample_client a q f t u =
     Inr [\<lparr>vres_VolumeID = ''00822'', vres_StorageGroups = ''sg1'', vres_VolumeResult = [sample_metric]\<rparr>]"
  "vi_StorageGroup sample_volume = ''sg1''"
  by (simp_all add: sample_client_def sample_volume_def)

theorem volume_records_complete_witness:
  "\<exists>out. gathers_volumes sample_base [sample_volume] out \<and>
     vol_perf_record_of ''0257'' ''00822'' sample_volume sample_metric \<in> set out"
proof -
  obtain out where out: "gathers_volumes sample_base [sample_volume] out"
    using gathers_volumes_exists [OF sample_base_ok sample_base_limit] by blast
  have unamb: "keys_unambiguous [sample_volume]" by (simp add: keys_unambiguous_def sample_handle)
  have answer: "volume_answer sample_client ''0257'' gs t sample_volume metric \<longleftrightarrow> metric = sample_metric" for gs t metric
    by (auto simp: volume_answer_def sample_answers sample_handle)
  have "\<exists>gs t metric. distinct gs \<and>
    set gs = vi_StorageGroup ` {w \<in> set [sample_volume]. handle_array_id (vi_VolumeHandle w) = Some ''0257''} \<and>
    reported_date sample_base ''0257'' t \<and> volume_answer sample_client ''0257'' gs t sample_volume metric \<and>
    vol_perf_record_of ''0257'' (handle_volume_id (vi_VolumeHandle sample_volume)) sample_volume metric \<in> set out"
    by (rule volume_records_complete [OF out unamb _ _ _ sample_client_found sample_answers(1)])
      (auto simp: sample_handle answer)
  then have "vol_perf_record_of ''0257'' (handle_volume_id (vi_VolumeHandle sample_volume)) sample_volume sample_metric
      \<in> set out" by (auto simp: answer)
  then show ?thesis using out unfolding sample_handle by (intro exI [of _ out] conjI)
qed

end
