(* ===== verification/Topology.thy ===== *)
theory Topology
  imports Samples Fanout
begin

section \<open>Topology metrics (\<open>internal/service/metric/topology_metrics.go\<close>)\<close>

text \<open>
  Three stages in a row: \<open>volumeServer\<close> puts the volumes on a channel, \<open>gatherTopologyMetrics\<close> turns
  each into a record in a goroutine of its own, and \<open>pushTopologyMetrics\<close> records each in
  a goroutine of its own. The last two are stages of theory \<open>Fanout\<close>.
\<close>

subsection \<open>\<open>volumeServer\<close>\<close>

text \<open>
  The channel is buffered for all the volumes, so the server never waits for a receiver: a state is
  what the server still has to send, what the buffer holds, and whether the channel is closed.
\<close>

record volume_server =
  vs_left :: "volume_info list"
  vs_buffer :: "volume_info list"
  vs_capacity :: nat
  vs_closed :: bool

definition volumeServer :: "volume_info list \<Rightarrow> volume_server" where
  "volumeServer volumes =
     \<lparr>vs_left = volumes, vs_buffer = [], vs_capacity = length volumes, vs_closed = False\<rparr>"

fun server_turn :: "volume_server \<Rightarrow> volume_server option" where
  "server_turn s =
     (case vs_left s of
        volume # rest \<Rightarrow>
          if length (vs_buffer s) < vs_capacity s
          then Some (s\<lparr>vs_left := rest, vs_buffer := vs_buffer s @ [volume]\<rparr>) else None
      | [] \<Rightarrow> if vs_closed s then None else Some (s\<lparr>vs_closed := True\<rparr>))"

declare server_turn.simps [simp del]

fun server_run :: "nat \<Rightarrow> volume_server \<Rightarrow> volume_server" where
  "server_run 0 s = s"
| "server_run (Suc n) s = (case server_turn s of Some t \<Rightarrow> server_run n t | None \<Rightarrow> s)"

lemma server_run_served:
  "server_run (Suc (length (vs_left s))) s =
     s\<lparr>vs_left := [], vs_buffer := vs_buffer s @ vs_left s, vs_closed := True\<rparr>"
  if "length (vs_buffer s) + length (vs_left s) \<le> vs_capacity s" and "\<not> vs_closed s"
  using that
proof (induction "vs_left s" arbitrary: s)
  case Nil
  then show ?case by (simp add: server_turn.simps)
next
  case (Cons v vs)
  let ?t = "s\<lparr>vs_left := vs, vs_buffer := vs_buffer s @ [v]\<rparr>"
  have "server_turn s = Some ?t" using Cons by (simp add: server_turn.simps flip: Cons.hyps(2))
  moreover have "server_run (Suc (length vs)) ?t =
      ?t\<lparr>vs_left := [], vs_buffer := vs_buffer ?t @ vs, vs_closed := True\<rparr>"
    using Cons.hyps(1) [of ?t] Cons.prems by (simp flip: Cons.hyps(2))
  ultimately show ?case by (simp flip: Cons.hyps(2))
qed

lemma volumeServer_buffer:
  "vs_buffer (server_run (Suc (length volumes)) (volumeServer volumes)) = volumes \<and>
   vs_closed (server_run (Suc (length volumes)) (volumeServer volumes))"
  using server_run_served [of "volumeServer volumes"] by (simp add: volumeServer_def)

subsection \<open>\<open>gatherTopologyMetrics\<close>\<close>

definition topology_meta_of :: "volume_info \<Rightarrow> topology_meta" where
  "topology_meta_of volume =
     \<lparr>tm_Namespace = vi_Namespace volume,
      tm_PersistentVolumeClaim = vi_VolumeClaimName volume,
      tm_PersistentVolumeStatus = vi_PersistentVolumeStatus volume,
      tm_VolumeClaimName = vi_PersistentVolume volume,
      tm_PersistentVolume = vi_PersistentVolume volume,
      tm_StorageClass = vi_StorageClass volume,
      tm_Driver = vi_Driver volume,
      tm_ProvisionedSize = vi_ProvisionedSize volume,
      tm_StorageSystemVolumeName = vi_StorageSystemVolumeName volume,
      tm_StoragePoolName = vi_SRP volume,
      tm_StorageSystem = vi_SymID volume,
      tm_Protocol = vi_Protocol volume,
      tm_CreatedTime = vi_CreatedTime volume\<rparr>"

definition topology_record_of :: "volume_info \<Rightarrow> topology_record" where
  "topology_record_of volume = \<lparr>tr_TopologyMeta = topology_meta_of volume, tr_PVAvailable = 1\<rparr>"

definition gatherTopologyMetrics :: "volume_info list \<Rightarrow> topology_record list \<Rightarrow> bool" where
  "gatherTopologyMetrics volumes out \<longleftrightarrow>
     stage_delivers (\<lambda>volume. Some (topology_record_of volume)) volumes out"

subsection \<open>\<open>pushTopologyMetrics\<close>\<close>

definition push_topology :: "metrics_recorder \<Rightarrow> topology_record \<Rightarrow> topology_record option" where
  "push_topology rec metrics =
     (case RecordTopologyMetrics rec (tr_TopologyMeta metrics) metrics of
        Inl err \<Rightarrow> None
      | Inr _ \<Rightarrow> Some metrics)"

definition pushTopologyMetrics ::
  "metrics_recorder \<Rightarrow> topology_record list \<Rightarrow> topology_record list \<Rightarrow> bool" where
  "pushTopologyMetrics rec arrivals out \<longleftrightarrow> stage_delivers (push_topology rec) arrivals out"

subsection \<open>\<open>Collect\<close>\<close>

inductive topology_Collect ::
  "base_metrics \<Rightarrow> topology_record list result \<Rightarrow> bool" for m where
  find_error: "bm_VolumeFinder m () = Inl err \<Longrightarrow> topology_Collect m (Inl err)"
| collected: "bm_VolumeFinder m () = Inr pvs \<Longrightarrow>
    gatherTopologyMetrics (vs_buffer (server_run (Suc (length pvs)) (volumeServer pvs))) gathered \<Longrightarrow>
    bm_MetricsRecorder m = Some rec \<Longrightarrow> pushTopologyMetrics rec gathered out \<Longrightarrow>
    topology_Collect m (Inr out)"
| nothing: "bm_VolumeFinder m () = Inr [] \<Longrightarrow> topology_Collect m (Inr [])"
| nil_recorder: "bm_VolumeFinder m () = Inr pvs \<Longrightarrow> pvs \<noteq> [] \<Longrightarrow> bm_MetricsRecorder m = None \<Longrightarrow>
    topology_Collect m (Inl (Panic ''nil recorder''))"

inductive_simps topology_Collect_iff: "topology_Collect m out"

interpretation topology_collector: metrics_collector topology_Collect
proof unfold_locales
  fix m out e
  show "bm_VolumeFinder m () = Inl e \<Longrightarrow> topology_Collect m out \<longleftrightarrow> out = Inl e"
    by (auto simp: topology_Collect_iff)
next
  fix m out pvs
  show "bm_VolumeFinder m () = Inr pvs \<Longrightarrow> bm_MetricsRecorder m \<noteq> None \<Longrightarrow>
      topology_Collect m out \<Longrightarrow> \<exists>x. out = Inr x"
    by (auto simp: topology_Collect_iff)
next
  fix m :: "base_metrics"
  assume rec: "bm_MetricsRecorder m \<noteq> None"
  show "\<exists>out. topology_Collect m out"
  proof (cases "bm_VolumeFinder m ()")
    case (Inl err)
    then show ?thesis by (blast intro: topology_Collect.find_error)
  next
    case (Inr pvs)
    obtain r where "bm_MetricsRecorder m = Some r" using rec by blast
    moreover obtain g where
      g: "gatherTopologyMetrics (vs_buffer (server_run (Suc (length pvs)) (volumeServer pvs))) g"
      unfolding gatherTopologyMetrics_def using stage_delivers_exists by blast
    moreover obtain p where "pushTopologyMetrics r g p"
      unfolding pushTopologyMetrics_def using stage_delivers_exists by blast
    ultimately show ?thesis using Inr by (blast intro: topology_Collect.collected)
  qed
qed

lemma map_filter_Some [simp]: "List.map_filter (\<lambda>x. Some (f x)) xs = map f xs"
  by (induction xs) simp_all

text \<open>
  C27. A topology collection reports every volume exactly once, in some order, whatever the schedule: the
  records delivered are those of all the volumes whose recording did not fail, and none twice.
\<close>

theorem topology_complete:
  assumes "bm_VolumeFinder m () = Inr pvs" and "bm_MetricsRecorder m = Some rec"
    and "topology_Collect m (Inr out)"
  shows "mset out = mset (filter (\<lambda>r. \<exists>u. RecordTopologyMetrics rec (tr_TopologyMeta r) r = Inr u)
    (map topology_record_of pvs))"
proof -
  have push: "List.map_filter (push_topology rec) rs =
      filter (\<lambda>r. \<exists>u. RecordTopologyMetrics rec (tr_TopologyMeta r) r = Inr u) rs" for rs
    by (induction rs) (auto simp: push_topology_def split: sum.splits)
  consider "pvs = []" "out = []"
    | gathered where "gatherTopologyMetrics pvs gathered" "pushTopologyMetrics rec gathered out"
    using assms volumeServer_buffer [of pvs] by (auto simp: topology_Collect_iff)
  then show ?thesis
  proof cases
    case 1
    then show ?thesis by simp
  next
    case 2
    have g: "mset gathered = mset (map topology_record_of pvs)"
      using stage_delivers_mset [OF 2(1) [unfolded gatherTopologyMetrics_def]] by simp
    have "mset out = mset (List.map_filter (push_topology rec) gathered)"
      using stage_delivers_mset [OF 2(2) [unfolded pushTopologyMetrics_def]] .
    then show ?thesis unfolding push mset_filter g .
  qed
qed

theorem topology_complete_witness:
  "topology_Collect sample_base (Inr [topology_record_of sample_volume])"
proof -
  have fnd: "bm_VolumeFinder (sample_base :: base_metrics) () = Inr [sample_volume]"
    and rec: "bm_MetricsRecorder (sample_base :: base_metrics) = Some sample_recorder"
    by (simp_all add: sample_base_def)
  then have "\<exists>res. topology_Collect sample_base res"
    using topology_collector.total [OF sample_base_ok _ sample_base_limit] by simp
  then obtain out where out: "topology_Collect sample_base (Inr out)"
    using topology_collector.finder_ok [OF fnd] rec by (metis option.distinct(1))
  have "mset out = mset [topology_record_of sample_volume]"
    using topology_complete [OF fnd rec out] by (simp add: sample_recorder_def)
  then have "out = [topology_record_of sample_volume]" by simp
  with out show ?thesis by simp
qed

end
