(* ===== verification/Singleton.thy ===== *)
theory Singleton
  imports Samples
begin

section \<open>The collectors' singletons: double-checked locking\<close>

text \<open>
  \<open>CreateCapacityMetricsInstance\<close>, \<open>CreatePerformanceMetricsInstance\<close> and
  \<open>CreateTopologyMetricsInstance\<close> share one shape: test the package variable without the lock, take
  the lock, test again, create the instance, assign it to the variable, and only then set the
  \<open>Collector\<close> field of its base; the deferred unlock runs after the result has been read. Any number of
  goroutines may call at the same time. A state is the variable (the caller that created the instance),
  whether the \<open>Collector\<close> field is set, the holder of the lock, and a program counter per caller.
\<close>

datatype caller =
    At_first_test
  | Awaiting_lock
  | At_second_test
  | Assigned            \<comment> \<open>holds the lock, the variable is set, the \<open>Collector\<close> field is not\<close>
  | Returning_locked    \<comment> \<open>at the return statement, the unlock is deferred\<close>
  | Unlocking nat       \<comment> \<open>the result has been read\<close>
  | Returning           \<comment> \<open>at the return statement, without the lock\<close>
  | Returned nat

record once =
  o_inst :: "nat option"
  o_collector :: bool
  o_lock :: "nat option"
  o_caller :: "nat \<Rightarrow> caller"

definition once_start :: once where
  "once_start = \<lparr>o_inst = None, o_collector = False, o_lock = None, o_caller = (\<lambda>_. At_first_test)\<rparr>"

definition goes :: "once \<Rightarrow> nat \<Rightarrow> caller \<Rightarrow> once" where
  "goes s i c = s\<lparr>o_caller := (o_caller s)(i := c)\<rparr>"

inductive once_step :: "once \<Rightarrow> once \<Rightarrow> bool" where
  first_found: "o_caller s i = At_first_test \<Longrightarrow> o_inst s \<noteq> None \<Longrightarrow> once_step s (goes s i Returning)"
| first_nil: "o_caller s i = At_first_test \<Longrightarrow> o_inst s = None \<Longrightarrow> once_step s (goes s i Awaiting_lock)"
| acquire: "o_caller s i = Awaiting_lock \<Longrightarrow> o_lock s = None \<Longrightarrow>
    once_step s ((goes s i At_second_test)\<lparr>o_lock := Some i\<rparr>)"
| second_found: "o_caller s i = At_second_test \<Longrightarrow> o_inst s \<noteq> None \<Longrightarrow>
    once_step s (goes s i Returning_locked)"
| create: "o_caller s i = At_second_test \<Longrightarrow> o_inst s = None \<Longrightarrow>
    once_step s ((goes s i Assigned)\<lparr>o_inst := Some i\<rparr>)"
| set_collector: "o_caller s i = Assigned \<Longrightarrow>
    once_step s ((goes s i Returning_locked)\<lparr>o_collector := True\<rparr>)"
| read_locked: "o_caller s i = Returning_locked \<Longrightarrow> o_inst s = Some k \<Longrightarrow>
    once_step s (goes s i (Unlocking k))"
| unlock: "o_caller s i = Unlocking k \<Longrightarrow> once_step s ((goes s i (Returned k))\<lparr>o_lock := None\<rparr>)"
| read_free: "o_caller s i = Returning \<Longrightarrow> o_inst s = Some k \<Longrightarrow> once_step s (goes s i (Returned k))"

inductive_cases once_stepE: "once_step s t"

lemma goes_simps [simp]:
  "o_inst (goes s i c) = o_inst s" "o_collector (goes s i c) = o_collector s"
  "o_lock (goes s i c) = o_lock s" "o_caller (goes s i c) = (o_caller s)(i := c)"
  by (simp_all add: goes_def)

subsection \<open>The invariant\<close>

fun holds_lock :: "caller \<Rightarrow> bool" where
  "holds_lock At_second_test = True"
| "holds_lock Assigned = True"
| "holds_lock Returning_locked = True"
| "holds_lock (Unlocking _) = True"
| "holds_lock _ = False"

text \<open>What a program counter says about the variable.\<close>

fun caller_ok :: "once \<Rightarrow> nat \<Rightarrow> caller \<Rightarrow> bool" where
  "caller_ok s i Assigned \<longleftrightarrow> o_inst s = Some i \<and> \<not> o_collector s"
| "caller_ok s i Returning_locked \<longleftrightarrow> o_inst s \<noteq> None \<and> o_collector s"
| "caller_ok s i (Unlocking k) \<longleftrightarrow> o_inst s = Some k \<and> o_collector s"
| "caller_ok s i Returning \<longleftrightarrow> o_inst s \<noteq> None"
| "caller_ok s i (Returned k) \<longleftrightarrow> o_inst s = Some k"
| "caller_ok s i _ \<longleftrightarrow> True"

definition once_inv :: "once \<Rightarrow> bool" where
  "once_inv s \<longleftrightarrow>
     (\<forall>i. holds_lock (o_caller s i) \<longleftrightarrow> o_lock s = Some i) \<and>
     (\<forall>i. caller_ok s i (o_caller s i)) \<and>
     (o_inst s = None \<longrightarrow> \<not> o_collector s) \<and>
     (\<forall>k. o_inst s = Some k \<and> \<not> o_collector s \<longrightarrow> o_caller s k = Assigned)"

lemma once_inv_start: "once_inv once_start"
  by (simp add: once_inv_def once_start_def)

lemma caller_ok_cong:
  "o_inst s = o_inst t \<Longrightarrow> o_collector s = o_collector t \<Longrightarrow> caller_ok s i c = caller_ok t i c"
  by (cases c) simp_all

text \<open>A step that changes neither the variable nor the field, nor who holds the lock.\<close>

lemma once_inv_goes:
  assumes "once_inv s" and "holds_lock c = holds_lock (o_caller s i)" and "caller_ok s i c"
    and "o_caller s i \<noteq> Assigned"
  shows "once_inv (goes s i c)"
proof -
  have "caller_ok (goes s i c) j (o_caller (goes s i c) j)" for j
    using assms(1,3) caller_ok_cong [of "goes s i c" s] by (simp add: once_inv_def)
  moreover have "o_caller (goes s i c) k = Assigned" if "o_inst s = Some k" "\<not> o_collector s" for k
    using assms(1,4) that by (auto simp: once_inv_def)
  ultimately show ?thesis using assms(1,2) by (auto simp: once_inv_def)
qed

lemma once_step_inv:
  assumes inv: "once_inv s" and step: "once_step s t"
  shows "once_inv t"
proof -
  have held: "holds_lock (o_caller s i) \<longleftrightarrow> o_lock s = Some i" for i
    using inv by (simp add: once_inv_def)
  have ok: "caller_ok s i (o_caller s i)" for i using inv by (simp add: once_inv_def)
  have early: "o_inst s = None \<Longrightarrow> \<not> o_collector s" using inv by (simp add: once_inv_def)
  have fresh: "o_inst s = Some k \<Longrightarrow> \<not> o_collector s \<Longrightarrow> o_caller s k = Assigned" for k
    using inv by (simp add: once_inv_def)
  from step show ?thesis
  proof cases
    case (first_found i)
    then show ?thesis using inv by (auto intro!: once_inv_goes)
  next
    case (first_nil i)
    then show ?thesis using inv by (auto intro!: once_inv_goes)
  next
    case (acquire i)
    have "caller_ok t j (o_caller t j)" for j
      using ok [of j] caller_ok_cong [of t s] acquire by auto
    moreover have "holds_lock (o_caller t j) \<longleftrightarrow> o_lock t = Some j" for j
      using held [of j] acquire by auto
    moreover have "o_inst s = Some k \<Longrightarrow> \<not> o_collector s \<Longrightarrow> o_caller t k = Assigned" for k
      using fresh [of k] acquire by auto
    ultimately show ?thesis using early acquire by (simp add: once_inv_def)
  next
    case (second_found i)
    have "o_collector s"
    proof (rule ccontr)
      assume no: "\<not> o_collector s"
      obtain k where k: "o_inst s = Some k" using second_found by blast
      from fresh [OF k no] have "o_lock s = Some k" "o_caller s k = Assigned"
        using held [of k] by simp_all
      moreover have "o_lock s = Some i" using held [of i] second_found by simp
      ultimately show False using second_found by simp
    qed
    then show ?thesis using inv second_found by (auto intro!: once_inv_goes)
  next
    case (create i)
    have "caller_ok t j (o_caller t j)" for j
      using ok [of j] early create by (cases "o_caller s j") auto
    moreover have "holds_lock (o_caller t j) \<longleftrightarrow> o_lock t = Some j" for j
      using held [of j] create by auto
    ultimately show ?thesis using early create by (simp add: once_inv_def)
  next
    case (set_collector i)
    have i: "o_inst s = Some i" "\<not> o_collector s" using ok [of i] set_collector by simp_all
    have "caller_ok t j (o_caller t j)" for j
      using ok [of j] i set_collector by (cases "o_caller s j") auto
    moreover have "holds_lock (o_caller t j) \<longleftrightarrow> o_lock t = Some j" for j
      using held [of j] set_collector by auto
    ultimately show ?thesis using i set_collector by (simp add: once_inv_def)
  next
    case (read_locked i k)
    then show ?thesis using inv ok [of i] by (auto intro!: once_inv_goes)
  next
    case (unlock i k)
    have k: "o_inst s = Some k" "o_collector s" using ok [of i] unlock by simp_all
    have "caller_ok t j (o_caller t j)" for j
      using ok [of j] caller_ok_cong [of t s] k unlock by auto
    moreover have "holds_lock (o_caller t j) \<longleftrightarrow> o_lock t = Some j" for j
      using held [of j] held [of i] unlock by auto
    ultimately show ?thesis using k unlock by (simp add: once_inv_def)
  next
    case (read_free i k)
    then show ?thesis using inv by (auto intro!: once_inv_goes)
  qed
qed

interpretation once_system: invariant_system "\<lambda>s. s = once_start" once_step once_inv
  by unfold_locales (auto simp: once_inv_start intro: once_step_inv)

lemma once_inst_stays: "once_step s t \<Longrightarrow> o_inst s = Some k \<Longrightarrow> o_inst t = Some k"
  by (auto elim!: once_stepE)

lemma once_inst_fixed: "once_step\<^sup>*\<^sup>* s t \<Longrightarrow> o_inst s = Some k \<Longrightarrow> o_inst t = Some k"
  by (induction rule: rtranclp_induct) (auto intro: once_inst_stays)

lemma once_returned: "once_inv s \<Longrightarrow> o_caller s i = Returned k \<Longrightarrow> o_inst s = Some k"
  unfolding once_inv_def by (metis caller_ok.simps(5))

subsection \<open>The three constructors\<close>

text \<open>
  The sequential meaning of a call is \<^const>\<open>create_instance\<close>. The performance instance also gets an
  empty cache of storage group counts.
\<close>

definition CreateCapacityMetricsInstance ::
  "service_view \<Rightarrow> base_metrics option \<Rightarrow> base_metrics \<times> base_metrics option" where
  "CreateCapacityMetricsInstance = create_instance (\<lambda>base. base)"

definition NewPerformanceMetrics :: "base_metrics \<Rightarrow> base_metrics \<times> (string \<rightharpoonup> 'e) option" where
  "NewPerformanceMetrics base = (base, Some Map.empty)"

definition CreatePerformanceMetricsInstance ::
  "service_view \<Rightarrow> (base_metrics \<times> (string \<rightharpoonup> 'e) option) option \<Rightarrow>
   (base_metrics \<times> (string \<rightharpoonup> 'e) option) \<times> (base_metrics \<times> (string \<rightharpoonup> 'e) option) option" where
  "CreatePerformanceMetricsInstance = create_instance (\<lambda>base. (base, Some Map.empty))"

definition CreateTopologyMetricsInstance ::
  "service_view \<Rightarrow> base_metrics option \<Rightarrow> base_metrics \<times> base_metrics option" where
  "CreateTopologyMetricsInstance = create_instance (\<lambda>base. base)"

subsection \<open>Properties\<close>

text \<open>
  The object that the variable points to, caller \<open>k\<close> having passed the service \<open>svc k\<close>: its base has a collector once the
  second assignment is made. Seen through the lock, there is no instance before that.
\<close>

definition published ::
  "(base_metrics \<Rightarrow> 'm) \<Rightarrow> (nat \<Rightarrow> service_view) \<Rightarrow> once \<Rightarrow> 'm option" where
  "published mk svc s =
     map_option (\<lambda>k. mk (if o_collector s then created_base (svc k) else NewBaseMetrics (svc k))) (o_inst s)"

definition completed ::
  "(base_metrics \<Rightarrow> 'm) \<Rightarrow> (nat \<Rightarrow> service_view) \<Rightarrow> once \<Rightarrow> 'm option" where
  "completed mk svc s = (if o_collector s then published mk svc s else None)"

lemma once_step_completed:
  assumes "once_inv s" and "once_step s t"
  shows "\<exists>c. completed mk svc t = (case c of
      None \<Rightarrow> completed mk svc s
    | Some i \<Rightarrow> snd (create_instance mk (svc i) (completed mk svc s)))"
  using assms(2)
proof cases
  case (create i)
  then have "\<not> o_collector s" using assms(1) by (simp add: once_inv_def)
  with create show ?thesis by (intro exI [of _ None]) (simp add: completed_def)
next
  case (set_collector i)
  have "caller_ok s i (o_caller s i)" using assms(1) by (simp add: once_inv_def)
  with set_collector show ?thesis
    by (intro exI [of _ "Some i"]) (simp add: completed_def published_def create_instance_def created_base_def Let_def)
qed (auto intro!: exI [of _ None] simp: completed_def published_def)

lemma returned_published:
  assumes "once_inv s" and "o_caller s j = Returned k"
  shows "published mk svc s =
      Some (if o_caller s k = Assigned then mk (NewBaseMetrics (svc k)) else mk (created_base (svc k)))"
    and "o_collector s \<longleftrightarrow> o_caller s k \<noteq> Assigned"
proof -
  have k: "o_inst s = Some k" using assms by (rule once_returned)
  have "caller_ok s k (o_caller s k)" using assms(1) by (simp add: once_inv_def)
  then show c: "o_collector s \<longleftrightarrow> o_caller s k \<noteq> Assigned"
    using assms(1) k by (cases "o_caller s k") (auto simp: once_inv_def)
  show "published mk svc s =
      Some (if o_caller s k = Assigned then mk (NewBaseMetrics (svc k)) else mk (created_base (svc k)))"
    by (simp add: published_def k c)
qed

text \<open>
  C25. How far the concurrent constructor refines the sequential one. Seen through the lock, where an instance counts once its
  \<open>Collector\<close> is assigned, it does: in every reachable state each step leaves the variable alone or acts on it as one atomic call. A
  call that has returned holds the one published instance; it is what a sequential call returns, except in
  the window in which the creating caller stands between its two assignments: then the instance is the base without a collector, and
  a sequential call would return something else.
\<close>

theorem singleton_refines:
  assumes "once_step\<^sup>*\<^sup>* once_start s" and "once_step s t"
  shows "(\<exists>c. completed mk svc t = (case c of
        None \<Rightarrow> completed mk svc s
      | Some i \<Rightarrow> snd (create_instance mk (svc i) (completed mk svc s)))) \<and>
    (o_caller t j = Returned k \<longrightarrow>
      (if o_caller t k = Assigned
       then published mk svc t = Some (mk (NewBaseMetrics (svc k))) \<and> bm_Collector (NewBaseMetrics (svc k)) = None \<and>
         completed mk svc t = None
       else published mk svc t = Some (fst (create_instance mk service (completed mk svc t))) \<and>
         fst (create_instance mk service (completed mk svc t)) = mk (created_base (svc k)) \<and>
         bm_Collector (created_base (svc k)) \<noteq> None))"
proof (intro conjI impI)
  have inv: "once_inv s" using once_system.reachable_inv [OF refl assms(1)] .
  then show "\<exists>c. completed mk svc t = (case c of
        None \<Rightarrow> completed mk svc s
      | Some i \<Rightarrow> snd (create_instance mk (svc i) (completed mk svc s)))"
    using assms(2) by (rule once_step_completed)
  assume r: "o_caller t j = Returned k"
  have "once_inv t" using inv assms(2) by (rule once_step_inv)
  note ret = returned_published [OF this r]
  show "if o_caller t k = Assigned
       then published mk svc t = Some (mk (NewBaseMetrics (svc k))) \<and> bm_Collector (NewBaseMetrics (svc k)) = None \<and>
         completed mk svc t = None
       else published mk svc t = Some (fst (create_instance mk service (completed mk svc t))) \<and>
         fst (create_instance mk service (completed mk svc t)) = mk (created_base (svc k)) \<and>
         bm_Collector (created_base (svc k)) \<noteq> None"
    using ret(1) [of mk svc] ret(2) by (simp add: completed_def create_instance_def NewBaseMetrics_def created_base_def)
qed

lemma once_path_assigned:
  "\<exists>s. once_step\<^sup>*\<^sup>* once_start s \<and> o_caller s 0 = Assigned \<and> o_caller s 1 = At_first_test \<and> o_inst s = Some 0 \<and>
     \<not> o_collector s"
proof -
  let ?s1 = "goes once_start 0 Awaiting_lock"
  let ?s2 = "(goes ?s1 0 At_second_test)\<lparr>o_lock := Some 0\<rparr>"
  let ?s3 = "(goes ?s2 0 Assigned)\<lparr>o_inst := Some 0\<rparr>"
  have "once_step once_start ?s1" by (rule once_step.first_nil) (simp_all add: once_start_def)
  moreover have "once_step ?s1 ?s2" by (rule once_step.acquire) (simp_all add: once_start_def)
  moreover have "once_step ?s2 ?s3" by (rule once_step.create) (simp_all add: once_start_def)
  ultimately have "once_step\<^sup>*\<^sup>* once_start ?s3"
    by (meson rtranclp.rtrancl_refl rtranclp.rtrancl_into_rtrancl)
  then show ?thesis by (intro exI [of _ ?s3]) (simp add: once_start_def)
qed

text \<open>The two sides of the window: the second caller returns early, and then the first one assigns the collector.\<close>

theorem singleton_refines_witness:
  "\<forall>svc. \<exists>s t :: once. once_step\<^sup>*\<^sup>* once_start s \<and> o_caller s 1 = Returned 0 \<and>
     published (\<lambda>b. b) svc s = Some (NewBaseMetrics (svc 0)) \<and> once_step s t \<and> o_caller t 1 = Returned 0 \<and>
     published (\<lambda>b. b) svc t = Some (created_base (svc 0))"
proof
  fix svc
  obtain s :: once where s: "once_step\<^sup>*\<^sup>* once_start s" "o_caller s 0 = Assigned" "o_caller s 1 = At_first_test"
    "o_inst s = Some 0" "\<not> o_collector s" using once_path_assigned by blast
  let ?s1 = "goes s 1 Returning"
  let ?s2 = "goes ?s1 1 (Returned 0)"
  let ?t = "(goes ?s2 0 Returning_locked)\<lparr>o_collector := True\<rparr>"
  have "once_step s ?s1" using s(3,4) by (intro once_step.first_found) simp_all
  with s(1) have run: "once_step\<^sup>*\<^sup>* once_start ?s1" by (rule rtranclp.rtrancl_into_rtrancl)
  have step: "once_step ?s1 ?s2" using s(4) by (intro once_step.read_free) simp_all
  with run have run2: "once_step\<^sup>*\<^sup>* once_start ?s2" by (rule rtranclp.rtrancl_into_rtrancl)
  have t: "once_step ?s2 ?t" using s(2) by (intro once_step.set_collector) simp_all
  have "published (\<lambda>b. b) svc ?s2 = Some (NewBaseMetrics (svc 0))"
    using singleton_refines [OF run step, where mk = "\<lambda>b. b" and svc = svc and j = 1 and k = 0] s(2) by simp
  moreover have "published (\<lambda>b. b) svc ?t = Some (created_base (svc 0))"
    using singleton_refines [OF run2 t, where mk = "\<lambda>b. b" and svc = svc and j = 1 and k = 0 and service = "svc 0"] by simp
  ultimately show "\<exists>s t :: once. once_step\<^sup>*\<^sup>* once_start s \<and> o_caller s 1 = Returned 0 \<and>
     published (\<lambda>b. b) svc s = Some (NewBaseMetrics (svc 0)) \<and> once_step s t \<and> o_caller t 1 = Returned 0 \<and>
     published (\<lambda>b. b) svc t = Some (created_base (svc 0))"
    by (intro exI [of _ ?s2] exI [of _ ?t]) (use run2 t in simp)
qed

text \<open>
  There is one instance: all calls that have returned have the same one, it is the one in the
  variable, and it stays there in every later state.
\<close>

theorem one_instance:
  assumes "once_step\<^sup>*\<^sup>* once_start s" and "o_caller s i = Returned k" and "once_step\<^sup>*\<^sup>* s t"
    and "o_caller t j = Returned l"
  shows "k = l \<and> o_inst t = Some k"
proof -
  have "once_inv s" using once_system.reachable_inv [OF refl assms(1)] .
  then have s: "o_inst s = Some k" using assms(2) by (rule once_returned)
  then have t: "o_inst t = Some k" using once_inst_fixed [OF assms(3)] by blast
  have "once_inv t" using once_system.reachable_inv [OF refl rtranclp_trans [OF assms(1,3)]] .
  then have "o_inst t = Some l" using assms(4) by (rule once_returned)
  with t show ?thesis by simp
qed

lemma once_path_returned:
  "\<exists>s. once_step\<^sup>*\<^sup>* once_start s \<and> o_caller s 1 = Returned 0 \<and> o_inst s = Some 0 \<and> \<not> o_collector s"
proof -
  obtain s where s: "once_step\<^sup>*\<^sup>* once_start s" "o_caller s 1 = At_first_test" "o_inst s = Some 0"
    "\<not> o_collector s" using once_path_assigned by blast
  let ?s1 = "goes s 1 Returning"
  let ?s2 = "goes ?s1 1 (Returned 0)"
  have "once_step s ?s1" using s(2,3) by (intro once_step.first_found) simp_all
  moreover have "once_step ?s1 ?s2" using s(3) by (intro once_step.read_free) simp_all
  ultimately have "once_step\<^sup>*\<^sup>* once_start ?s2" using s(1) by (meson rtranclp.rtrancl_into_rtrancl)
  then show ?thesis using s by (intro exI [of _ ?s2]) simp
qed

theorem one_instance_witness:
  "\<exists>s :: once. o_caller s 1 = Returned 0 \<and> o_inst s = Some 0"
proof -
  obtain s :: once where s: "once_step\<^sup>*\<^sup>* once_start s" "o_caller s 1 = Returned 0"
    using once_path_returned by blast
  from one_instance [OF s rtranclp.rtrancl_refl s(2)] s(2) show ?thesis by (intro exI [of _ s]) simp
qed

text \<open>What \<open>ExportMetrics\<close> finds in the instance of caller \<open>k\<close> while the state is \<open>s\<close>.\<close>

definition published_base ::
  "(nat \<Rightarrow> service_view) \<Rightarrow> once \<Rightarrow> nat \<Rightarrow> base_metrics" where
  "published_base svc s k = (if o_collector s then created_base (svc k) else NewBaseMetrics (svc k))"

text \<open>
  The instance is published too early: the variable is assigned before the \<open>Collector\<close> field, and the
  first test reads it without the lock, so a second caller can return with an instance whose
  export fails for want of a collector.
\<close>

theorem published_too_early:
  "\<exists>s :: once. once_step\<^sup>*\<^sup>* once_start s \<and> o_caller s 1 = Returned 0 \<and> o_inst s = Some 0 \<and>
     o_caller s 0 = Assigned \<and>
     ExportMetrics typeName collected (published_base svc s 0) = Inl (Err ''no MetricsCollector provided'')"
proof -
  obtain s :: once where s: "once_step\<^sup>*\<^sup>* once_start s" "o_caller s 1 = Returned 0" "o_inst s = Some 0"
    "\<not> o_collector s" using once_path_returned by blast
  have "once_inv s" using once_system.reachable_inv [OF refl s(1)] .
  then have "o_caller s 0 = Assigned" using s(3,4) by (simp add: once_inv_def)
  then show ?thesis using s by (intro exI [of _ s]) (simp add: published_base_def ExportMetrics_def NewBaseMetrics_def)
qed

text \<open>
  The window is the two assignments only: in a reachable state where no caller stands between
  them, every caller that has returned has an instance with its collector.
\<close>

lemma published_complete:
  assumes "once_step\<^sup>*\<^sup>* once_start s" and "\<And>j. o_caller s j \<noteq> Assigned" and "o_caller s i = Returned k"
  shows "bm_Collector (published_base svc s k) \<noteq> None"
proof -
  have inv: "once_inv s" using once_system.reachable_inv [OF refl assms(1)] .
  then have "o_inst s = Some k" using assms(3) by (rule once_returned)
  then have "o_collector s" using inv assms(2) by (auto simp: once_inv_def)
  then show ?thesis by (simp add: published_base_def created_base_def)
qed

lemma lock_holder_moves:
  assumes "once_inv s" and "holds_lock (o_caller s i)"
  shows "\<exists>t. once_step s t"
proof (cases "o_caller s i")
  case At_second_test
  then show ?thesis by (cases "o_inst s") (blast intro: once_step.create once_step.second_found)+
next
  case Assigned
  then show ?thesis by (blast intro: once_step.set_collector)
next
  case Returning_locked
  have "caller_ok s i (o_caller s i)" using assms(1) by (simp add: once_inv_def)
  with Returning_locked obtain k where "o_inst s = Some k" by auto
  with Returning_locked show ?thesis by (blast intro: once_step.read_locked)
next
  case (Unlocking k)
  then show ?thesis by (blast intro: once_step.unlock)
qed (use assms(2) in simp_all)

text \<open>
  The locking never deadlocks: as long as some call has not returned, some caller can take a step.
\<close>

theorem singleton_progress:
  assumes "once_step\<^sup>*\<^sup>* once_start s" and "\<And>k. o_caller s i \<noteq> Returned k"
  shows "\<exists>t. once_step s t"
proof -
  have inv: "once_inv s" using once_system.reachable_inv [OF refl assms(1)] .
  have ok: "caller_ok s i (o_caller s i)" using inv by (simp add: once_inv_def)
  show ?thesis
  proof (cases "holds_lock (o_caller s i)")
    case True
    with inv show ?thesis by (rule lock_holder_moves)
  next
    case False
    show ?thesis
    proof (cases "o_caller s i")
      case At_first_test
      then show ?thesis by (cases "o_inst s") (blast intro: once_step.first_nil once_step.first_found)+
    next
      case Awaiting_lock
      show ?thesis
      proof (cases "o_lock s")
        case None
        with Awaiting_lock show ?thesis by (blast intro: once_step.acquire)
      next
        case (Some j)
        then have "holds_lock (o_caller s j)" using inv by (simp add: once_inv_def)
        with inv show ?thesis by (rule lock_holder_moves)
      qed
    next
      case Returning
      with ok obtain k where "o_inst s = Some k" by auto
      with Returning show ?thesis by (blast intro: once_step.read_free)
    qed (use False assms(2) in simp_all)
  qed
qed

theorem singleton_progress_witness: "\<exists>t. once_step once_start t"
  using singleton_progress [of once_start 0] by (simp add: once_start_def)

end
