(* ===== verification/Recorder.thy ===== *)
theory Recorder
  imports Capacity
begin

section \<open>Units and the metrics recorder\<close>

text \<open>
  \<open>utilsconverter/unit_converter.go\<close> and \<open>internal/service/metric/metrics_recorder_wrapper.go\<close>.
  The OpenTelemetry meter is a parameter: what creating an instrument and registering a callback
  answer. A record call creates its instruments, registers a callback that observes them, waits until
  a collection cycle of the SDK has run the callback, and unregisters it.
\<close>

subsection \<open>\<open>UnitsConvert\<close>\<close>

definition prefixScale :: int where "prefixScale = 1024"

definition BITS :: int where "BITS = 1"
definition BYTES :: int where "BYTES = 8"
definition KB :: int where "KB = prefixScale * BYTES"
definition MB :: int where "MB = prefixScale * KB"
definition GB :: int where "GB = prefixScale * MB"
definition TB :: int where "TB = prefixScale * GB"

definition UnitsConvert :: "float64 \<Rightarrow> int \<Rightarrow> int \<Rightarrow> float64" where
  "UnitsConvert v from_unit to_unit = f64_div (f64_mul v (f64_of_int from_unit)) (f64_of_int to_unit)"

lemma unit_values:
  "f64_of_int KB = Fin (2 ^ 13)" "f64_of_int MB = Fin (2 ^ 23)"
  using f64_of_int_exact [of "2 ^ 13"] f64_of_int_exact [of "2 ^ 23"]
  by (simp_all add: KB_def MB_def prefixScale_def BYTES_def)

lemma round64_dyadic:
  assumes "0 < n" and "n \<le> 2 ^ 53" and "- 1074 \<le> k" and "k \<le> 970"
  shows "round64 s (of_int n * pow2 k) = Fin (of_int n * pow2 k)"
proof (rule round64_exact)
  have "(of_int n :: rat) \<le> of_int (2 ^ 53)" using assms(2) by (simp only: of_int_le_iff)
  also have "\<dots> = pow2 53" by (simp add: pow2_def)
  finally have "of_int n * pow2 k \<le> pow2 53 * pow2 k" by (intro mult_right_mono) simp_all
  also have "\<dots> = pow2 (53 + k)" by (simp add: pow2_add)
  also have "\<dots> < pow2 1024" using assms(4) by simp
  finally have lt: "of_int n * pow2 k < pow2 1024" .
  have "\<bar>of_int n * pow2 k\<bar> = of_int n * pow2 k" using assms(1) by simp
  with lt show "\<bar>of_int n * pow2 k\<bar> < pow2 1024" by (simp only:)
qed (use assms in auto)

text \<open>Every unit is a power of two.\<close>

definition units :: "int list" where
  "units = [BITS, BYTES, KB, MB, GB, TB]"

lemma unit_pow2:
  assumes "u \<in> set units"
  shows "\<exists>e. of_int u = pow2 e \<and> f64_of_int u = Fin (pow2 e) \<and> 0 \<le> e \<and> e \<le> 43"
proof -
  have pow: "\<exists>e. of_int u = pow2 e \<and> f64_of_int u = Fin (pow2 e) \<and> 0 \<le> e \<and> e \<le> 43"
    if "u = 2 ^ n" "n \<le> 43" for n
  proof (intro exI conjI)
    show p: "of_int u = pow2 (int n)" using that(1) by (simp add: pow2_nat)
    have "u \<le> 2 ^ 53" using that power_increasing [of n 53 "2 :: int"] by simp
    then show "f64_of_int u = Fin (pow2 (int n))" using that(1) p f64_of_int_exact [of u] by simp
  qed (use that(2) in simp_all)
  have "u = 2 ^ 0 \<or> u = 2 ^ 3 \<or> u = 2 ^ 13 \<or> u = 2 ^ 23 \<or> u = 2 ^ 33 \<or> u = 2 ^ 43"
    using assms by (auto simp: units_def BITS_def BYTES_def KB_def MB_def GB_def TB_def prefixScale_def)
  then show ?thesis using pow [of 0] pow [of 3] pow [of 13] pow [of 23] pow [of 33] pow [of 43] by auto
qed

lemma UnitsConvert_pow2:
  assumes "f64_of_int u = Fin (pow2 a)" and "f64_of_int v = Fin (pow2 b)" and "0 < n" and "n \<le> 2 ^ 53"
    and "- 1074 \<le> k + a" and "k + a \<le> 970" and "- 1074 \<le> k + a - b" and "k + a - b \<le> 970"
  shows "UnitsConvert (Fin (of_int n * pow2 k)) u v = Fin (of_int n * pow2 (k + a - b))"
proof -
  have m: "of_int n * pow2 k * pow2 a = of_int n * pow2 (k + a)" by (simp add: pow2_add)
  have d: "of_int n * pow2 (k + a) / pow2 b = of_int n * pow2 (k + a - b)" by (simp add: pow2_diff)
  have pos: "0 < of_int n * pow2 j" for j using assms(3) by simp
  have "f64_mul (Fin (of_int n * pow2 k)) (Fin (pow2 a)) = Fin (of_int n * pow2 (k + a))"
    using round64_dyadic [OF assms(3,4,5,6)] pos by (simp add: m)
  moreover have "f64_div (Fin (of_int n * pow2 (k + a))) (Fin (pow2 b)) = Fin (of_int n * pow2 (k + a - b))"
    using round64_dyadic [OF assms(3,4,7,8)] pos by (simp add: d)
  ultimately show ?thesis by (simp add: UnitsConvert_def assms(1,2))
qed

text \<open>
  C29. Converting between any two units is exact and can be undone: the result is the value times
  the quotient of the units without any rounding, and converting back gives the value, for every positive
  binary64 value whose exponent leaves room for the products and quotients.
\<close>

theorem units_roundtrip:
  assumes "u \<in> set units" and "v \<in> set units" and "r = of_int n * pow2 k" and "0 < n" and "n \<le> 2 ^ 53"
    and "- 1031 \<le> k" and "k \<le> 927"
  shows "UnitsConvert (Fin r) u v = Fin (r * of_int u / of_int v) \<and>
    UnitsConvert (UnitsConvert (Fin r) u v) v u = Fin r"
proof -
  obtain a where a: "of_int u = pow2 a" "f64_of_int u = Fin (pow2 a)" "0 \<le> a" "a \<le> 43"
    using unit_pow2 [OF assms(1)] by blast
  obtain b where b: "of_int v = pow2 b" "f64_of_int v = Fin (pow2 b)" "0 \<le> b" "b \<le> 43"
    using unit_pow2 [OF assms(2)] by blast
  have there: "UnitsConvert (Fin r) u v = Fin (of_int n * pow2 (k + a - b))"
    unfolding assms(3) using assms(4-7) a b by (intro UnitsConvert_pow2) simp_all
  moreover have "of_int n * pow2 (k + a - b) = r * of_int u / of_int v"
    by (simp add: assms(3) a(1) b(1) pow2_add pow2_diff)
  moreover have "UnitsConvert (Fin (of_int n * pow2 (k + a - b))) v u = Fin (of_int n * pow2 (k + a - b + b - a))"
    using assms(4-7) a b by (intro UnitsConvert_pow2) simp_all
  ultimately show ?thesis by (simp add: assms(3))
qed

theorem units_roundtrip_witness:
  "UnitsConvert (Fin 3) KB MB = Fin (3 / 1024) \<and> UnitsConvert (UnitsConvert (Fin 3) KB MB) MB KB = Fin 3"
proof -
  have "KB \<in> set units" "MB \<in> set units" by (simp_all add: units_def)
  moreover have q: "(3 :: rat) / 1024 = 3 * of_int KB / of_int MB"
    by (simp add: KB_def MB_def prefixScale_def BYTES_def)
  ultimately show ?thesis unfolding q by (intro units_roundtrip [of KB MB 3 3 0]) (simp_all add: pow2_def)
qed

subsection \<open>The meter\<close>

text \<open>
  A nil instrument is \<open>None\<close>. A callback runs once per collection cycle from its registration to its
  removal; \<open>cycles\<close> is how often that is for one record call. With no cycle at all the call waits
  for ever: its outcome is \<open>None\<close>.
\<close>

record 'i meter =
  Float64ObservableUpDownCounter :: "string \<Rightarrow> 'i result"
  RegisterCallback :: "'i option list \<Rightarrow> unit result"

type_synonym 'i observation = "'i option \<times> float64 \<times> label list"
type_synonym 'i outcome = "'i observation list result option"

fun create_counters :: "'i meter \<Rightarrow> string list \<Rightarrow> 'i option list result" where
  "create_counters meter [] = Inr []"
| "create_counters meter (name # names) =
     bind_res (Float64ObservableUpDownCounter meter name) (\<lambda>i.
     bind_res (create_counters meter names) (\<lambda>is. Inr (Some i # is)))"

definition observe_until_done ::
  "'i meter \<Rightarrow> nat \<Rightarrow> 'i option list \<Rightarrow> float64 list \<Rightarrow> label list \<Rightarrow> 'i outcome" where
  "observe_until_done meter cycles is vals labels =
     (case RegisterCallback meter is of
        Inl err \<Rightarrow> Some (Inl err)
      | Inr _ \<Rightarrow>
          if cycles = 0 then None
          else Some (Inr (concat (replicate cycles (map (\<lambda>(i, v). (i, v, labels)) (zip is vals))))))"

definition record_values ::
  "'i meter \<Rightarrow> nat \<Rightarrow> string list \<Rightarrow> float64 list \<Rightarrow> label list \<Rightarrow> 'i outcome" where
  "record_values meter cycles names vals labels =
     (case create_counters meter names of
        Inl err \<Rightarrow> Some (Inl err)
      | Inr is \<Rightarrow> observe_until_done meter cycles is vals labels)"

definition capacity_instruments :: "string list" where
  "capacity_instruments =
     [''total_capacity_gigabytes'', ''used_capacity_gigabytes'', ''used_capacity_percentage'']"

definition volume_instruments :: "string list" where
  "volume_instruments =
     [''_read_bw_megabytes_per_second'', ''_write_bw_megabytes_per_second'',
      ''_read_latency_milliseconds'', ''_write_latency_milliseconds'',
      ''_read_io_per_second'', ''_write_io_per_second'']"

definition group_instruments :: "string list" where
  "group_instruments = volume_instruments @ [''_average_io_size_megabytes_per_second'']"

definition mrw_RecordNumericMetrics ::
  "'i meter \<Rightarrow> nat \<Rightarrow> string \<Rightarrow> label list \<Rightarrow> capacity_record \<Rightarrow> 'i outcome" where
  "mrw_RecordNumericMetrics meter cycles prefix labels metric =
     record_values meter cycles (map (append prefix) capacity_instruments)
       [cr_Total metric, cr_Used metric,
        f64_div (f64_mul (cr_Used metric) (f64_of_int 100)) (cr_Total metric)] labels"

definition volume_perf_labels :: "vol_perf_record \<Rightarrow> label list" where
  "volume_perf_labels metric =
     [(''VolumeID'', vr_VolumeID metric), (''ArrayID'', vr_ArrayID metric),
      (''Driver'', vr_Driver metric), (''StorageClass'', vr_StorageClass metric),
      (''PersistentVolumeName'', vr_PersistentVolumeName metric),
      (''PersistentVolumeClaimName'', vr_PersistentVolumeClaimName metric),
      (''Namespace'', vr_Namespace metric), (''PlotWithMean'', ''No'')]"

definition mrw_RecordVolPerfMetrics ::
  "'i meter \<Rightarrow> nat \<Rightarrow> string \<Rightarrow> vol_perf_record \<Rightarrow> 'i outcome" where
  "mrw_RecordVolPerfMetrics meter cycles prefix metric =
     record_values meter cycles (map (append prefix) volume_instruments)
       [vr_MBRead metric, vr_MBWritten metric, vr_ReadResponseTime metric,
        vr_WriteResponseTime metric, vr_Reads metric, vr_Writes metric]
       (volume_perf_labels metric)"

definition group_perf_labels :: "sg_perf_record \<Rightarrow> label list" where
  "group_perf_labels metric =
     [(''ArrayID'', sr_ArrayID metric), (''StorageGroupID'', sr_StorageGroupID metric),
      (''PlotWithMean'', ''No'')]"

definition mrw_RecordStorageGroupPerfMetrics ::
  "'i meter \<Rightarrow> nat \<Rightarrow> string \<Rightarrow> sg_perf_record \<Rightarrow> 'i outcome" where
  "mrw_RecordStorageGroupPerfMetrics meter cycles prefix metric =
     record_values meter cycles (map (append prefix) group_instruments)
       [sr_HostMBReads metric, sr_HostMBWritten metric, sr_ReadResponseTime metric,
        sr_WriteResponseTime metric, sr_HostReads metric, sr_HostWrites metric,
        UnitsConvert (sr_AvgIOSize metric) KB MB]
       (group_perf_labels metric)"

lemma create_counters_Inr:
  "create_counters meter names = Inr is \<Longrightarrow> length is = length names \<and>
     list_all2 (\<lambda>n i. \<exists>c. i = Some c \<and> Float64ObservableUpDownCounter meter n = Inr c) names is"
  by (induction names arbitrary: "is") (auto simp: res_iff)

lemma create_counters_ok:
  "(\<And>n. n \<in> set names \<Longrightarrow> Float64ObservableUpDownCounter meter n = Inr (c n)) \<Longrightarrow>
     create_counters meter names = Inr (map (\<lambda>n. Some (c n)) names)"
  by (induction names) auto

lemma create_counters_first_error:
  "(\<And>n. n \<in> set us \<Longrightarrow> \<exists>c. Float64ObservableUpDownCounter meter n = Inr c) \<Longrightarrow>
   Float64ObservableUpDownCounter meter n = Inl err \<Longrightarrow>
   create_counters meter (us @ n # vs) = Inl err"
  by (induction us) (auto, metis bind_res_simps(2))

subsection \<open>Topology: the remembered labels\<close>

record 'i topology_state =
  ts_TopologyMetrics :: "string \<rightharpoonup> 'i option"
  ts_Labels :: "string \<rightharpoonup> label list"

definition topology_labels :: "topology_meta \<Rightarrow> label list" where
  "topology_labels v =
     [(''PersistentVolumeClaim'', tm_PersistentVolumeClaim v),
      (''Driver'', tm_Driver v),
      (''PersistentVolume'', tm_PersistentVolume v),
      (''PersistentVolumeStatus'', tm_PersistentVolumeStatus v),
      (''StorageClass'', tm_StorageClass v),
      (''PlotWithMean'', ''No''),
      (''StorageClass'', tm_StorageClass v),
      (''Namespace'', tm_Namespace v),
      (''ProvisionedSize'', tm_ProvisionedSize v),
      (''StorageSystemVolumeName'', tm_StorageSystemVolumeName v),
      (''StorageSystem'', tm_StorageSystem v),
      (''Protocol'', tm_Protocol v),
      (''CreatedTime'', tm_CreatedTime v)]"

text \<open>
  \<open>HaveLabelsChanged\<close>: the outer loop ranges over the stored labels and the inner one over the new
  labels. \<open>updatedLabels\<close> is the stored slice itself, but each turn of the outer loop writes only the
  element it has already read.
\<close>

fun label_scan :: "label \<Rightarrow> label \<Rightarrow> bool \<Rightarrow> label list \<Rightarrow> label \<times> bool" where
  "label_scan current updated changed [] = (updated, changed)"
| "label_scan current updated changed (new # rest) =
     (if fst current = fst new \<and> snd current \<noteq> snd new
      then label_scan current (fst updated, snd new) True rest
      else label_scan current updated changed rest)"

fun labels_loop :: "label list \<Rightarrow> label list \<Rightarrow> bool \<Rightarrow> label list \<times> bool" where
  "labels_loop labels [] changed = ([], changed)"
| "labels_loop labels (current # rest) changed =
     (let (updated, changed) = label_scan current current changed labels;
          (updatedRest, changed) = labels_loop labels rest changed
      in (updated # updatedRest, changed))"

definition HaveLabelsChanged :: "label list \<Rightarrow> label list \<Rightarrow> bool \<times> label list" where
  "HaveLabelsChanged currentLabels labels =
     (let (updatedLabels, haveLabelsChanged) = labels_loop labels currentLabels False
      in (haveLabelsChanged, updatedLabels))"

definition initTopologyMetrics ::
  "'i meter \<Rightarrow> string \<Rightarrow> label list \<Rightarrow> 'i topology_state \<Rightarrow> 'i option \<times> 'i topology_state" where
  "initTopologyMetrics meter metaID labels st =
     (let pvAvailable = (case Float64ObservableUpDownCounter meter ''karavi_topology_metrics'' of
            Inl err \<Rightarrow> None | Inr i \<Rightarrow> Some i)
      in (pvAvailable,
          st\<lparr>ts_TopologyMetrics := (ts_TopologyMetrics st)(metaID \<mapsto> pvAvailable),
             ts_Labels := (ts_Labels st)(metaID \<mapsto> labels)\<rparr>))"

definition updateLabels ::
  "'i meter \<Rightarrow> string \<Rightarrow> label list \<Rightarrow> 'i topology_state \<Rightarrow> 'i option \<times> 'i topology_state" where
  "updateLabels meter metaID labels st =
     (case ts_TopologyMetrics st metaID of
        None \<Rightarrow> initTopologyMetrics meter metaID labels st
      | Some metricsMapValue \<Rightarrow>
          (case ts_Labels st metaID of
             None \<Rightarrow> (metricsMapValue, st)
           | Some currentLabels \<Rightarrow>
               (case HaveLabelsChanged currentLabels labels of
                  (True, updatedLabels) \<Rightarrow> initTopologyMetrics meter metaID updatedLabels st
                | (False, _) \<Rightarrow> (metricsMapValue, st))))"

text \<open>A \<open>meta\<close> of another type than \<open>*TopologyMeta\<close> is \<open>None\<close>: no ID and no labels.\<close>

definition mrw_RecordTopologyMetrics ::
  "'i meter \<Rightarrow> nat \<Rightarrow> topology_meta option \<Rightarrow> topology_record \<Rightarrow> 'i topology_state \<Rightarrow>
   'i outcome \<times> 'i topology_state" where
  "mrw_RecordTopologyMetrics meter cycles meta metric st =
     (let metaID = (case meta of Some v \<Rightarrow> tm_PersistentVolume v | None \<Rightarrow> []);
          labels = (case meta of Some v \<Rightarrow> topology_labels v | None \<Rightarrow> []);
          (pvAvailable, st) = updateLabels meter metaID labels st
      in (observe_until_done meter cycles [pvAvailable] [f64_of_int (tr_PVAvailable metric)] labels, st))"

subsection \<open>What is observed\<close>

lemma record_values_outcome:
  assumes "\<And>n. n \<in> set names \<Longrightarrow> Float64ObservableUpDownCounter meter n = Inr (c n)"
    and "RegisterCallback meter (map (\<lambda>n. Some (c n)) names) = Inr ()" and "0 < cycles"
  shows "record_values meter cycles names vals labels =
    Some (Inr (concat (replicate cycles (map (\<lambda>(i, v). (i, v, labels)) (zip (map (\<lambda>n. Some (c n)) names) vals)))))"
  using assms by (simp add: record_values_def create_counters_ok observe_until_done_def)

text \<open>
  A record call without a failing instrument observes its three values, with the labels it was
  given, once in every collection cycle until it is woken; when the SDK never runs a cycle it never
  returns.
\<close>

lemma numeric_observations:
  assumes "\<And>n. Float64ObservableUpDownCounter meter n = Inr (c n)"
    and "\<And>is. RegisterCallback meter is = Inr ()"
  shows "mrw_RecordNumericMetrics meter (Suc cycles) prefix labels metric =
      Some (Inr (concat (replicate (Suc cycles)
        [(Some (c (prefix @ ''total_capacity_gigabytes'')), cr_Total metric, labels),
         (Some (c (prefix @ ''used_capacity_gigabytes'')), cr_Used metric, labels),
         (Some (c (prefix @ ''used_capacity_percentage'')),
          f64_div (f64_mul (cr_Used metric) (f64_of_int 100)) (cr_Total metric), labels)]))) \<and>
    mrw_RecordNumericMetrics meter 0 prefix labels metric = None"
  using assms
  by (simp add: mrw_RecordNumericMetrics_def capacity_instruments_def record_values_def
      observe_until_done_def)

definition string_meter :: "string meter" where
  "string_meter = \<lparr>Float64ObservableUpDownCounter = Inr, RegisterCallback = (\<lambda>is. Inr ())\<rparr>"

lemma f64_hundred: "f64_of_int 100 = Fin 100"
  using f64_of_int_exact [of 100] by simp

lemma mul_hundred_nonzero:
  assumes "wf64 (Fin r)" and "r \<noteq> 0"
  shows "\<exists>q. f64_mul (Fin r) (f64_of_int 100) = q \<and> (\<nexists>s. q = Zero s) \<and> q \<noteq> NaN"
proof -
  have r: "0 < \<bar>r\<bar>" using assms(2) by simp
  have m: "mag64 \<bar>r\<bar> = \<bar>r\<bar>"
    using assms by (auto simp: round64_def Let_def abs_if split: if_splits)
  have "\<bar>r\<bar> \<le> \<bar>r * 100\<bar>" by (simp add: abs_mult)
  then have "mag64 \<bar>r\<bar> \<le> mag64 \<bar>r * 100\<bar>" using r by (intro mag64_mono) simp_all
  then have "mag64 \<bar>r * 100\<bar> \<noteq> 0" using m r by simp
  then show ?thesis
    using assms(2) by (auto simp: f64_hundred round64_def Let_def)
qed

lemma percentage_NaN_iff:
  assumes "is_finite64 (cr_Used metric)" and "is_finite64 (cr_Total metric)" and "wf64 (cr_Used metric)"
  shows "f64_div (f64_mul (cr_Used metric) (f64_of_int 100)) (cr_Total metric) = NaN \<longleftrightarrow>
    (\<exists>s. cr_Used metric = Zero s) \<and> (\<exists>t. cr_Total metric = Zero t)"
proof (cases "cr_Used metric")
  case (Fin r)
  show ?thesis
  proof (cases "r = 0")
    case True
    then show ?thesis using Fin assms(3) by simp
  next
    case False
    obtain q where q: "f64_mul (cr_Used metric) (f64_of_int 100) = q" "\<nexists>s. q = Zero s" "q \<noteq> NaN"
      using mul_hundred_nonzero [of r] Fin assms(3) False by auto
    then show ?thesis using assms(2) Fin by (cases q; cases "cr_Total metric") auto
  qed
next
  case (Zero s)
  then show ?thesis using assms(2) by (cases "cr_Total metric") (auto simp: f64_hundred)
qed (use assms(1) in simp_all)

text \<open>
  C31. The observed percentage is recomputed from the sums without the guard that the collector
  applies to its own percentage: a call that records finite binary64 values observes NaN exactly when
  both the used and the total capacity are zero, which is what the empty record and every unused
  zero-sized group report.
\<close>

theorem percentage_observed_NaN:
  assumes "\<And>n. Float64ObservableUpDownCounter meter n = Inr (c n)"
    and "\<And>is. RegisterCallback meter is = Inr ()"
    and "is_finite64 (cr_Used metric)" and "is_finite64 (cr_Total metric)" and "wf64 (cr_Used metric)"
  shows "\<exists>obs. mrw_RecordNumericMetrics meter (Suc cycles) prefix labels metric = Some (Inr obs) \<and>
    (list_ex (\<lambda>(i, v, ls). i = Some (c (prefix @ ''used_capacity_percentage'')) \<and> v = NaN) obs \<longleftrightarrow>
      (\<exists>s. cr_Used metric = Zero s) \<and> (\<exists>t. cr_Total metric = Zero t))"
proof -
  let ?p = "f64_div (f64_mul (cr_Used metric) (f64_of_int 100)) (cr_Total metric)"
  have "cr_Used metric \<noteq> NaN" "cr_Total metric \<noteq> NaN" using assms(3,4) by auto
  then show ?thesis
    using conjunct1 [OF numeric_observations [OF assms(1,2)]] percentage_NaN_iff [OF assms(3-5)]
    by (auto simp: list_ex_iff)
qed

theorem percentage_observed_NaN_witness:
  "\<exists>obs. mrw_RecordNumericMetrics string_meter 1 ''powermax_array_'' [] empty_capacity_record = Some (Inr obs) \<and>
     list_ex (\<lambda>(i, v, ls). i = Some ''powermax_array_used_capacity_percentage'' \<and> v = NaN) obs"
  using percentage_observed_NaN [of string_meter "\<lambda>n. n" empty_capacity_record 0 "''powermax_array_''" "[]"]
  by (simp add: string_meter_def empty_capacity_record_def ex_bool_eq)

subsection \<open>The remembered labels follow the volume\<close>

lemma label_scan_eq:
  "label_scan cur upd ch ls =
     ((case find (\<lambda>n. fst n = fst cur \<and> snd n \<noteq> snd cur) (rev ls) of
         None \<Rightarrow> upd | Some n \<Rightarrow> (fst upd, snd n)),
      ch \<or> list_ex (\<lambda>n. fst n = fst cur \<and> snd n \<noteq> snd cur) ls)"
proof (induction ls arbitrary: upd ch)
  case Nil
  then show ?case by simp
next
  case (Cons new ls)
  have find_snoc: "find P (xs @ [x]) = (case find P xs of Some y \<Rightarrow> Some y | None \<Rightarrow> if P x then Some x else None)"
    for P :: "label \<Rightarrow> bool" and xs x by (induction xs) auto
  show ?case
    by (auto simp: Cons.IH find_snoc split: option.splits)
qed

definition consistent_labels :: "label list \<Rightarrow> bool" where
  "consistent_labels ls \<longleftrightarrow> (\<forall>x\<in>set ls. \<forall>y\<in>set ls. fst x = fst y \<longrightarrow> x = y)"

lemma label_scan_consistent:
  assumes "consistent_labels ls" and "new \<in> set ls" and "fst new = fst cur"
  shows "label_scan cur cur ch ls = (new, ch \<or> cur \<noteq> new)"
proof -
  have all: "n = new" if "n \<in> set ls" "fst n = fst cur" for n
    using assms that by (simp add: consistent_labels_def)
  show ?thesis
  proof (cases "cur = new")
    case True
    then have "find (\<lambda>n. fst n = fst cur \<and> snd n \<noteq> snd cur) (rev ls) = None"
      using all by (auto simp: find_None_filter filter_empty_conv)
    moreover have "\<not> list_ex (\<lambda>n. fst n = fst cur \<and> snd n \<noteq> snd cur) ls"
      using all True by (auto simp: list_ex_iff)
    ultimately show ?thesis using True by (simp add: label_scan_eq)
  next
    case False
    then have diff: "snd new \<noteq> snd cur" using assms(3) by (metis prod.expand)
    with assms(2,3) have ex: "list_ex (\<lambda>n. fst n = fst cur \<and> snd n \<noteq> snd cur) ls"
      by (auto simp: list_ex_iff)
    then obtain n where n: "find (\<lambda>n. fst n = fst cur \<and> snd n \<noteq> snd cur) (rev ls) = Some n"
      by (cases "find (\<lambda>n. fst n = fst cur \<and> snd n \<noteq> snd cur) (rev ls)")
        (auto simp: find_None_filter filter_empty_conv list_ex_iff)
    with all have "n = new" using find_SomeD [OF n] by simp
    with n ex False assms(3) show ?thesis by (simp add: label_scan_eq prod_eq_iff)
  qed
qed

lemma labels_loop_consistent:
  assumes "consistent_labels ls" and "set news \<subseteq> set ls" and "map fst cur = map fst news"
  shows "labels_loop ls cur ch = (news, ch \<or> cur \<noteq> news)"
  using assms(2,3)
proof (induction cur arbitrary: news ch)
  case Nil
  then show ?case by simp
next
  case (Cons c cur)
  then obtain n ns where news: "news = n # ns" "n \<in> set ls" "set ns \<subseteq> set ls" "fst n = fst c"
    "map fst cur = map fst ns" by (cases news) auto
  then show ?case
    using label_scan_consistent [OF assms(1) news(2,4)] Cons.IH [OF news(3,5)] by auto
qed

lemma topology_labels_consistent: "consistent_labels (topology_labels v)"
  by (simp add: consistent_labels_def topology_labels_def)

lemma topology_labels_changed:
  "HaveLabelsChanged (topology_labels v) (topology_labels w) =
     (topology_labels v \<noteq> topology_labels w, topology_labels w)"
proof -
  have "map fst (topology_labels v) = map fst (topology_labels w)" by (simp add: topology_labels_def)
  then show ?thesis
    using labels_loop_consistent [OF topology_labels_consistent, of "topology_labels w" w]
    by (simp add: HaveLabelsChanged_def)
qed

text \<open>
  A relabelled volume is noticed and fully updated: against the labels of one metadata record the scan
  with the labels of another reports a change exactly when some label differs, and what it returns are the
  new labels, although the list has a duplicated key and the stored labels are updated in place.
\<close>

theorem labels_follow:
  "HaveLabelsChanged (topology_labels v) (topology_labels w) =
     (topology_labels v \<noteq> topology_labels w, topology_labels w)"
  by (rule topology_labels_changed)

definition record_all :: "'i meter \<Rightarrow> nat \<Rightarrow> (topology_meta \<times> topology_record) list \<Rightarrow> 'i topology_state" where
  "record_all meter cycles ms = foldl (\<lambda>st (v, r). snd (mrw_RecordTopologyMetrics meter cycles (Some v) r st))
     \<lparr>ts_TopologyMetrics = Map.empty, ts_Labels = Map.empty\<rparr> ms"

text \<open>
  After any sequence of topology records the remembered labels of a volume are those of the last
  record about it, exactly the volumes that were recorded have an instrument, and none is ever
  forgotten.
\<close>

theorem remembered_labels:
  "ts_Labels (record_all meter cycles ms) i =
     map_option (\<lambda>m. topology_labels (fst m)) (find (\<lambda>m. tm_PersistentVolume (fst m) = i) (rev ms)) \<and>
   dom (ts_TopologyMetrics (record_all meter cycles ms)) = (\<lambda>m. tm_PersistentVolume (fst m)) ` set ms"
proof (induction ms arbitrary: i rule: rev_induct)
  case Nil
  then show ?case by (simp add: record_all_def)
next
  case (snoc m ms)
  obtain v r where m: "m = (v, r)" by (cases m)
  let ?st = "record_all meter cycles ms"
  let ?k = "tm_PersistentVolume v"
  have st: "record_all meter cycles (ms @ [(v, r)]) = snd (updateLabels meter ?k (topology_labels v) ?st)"
    by (simp add: record_all_def mrw_RecordTopologyMetrics_def Let_def case_prod_beta)
  have dom_eq: "dom (ts_TopologyMetrics ?st) = (\<lambda>m. tm_PersistentVolume (fst m)) ` set ms"
    using snoc [of ?k] by simp
  show ?case
  proof (cases "ts_TopologyMetrics ?st ?k")
    case None
    then show ?thesis
      using snoc [of i]
      by (simp add: st m updateLabels_def initTopologyMetrics_def Let_def del: fun_upd_apply)
        (simp add: fun_upd_def)
  next
    case (Some x)
    then have "?k \<in> (\<lambda>m. tm_PersistentVolume (fst m)) ` set ms" using dom_eq by blast
    then obtain w where w: "find (\<lambda>m. tm_PersistentVolume (fst m) = ?k) (rev ms) = Some w"
      by (cases "find (\<lambda>m. tm_PersistentVolume (fst m) = ?k) (rev ms)")
        (auto simp: find_None_filter filter_empty_conv)
    then have old: "ts_Labels ?st ?k = Some (topology_labels (fst w))" using snoc [of ?k] by simp
    have ins: "insert ?k ((\<lambda>m. tm_PersistentVolume (fst m)) ` set ms) = (\<lambda>m. tm_PersistentVolume (fst m)) ` set ms"
      using Some dom_eq by blast
    show ?thesis
    proof (cases "topology_labels (fst w) = topology_labels v")
      case True
      then have "updateLabels meter ?k (topology_labels v) ?st = (x, ?st)"
        using Some old by (simp add: updateLabels_def topology_labels_changed)
      then show ?thesis using snoc [of i] w True ins by (cases w; cases "?k = i") (auto simp: st m)
    next
      case False
      then show ?thesis
        using snoc [of i] Some old
        by (simp add: st m updateLabels_def initTopologyMetrics_def topology_labels_changed Let_def
            del: fun_upd_apply) (simp add: fun_upd_def)
    qed
  qed
qed

end
