(* ===== verification/Service.thy ===== *)
theory Service
  imports Capacity_Push Performance_Facts Topology
begin

section \<open>The service (\<open>internal/service\<close>)\<close>

text \<open>
  \<open>PowerMaxService\<close> owns what the collectors copy, exports each kind of metrics through the
  collector singleton of that kind, and records self-metrics about every export. The Prometheus
  instrumenter is a library; what the program sends it is a list of calls.
\<close>

subsection \<open>\<open>PMAXObsInstrumenter\<close> (\<open>observability_metrics.go\<close>)\<close>

definition second_ns :: int where
  "second_ns = 1000000000"

text \<open>\<open>Duration.Seconds\<close> for a non-negative duration in nanoseconds.\<close>

definition duration_seconds :: "int \<Rightarrow> float64" where
  "duration_seconds d = f64_add (f64_of_int (d div second_ns))
     (f64_div (f64_of_int (d mod second_ns)) (f64_of_int second_ns))"

text \<open>\<open>time.Duration(seconds * float64(time.Second))\<close>: the conversion truncates; it is only used on
  the finite, non-negative values of \<open>duration_seconds\<close>.\<close>

definition seconds_to_duration :: "float64 \<Rightarrow> int" where
  "seconds_to_duration s = \<lfloor>f64_val (f64_mul s (f64_of_int second_ns))\<rfloor>"

datatype obs_call =
    RecordArrayConnectivity string string bool
  | CollectionRate string string float64
  | ProcessingLatency string string int
  | ExportSuccess string string string

definition obsModuleLabel :: string where
  "obsModuleLabel = ''metrics-powermax''"

text \<open>
  A \<open>*PMAXObsInstrumenter\<close> is \<open>None\<close> when nil, and its inner instrumenter is present or nil. Every
  method is guarded against both.
\<close>

type_synonym obs_instrumenter = "unit option option"

definition obs_guard :: "obs_instrumenter \<Rightarrow> obs_call \<Rightarrow> obs_call list" where
  "obs_guard i call = (case i of Some (Some _) \<Rightarrow> [call] | _ \<Rightarrow> [])"

definition RecordCollectionRate :: "obs_instrumenter \<Rightarrow> string \<Rightarrow> float64 \<Rightarrow> obs_call list" where
  "RecordCollectionRate i arrayID rate = obs_guard i (CollectionRate obsModuleLabel arrayID rate)"

definition RecordExportSuccess :: "obs_instrumenter \<Rightarrow> string \<Rightarrow> string \<Rightarrow> obs_call list" where
  "RecordExportSuccess i arrayID status = obs_guard i (ExportSuccess obsModuleLabel arrayID status)"

definition SetArrayConnectivity :: "obs_instrumenter \<Rightarrow> string \<Rightarrow> bool \<Rightarrow> obs_call list" where
  "SetArrayConnectivity i arrayID isConnected =
     obs_guard i (RecordArrayConnectivity obsModuleLabel arrayID isConnected)"

definition RecordProcessingLatency :: "obs_instrumenter \<Rightarrow> string \<Rightarrow> float64 \<Rightarrow> obs_call list" where
  "RecordProcessingLatency i arrayID seconds =
     obs_guard i (ProcessingLatency obsModuleLabel arrayID (seconds_to_duration seconds))"

subsection \<open>\<open>PowerMaxService\<close> (\<open>service.go\<close>)\<close>

record powermax_service =
  ps_MetricsRecorder :: "metrics_recorder option"
  ps_ObsInstrumenter :: obs_instrumenter
  ps_MaxPowerMaxConnections :: int
  ps_PowerMaxClients :: "client_map option"
  ps_VolumeFinder :: "unit \<Rightarrow> volume_info list result"

definition DefaultMaxPowerMaxConnections :: int where
  "DefaultMaxPowerMaxConnections = 10"

text \<open>\<open>maps.Clone\<close> keeps a nil map nil and is a snapshot of any other.\<close>

definition maps_Clone :: "client_map option \<Rightarrow> client_map option" where
  "maps_Clone m = (case m of None \<Rightarrow> None | Some kvs \<Rightarrow> Some kvs)"

definition GetPowerMaxClients :: "powermax_service \<Rightarrow> client_map option" where
  "GetPowerMaxClients s = maps_Clone (ps_PowerMaxClients s)"

definition SetPowerMaxClients :: "client_map option \<Rightarrow> powermax_service \<Rightarrow> powermax_service" where
  "SetPowerMaxClients clients s = s\<lparr>ps_PowerMaxClients := maps_Clone clients\<rparr>"

definition service_view_of :: "powermax_service \<Rightarrow> service_view" where
  "service_view_of s =
     \<lparr>sv_VolumeFinder = ps_VolumeFinder s, sv_PowerMaxClients = GetPowerMaxClients s,
      sv_MetricsRecorder = ps_MetricsRecorder s,
      sv_MaxPowerMaxConnections = ps_MaxPowerMaxConnections s\<rparr>"

subsection \<open>\<open>recordObsMetrics\<close>\<close>

fun any_active :: "powermax_array list \<Rightarrow> bool" where
  "any_active [] = False"
| "any_active (a # rest) = (if pa_IsActive a then True else any_active rest)"

definition obs_of_array ::
  "obs_instrumenter \<Rightarrow> int \<Rightarrow> error option \<Rightarrow> string \<times> powermax_array list \<Rightarrow> obs_call list" where
  "obs_of_array i elapsed exportErr entry =
     (let (arrayID, arrays) = entry;
          isActive = any_active arrays;
          status = (if \<not> isActive then ''error''
                    else if exportErr \<noteq> None then ''failure'' else ''success'')
      in SetArrayConnectivity i arrayID isActive @
         RecordCollectionRate i arrayID (f64_of_int (int (length arrays))) @
         RecordProcessingLatency i arrayID (duration_seconds elapsed) @
         RecordExportSuccess i arrayID status)"

text \<open>\<open>ord\<close> is the order of the range over the snapshot of the clients.\<close>

definition recordObsMetrics ::
  "(client_map \<Rightarrow> client_map) \<Rightarrow> int \<Rightarrow> error option \<Rightarrow> powermax_service \<Rightarrow> obs_call list" where
  "recordObsMetrics ord elapsed exportErr s =
     (if ps_ObsInstrumenter s = None then []
      else case GetPowerMaxClients s of
             None \<Rightarrow> []
           | Some clients \<Rightarrow>
               concat (map (obs_of_array (ps_ObsInstrumenter s) elapsed exportErr) (ord clients)))"

subsection \<open>The three exports\<close>

text \<open>
  One export: fetch or create the singleton \<open>inst\<close>, run \<open>ExportMetrics\<close> on it with what the volume
  finder answers this time, and record the self-metrics of the service as it is now.
\<close>

definition export_error :: "'o result \<Rightarrow> error option" where
  "export_error res = (case res of Inl err \<Rightarrow> Some err | Inr _ \<Rightarrow> None)"

definition service_export ::
  "(base_metrics \<Rightarrow> 'o result \<Rightarrow> bool) \<Rightarrow> string \<Rightarrow> (client_map \<Rightarrow> client_map) \<Rightarrow>
   powermax_service \<Rightarrow> volume_info list result \<Rightarrow> int \<Rightarrow> base_metrics option \<Rightarrow>
   'o result \<Rightarrow> obs_call list \<Rightarrow> base_metrics option \<Rightarrow> bool" where
  "service_export collect typeName ord s found elapsed inst res calls inst' \<longleftrightarrow>
     (let (m, i) = create_instance (\<lambda>base. base) (service_view_of s) inst
      in inst' = i \<and> exports collect typeName (m\<lparr>bm_VolumeFinder := \<lambda>_. found\<rparr>) res \<and>
         calls = recordObsMetrics ord elapsed (export_error res) s)"

definition ExportCapacityMetrics where
  "ExportCapacityMetrics = service_export capacity_Collect ''*metric.CapacityMetrics''"

definition ExportPerformanceMetrics where
  "ExportPerformanceMetrics ratio clock cache =
     service_export (performance_Collect ratio clock cache) ''*metric.PerformanceMetrics''"

definition ExportTopologyMetrics where
  "ExportTopologyMetrics = service_export topology_Collect ''*metric.TopologyMetrics''"

subsection \<open>Properties\<close>

lemma any_active_iff: "any_active as \<longleftrightarrow> list_ex pa_IsActive as"
  by (induction as) auto

lemma obs_statuses:
  "ps_ObsInstrumenter s = Some (Some ()) \<Longrightarrow> ps_PowerMaxClients s = Some cm \<Longrightarrow>
   [(a, st). ExportSuccess l a st \<leftarrow> recordObsMetrics ord elapsed err s] =
   map (\<lambda>(a, as). (a, if list_ex pa_IsActive as then if err = None then ''success'' else ''failure'' else ''error''))
     (ord cm)"
proof -
  have "[(a, st). ExportSuccess l a st \<leftarrow> concat (map (obs_of_array (Some (Some ())) elapsed err) kvs)] =
    map (\<lambda>(a, as). (a, if list_ex pa_IsActive as then if err = None then ''success'' else ''failure'' else ''error'')) kvs"
    for kvs
    by (induction kvs) (auto simp: obs_of_array_def Let_def SetArrayConnectivity_def RecordCollectionRate_def
        RecordProcessingLatency_def RecordExportSuccess_def obs_guard_def any_active_iff)
  then show "ps_ObsInstrumenter s = Some (Some ()) \<Longrightarrow> ps_PowerMaxClients s = Some cm \<Longrightarrow>
   [(a, st). ExportSuccess l a st \<leftarrow> recordObsMetrics ord elapsed err s] =
   map (\<lambda>(a, as). (a, if list_ex pa_IsActive as then if err = None then ''success'' else ''failure'' else ''error''))
     (ord cm)"
    by (simp add: recordObsMetrics_def GetPowerMaxClients_def maps_Clone_def)
qed

lemma success_reported:
  assumes "ps_ObsInstrumenter s = Some (Some ())" and "ps_PowerMaxClients s = Some cm"
    and "(a, as) \<in> set (ord cm)" and "list_ex pa_IsActive as"
  shows "\<exists>l. ExportSuccess l a ''success'' \<in> set (recordObsMetrics ord elapsed None s)"
proof -
  have "(a, ''success'') \<in> set [(a, st). ExportSuccess l a st \<leftarrow> recordObsMetrics ord elapsed None s]"
    unfolding obs_statuses [OF assms(1,2)] using assms(3,4) by force
  then show ?thesis by (force split: obs_call.splits)
qed

text \<open>
  After every export each known array gets exactly one status: error when none of its endpoints is
  active, otherwise failure or success as the export went; and nothing at all is recorded without
  an instrumenter.
\<close>

theorem one_status_per_array:
  "[(a, st). ExportSuccess l a st \<leftarrow> recordObsMetrics ord elapsed err
       (s\<lparr>ps_ObsInstrumenter := Some (Some ()), ps_PowerMaxClients := Some cm\<rparr>)] =
   map (\<lambda>(a, as). (a, if list_ex pa_IsActive as then if err = None then ''success'' else ''failure'' else ''error''))
     (ord cm) \<and>
   recordObsMetrics ord elapsed err (s\<lparr>ps_ObsInstrumenter := None\<rparr>) = [] \<and>
   recordObsMetrics ord elapsed err (s\<lparr>ps_ObsInstrumenter := Some None\<rparr>) = []"
proof -
  have none: "concat (map (obs_of_array (Some None) elapsed err) kvs) = []" for kvs
    by (auto simp: obs_of_array_def Let_def SetArrayConnectivity_def RecordCollectionRate_def
        RecordProcessingLatency_def RecordExportSuccess_def obs_guard_def)
  show ?thesis
    by (intro conjI obs_statuses)
      (simp_all add: recordObsMetrics_def none del: concat_eq_Nil_conv split: option.splits)
qed

text \<open>
  The base an export runs on: the singleton's, or a copy of the service when there is none yet. With a
  recorder, a positive limit and clients that are not nil, every export has an outcome, for every collector, and
  it succeeds exactly when the base has clients and the volumes can be listed.
\<close>

definition collector_base :: "powermax_service \<Rightarrow> base_metrics option \<Rightarrow> base_metrics" where
  "collector_base s inst = (case inst of None \<Rightarrow> created_base (service_view_of s) | Some b \<Rightarrow> b)"

definition base_ready :: "base_metrics \<Rightarrow> bool" where
  "base_ready b \<longleftrightarrow> bm_Collector b \<noteq> None \<and> base_ok b \<and> bm_MetricsRecorder b \<noteq> None \<and> 0 < bm_MaxPowerMaxConnections b"

lemma service_export_iff:
  "service_export collect ty ord s found t inst res calls inst' \<longleftrightarrow>
     inst' = Some (collector_base s inst) \<and>
     exports collect ty ((collector_base s inst)\<lparr>bm_VolumeFinder := \<lambda>_. found\<rparr>) res \<and>
     calls = recordObsMetrics ord t (export_error res) s"
  by (auto simp: service_export_def create_instance_def collector_base_def created_base_def Let_def split: option.splits)

context metrics_collector
begin

lemma service_export_outcomes:
  assumes "base_ready (collector_base s inst)"
  shows "(\<exists>res calls inst'. service_export collect ty ord s found t inst res calls inst') \<and>
    (\<forall>res calls inst'. service_export collect ty ord s found t inst res calls inst' \<longrightarrow>
       ((\<exists>x. res = Inr x) \<longleftrightarrow> bm_PowerMaxClients (collector_base s inst) \<noteq> None \<and> (\<exists>pvs. found = Inr pvs)))"
proof -
  let ?b = "(collector_base s inst)\<lparr>bm_VolumeFinder := \<lambda>_. found\<rparr>"
  have b: "base_ok ?b" "0 < bm_MaxPowerMaxConnections ?b" using assms by (simp_all add: base_ready_def base_ok_def)
  have complete: "complete_base ?b \<longleftrightarrow> bm_PowerMaxClients (collector_base s inst) \<noteq> None"
    using assms by (auto simp: complete_base_def base_ready_def)
  obtain res where "exports collect ty ?b res" using export_total [OF b] by blast
  moreover have "(\<exists>x. res = Inr x) \<longleftrightarrow> bm_PowerMaxClients (collector_base s inst) \<noteq> None \<and>
      (\<exists>pvs. found = Inr pvs)" if "exports collect ty ?b res" for res
    using export_succeeds_iff [OF that] complete by simp
  ultimately show ?thesis unfolding service_export_iff by blast
qed

text \<open>An export from a ready base panics only if the listing of the volumes does.\<close>

lemma service_export_no_panic:
  assumes "base_ready (collector_base s inst)" and "\<And>m. found \<noteq> Inl (Panic m)"
    and "service_export collect ty ord s found t inst res calls inst'"
  shows "res \<noteq> Inl (Panic msg)"
proof -
  let ?b = "(collector_base s inst)\<lparr>bm_VolumeFinder := \<lambda>_. found\<rparr>"
  have e: "exports collect ty ?b res" using assms(3) by (simp add: service_export_iff)
  show ?thesis
  proof (cases "complete_base ?b")
    case True
    show ?thesis
    proof (cases found)
      case (Inl err)
      then have "res = Inl err" using export_finder_error [OF True, of err ty res] e by simp
      with assms(2) Inl show ?thesis by auto
    next
      case (Inr pvs)
      then have "\<exists>x. res = Inr x" using export_succeeds_iff [OF e] True by simp
      then show ?thesis by auto
    qed
  next
    case False
    then show ?thesis using e by (auto simp: exports_def ExportMetrics_def complete_base_def split: option.splits if_splits)
  qed
qed

lemma service_export_Inr:
  assumes "service_export collect ty ord s found t inst (Inr x) calls inst'"
  shows "collect ((collector_base s inst)\<lparr>bm_VolumeFinder := \<lambda>_. found\<rparr>) (Inr x)"
proof -
  let ?b = "(collector_base s inst)\<lparr>bm_VolumeFinder := \<lambda>_. found\<rparr>"
  have e: "exports collect ty ?b (Inr x)" using assms by (simp add: service_export_iff)
  then have "complete_base ?b" using export_succeeds_iff [OF e] by blast
  then obtain c where c: "collect ?b c" "ExportMetrics ty c ?b = Inr x"
    using e by (auto simp: exports_def)
  have "c = Inr x" using c(2) unfolding export_guards by auto
  with c(1) show ?thesis by simp
qed

end

text \<open>
  An update of the service's clients after the first export changes what the self-metrics report
  but not what is collected: the next export still runs on the clients copied at the first one.
\<close>

theorem update_never_collected:
  assumes "service_export collect ty ord s1 found1 t1 None res1 calls1 inst"
    and "service_export collect ty ord (SetPowerMaxClients clients s1) found2 t2 inst res2 calls2 inst'"
  shows "inst' = Some (created_base (service_view_of s1)) \<and>
    exports collect ty ((created_base (service_view_of s1))\<lparr>bm_VolumeFinder := \<lambda>_. found2\<rparr>) res2 \<and>
    calls2 = recordObsMetrics ord t2 (export_error res2) (SetPowerMaxClients clients s1)"
  using assms by (auto simp: service_export_def create_instance_def created_base_def Let_def)

definition sample_service :: powermax_service where
  "sample_service = \<lparr>ps_MetricsRecorder = Some sample_recorder, ps_ObsInstrumenter = Some (Some ()),
     ps_MaxPowerMaxConnections = 10, ps_PowerMaxClients = Some [(''0257'', [sample_array])],
     ps_VolumeFinder = (\<lambda>_. Inr [sample_volume])\<rparr>"

lemma sample_service_base: "created_base (service_view_of sample_service) = sample_base"
  by (simp add: created_base_def NewBaseMetrics_def service_view_of_def sample_service_def sample_base_def
      GetPowerMaxClients_def maps_Clone_def)

theorem update_never_collected_witness:
  "\<exists>res. exports capacity_Collect ''t'' sample_base res \<and>
     recordObsMetrics (\<lambda>m. m) 0 (export_error res) (SetPowerMaxClients None sample_service) = []"
proof -
  let ?found = "Inr [sample_volume]"
  have same: "(sample_base :: base_metrics)\<lparr>bm_VolumeFinder := \<lambda>_. ?found\<rparr> = sample_base"
    by (simp add: sample_base_def)
  obtain res where e: "exports capacity_Collect ''t'' sample_base res"
    using capacity_collector.export_total [OF sample_base_ok sample_base_limit] by blast
  have first: "service_export capacity_Collect ''t'' (\<lambda>m. m) sample_service ?found 0 None res
      (recordObsMetrics (\<lambda>m. m) 0 (export_error res) sample_service) (Some sample_base)"
    using e by (simp add: service_export_def create_instance_def sample_service_base [unfolded created_base_def] same)
  have second: "service_export capacity_Collect ''t'' (\<lambda>m. m) (SetPowerMaxClients None sample_service) ?found 0
      (Some sample_base) res
      (recordObsMetrics (\<lambda>m. m) 0 (export_error res) (SetPowerMaxClients None sample_service)) (Some sample_base)"
    using e by (simp add: service_export_def create_instance_def same)
  from update_never_collected [OF first second] show ?thesis
    using e by (auto simp: recordObsMetrics_def GetPowerMaxClients_def SetPowerMaxClients_def maps_Clone_def)
qed

end
