(* ===== verification/K8s_Pmax.thy ===== *)
theory K8s_Pmax
  imports Samples
begin

section \<open>From the proxy configuration to live clients (\<open>internal/k8spmax\<close>)\<close>

text \<open>
  \<open>getPowerMaxArrays\<close> and \<open>getPowerMaxArraysFromSecret\<close> turn the configuration of the CSI reverse
  proxy into one entry per endpoint of each storage array; \<open>GetPowerMaxArrays\<close> connects to every
  endpoint and keeps those that authenticate. The proxy library and gopowermax are not part of the
  repository: what their readers and constructors answer is a parameter.
\<close>

subsection \<open>The configuration\<close>

text \<open>\<open>url.URL\<close>: the text that \<open>String()\<close> renders and the field \<open>Host\<close>.\<close>

record url =
  url_String :: string
  url_Host :: string

record storage_array =
  sac_StorageArrayIdentifier :: string
  sac_PrimaryEndpoint :: url
  sac_SecondaryEndpoint :: url

record management_server =
  ms_Endpoint :: url
  ms_SkipCertificateValidation :: bool
  ms_Credentials_UserName :: string
  ms_Credentials_Password :: string
  ms_Username :: string
  ms_Password :: string

record proxy_config =
  pc_StorageArrays :: "storage_array list"
  pc_ManagementServers :: "management_server list"

fun getManagementServer :: "string \<Rightarrow> management_server list \<Rightarrow> management_server option" where
  "getManagementServer u [] = None"
| "getManagementServer u (server # rest) =
     (if u = url_String (ms_Endpoint server) then Some server else getManagementServer u rest)"

text \<open>
  One entry: the two functions differ in the fields of the server they take the credentials
  from, which are the arguments \<open>user\<close> and \<open>pass\<close>.
\<close>

definition endpoint_entry ::
  "(management_server \<Rightarrow> string) \<Rightarrow> (management_server \<Rightarrow> string) \<Rightarrow> management_server list \<Rightarrow>
   string \<Rightarrow> bool \<Rightarrow> url \<Rightarrow> powermax_array" where
  "endpoint_entry user pass servers arrayID primary endpoint =
     (let entry = zero_powermax_array\<lparr>pa_StorageArrayID := arrayID, pa_IsPrimary := primary,
            pa_Endpoint := url_String endpoint\<rparr>
      in case getManagementServer (pa_Endpoint entry) servers of
           None \<Rightarrow> entry
         | Some managementServer \<Rightarrow>
             entry\<lparr>pa_Insecure := ms_SkipCertificateValidation managementServer,
                   pa_Username := user managementServer, pa_Password := pass managementServer\<rparr>)"

definition array_entries ::
  "(management_server \<Rightarrow> string) \<Rightarrow> (management_server \<Rightarrow> string) \<Rightarrow> management_server list \<Rightarrow>
   storage_array \<Rightarrow> powermax_array list" where
  "array_entries user pass servers sa =
     (let arrayID = sac_StorageArrayIdentifier sa;
          arrayList = [endpoint_entry user pass servers arrayID True (sac_PrimaryEndpoint sa)]
      in if url_Host (sac_SecondaryEndpoint sa) \<noteq> []
         then arrayList @ [endpoint_entry user pass servers arrayID False (sac_SecondaryEndpoint sa)]
         else arrayList)"

definition arrays_of_config ::
  "(management_server \<Rightarrow> string) \<Rightarrow> (management_server \<Rightarrow> string) \<Rightarrow> proxy_config \<Rightarrow> client_map" where
  "arrays_of_config user pass proxyConfig =
     foldl (\<lambda>arrayMap sa.
       AList.update (sac_StorageArrayIdentifier sa)
         ((case map_of arrayMap (sac_StorageArrayIdentifier sa) of Some l \<Rightarrow> l | None \<Rightarrow> []) @
          array_entries user pass (pc_ManagementServers proxyConfig) sa) arrayMap)
       [] (pc_StorageArrays proxyConfig)"

definition getPowerMaxArrays :: "proxy_config \<Rightarrow> client_map" where
  "getPowerMaxArrays = arrays_of_config ms_Credentials_UserName ms_Credentials_Password"

definition getPowerMaxArraysFromSecret :: "proxy_config \<Rightarrow> client_map" where
  "getPowerMaxArraysFromSecret = arrays_of_config ms_Username ms_Password"

subsection \<open>Connecting\<close>

definition defaultU4PVersion :: string where
  "defaultU4PVersion = ''100''"

definition Authenticate :: "pmax_client \<Rightarrow> powermax_array \<Rightarrow> unit result" where
  "Authenticate client array =
     Authenticate_call client
       \<lparr>cc_Endpoint = pa_Endpoint array, cc_Username = pa_Username array,
        cc_Password = pa_Password array, cc_Version = defaultU4PVersion\<rparr>"

text \<open>The body of the inner loop; \<open>newClient\<close> is \<open>pmax.NewClientWithArgs\<close> on the endpoint.\<close>

definition connect_array ::
  "(string \<Rightarrow> pmax_client result) \<Rightarrow> powermax_array \<Rightarrow> powermax_array option" where
  "connect_array newClient array =
     (case newClient (pa_Endpoint array) of
        Inl err \<Rightarrow> None
      | Inr c \<Rightarrow>
          (case Authenticate c array of
             Inl err \<Rightarrow> None
           | Inr _ \<Rightarrow> Some (array\<lparr>pa_IsActive := True, pa_Client := Some c\<rparr>)))"

fun connect_list ::
  "(string \<Rightarrow> pmax_client result) \<Rightarrow> string \<Rightarrow> client_map \<Rightarrow> powermax_array list \<Rightarrow> client_map" where
  "connect_list newClient arrayID arrayMap [] = arrayMap"
| "connect_list newClient arrayID arrayMap (array # rest) =
     (case connect_array newClient array of
        None \<Rightarrow> connect_list newClient arrayID arrayMap rest
      | Some live \<Rightarrow>
          connect_list newClient arrayID
            (AList.update arrayID
              ((case map_of arrayMap arrayID of Some l \<Rightarrow> l | None \<Rightarrow> []) @ [live]) arrayMap) rest)"

fun connect_all ::
  "(string \<Rightarrow> pmax_client result) \<Rightarrow> client_map \<Rightarrow> client_map \<Rightarrow> client_map" where
  "connect_all newClient arrayMap [] = arrayMap"
| "connect_all newClient arrayMap ((arrayID, arrayList) # rest) =
     connect_all newClient (connect_list newClient arrayID arrayMap arrayList) rest"

text \<open>
  \<open>GetPowerMaxArrays\<close>: a nil \<open>k8sUtils\<close> is an error; the environment variable chooses the
  source; each source has a reader and a constructor that may fail (together one result);
  \<open>ord\<close> is the order of the range over the configured arrays.
\<close>

definition GetPowerMaxArrays ::
  "bool \<Rightarrow> string \<Rightarrow> proxy_config result \<Rightarrow> proxy_config result \<Rightarrow> (string \<Rightarrow> pmax_client result) \<Rightarrow>
   (client_map \<Rightarrow> client_map) \<Rightarrow> client_map result" where
  "GetPowerMaxArrays haveUtils useSecret fromSecret fromFile newClient order =
     (if \<not> haveUtils then Inl (Err ''k8sUtils is nil'')
      else bind_res
        (if useSecret = ''true''
         then bind_res fromSecret (\<lambda>proxyConfig. Inr (getPowerMaxArraysFromSecret proxyConfig))
         else bind_res fromFile (\<lambda>proxyConfig. Inr (getPowerMaxArrays proxyConfig)))
        (\<lambda>powermaxArrays. Inr (connect_all newClient [] (order powermaxArrays))))"

subsection \<open>\<open>InitK8sUtils\<close>\<close>

definition pmax_namespace :: "string \<Rightarrow> string" where
  "pmax_namespace env = (if env = [] then ''karavi'' else env)"

text \<open>
  The package variable is \<open>k8sUtils\<close>; \<open>init\<close> is the library's constructor on the namespace, giving
  the pointer and the error. The last component says whether the informer was started.
\<close>

definition InitK8sUtils ::
  "(string \<Rightarrow> 'u option \<times> error option) \<Rightarrow> string \<Rightarrow> 'u option \<Rightarrow>
   ('u option \<times> error option) \<times> 'u option \<times> bool" where
  "InitK8sUtils init env k8sUtils =
     (if k8sUtils \<noteq> None then ((k8sUtils, None), k8sUtils, False)
      else case init (pmax_namespace env) of
        (utils, Some err) \<Rightarrow> ((None, Some err), utils, False)
      | (utils, None) \<Rightarrow> ((utils, None), utils, True))"

subsection \<open>What is configured\<close>




lemma arrays_of_config_distinct: "distinct (map fst (arrays_of_config user pass pc))"
  unfolding arrays_of_config_def
  using distinct_fill [where m = "[]" and key = "\<lambda>sa. Some (sac_StorageArrayIdentifier sa)"
      and add = "\<lambda>acc sa. (case acc of Some l \<Rightarrow> l | None \<Rightarrow> []) @ array_entries user pass (pc_ManagementServers pc) sa"
      and rs = "pc_StorageArrays pc"] by simp



subsection \<open>What is connected\<close>

definition live_arrays :: "(string \<Rightarrow> pmax_client result) \<Rightarrow> powermax_array list \<Rightarrow> powermax_array list" where
  "live_arrays newClient l = List.map_filter (connect_array newClient) l"

definition extend_entry :: "powermax_array list option \<Rightarrow> powermax_array list \<Rightarrow> powermax_array list option" where
  "extend_entry entry live =
     (if live = [] then entry else Some ((case entry of Some l \<Rightarrow> l | None \<Rightarrow> []) @ live))"

lemma connect_list_lookup:
  "map_of (connect_list newClient i m as) j =
     (if j = i then extend_entry (map_of m i) (live_arrays newClient as) else map_of m j)"
proof (induction newClient i m as rule: connect_list.induct)
  case (1 newClient i m)
  then show ?case by (simp add: extend_entry_def live_arrays_def)
next
  case (2 newClient i m array rest)
  then show ?case
    by (cases "connect_array newClient array") (auto simp: extend_entry_def live_arrays_def)
qed

lemma connect_all_lookup:
  "distinct (map fst ord) \<Longrightarrow> map_of (connect_all newClient m ord) a =
     (case map_of ord a of None \<Rightarrow> map_of m a | Some l \<Rightarrow> extend_entry (map_of m a) (live_arrays newClient l))"
proof (induction newClient m ord rule: connect_all.induct)
  case (2 newClient m i l rest)
  then have "map_of rest i = None" by (simp add: map_of_eq_None_iff)
  with 2 show ?case by (auto simp: connect_list_lookup split: option.splits)
qed simp

lemma connect_list_distinct:
  "distinct (map fst m) \<Longrightarrow> distinct (map fst (connect_list newClient i m as))"
  by (induction newClient i m as rule: connect_list.induct) (auto simp: distinct_update split: option.splits)

lemma connect_all_distinct: "distinct (map fst m) \<Longrightarrow> distinct (map fst (connect_all newClient m ord))"
  by (induction newClient m ord rule: connect_all.induct) (auto simp: connect_list_distinct)

definition configured ::
  "string \<Rightarrow> proxy_config result \<Rightarrow> proxy_config result \<Rightarrow> client_map result" where
  "configured useSecret fromSecret fromFile =
     (if useSecret = ''true'' then bind_res fromSecret (\<lambda>pc. Inr (getPowerMaxArraysFromSecret pc))
      else bind_res fromFile (\<lambda>pc. Inr (getPowerMaxArrays pc)))"

lemma configured_distinct: "configured useSecret fromSecret fromFile = Inr cm \<Longrightarrow> distinct (map fst cm)"
  by (auto simp: configured_def getPowerMaxArrays_def getPowerMaxArraysFromSecret_def res_iff
      arrays_of_config_distinct split: if_splits)

lemma connected_lookup:
  assumes "GetPowerMaxArrays True useSecret fromSecret fromFile newClient order = Inr cm"
    and "\<And>m. iteration_of m (order m)"
  shows "\<exists>conf. configured useSecret fromSecret fromFile = Inr conf \<and> distinct (map fst cm) \<and>
    map_of cm a = (case map_of conf a of None \<Rightarrow> None
      | Some l \<Rightarrow> (let live = live_arrays newClient l in if live = [] then None else Some live))"
proof -
  obtain conf where conf: "configured useSecret fromSecret fromFile = Inr conf"
    and cm: "cm = connect_all newClient [] (order conf)"
    using assms(1) by (auto simp: GetPowerMaxArrays_def configured_def res_iff split: if_splits)
  have d: "distinct (map fst conf)" using conf by (rule configured_distinct)
  have "map_of (order conf) = map_of conf" using iteration_of_map_of [OF assms(2) d] .
  moreover have "distinct (map fst (order conf))" using iteration_of_distinct [OF assms(2) d] .
  ultimately have "map_of cm a = (case map_of conf a of None \<Rightarrow> None
      | Some l \<Rightarrow> extend_entry None (live_arrays newClient l))"
    by (simp add: cm connect_all_lookup split: option.splits)
  then show ?thesis
    using conf connect_all_distinct [of "[]" newClient "order conf"]
    by (auto simp: cm extend_entry_def Let_def split: option.splits)
qed

text \<open>
  C24. What \<open>GetPowerMaxArrays\<close> returns: under each configured array ID, the endpoints that connected and
  authenticated, in their order; an ID without any has no entry.
\<close>

theorem connected_arrays_exact:
  assumes "GetPowerMaxArrays True useSecret fromSecret fromFile newClient order = Inr cm"
    and "\<And>m. iteration_of m (order m)"
  shows "\<exists>conf. configured useSecret fromSecret fromFile = Inr conf \<and> distinct (map fst cm) \<and>
    map_of cm a = (case map_of conf a of None \<Rightarrow> None
      | Some l \<Rightarrow> (let live = live_arrays newClient l in if live = [] then None else Some live))"
  using assms by (rule connected_lookup)

definition sample_url :: url where
  "sample_url = \<lparr>url_String = ''https://u4p:8443'', url_Host = ''u4p''\<rparr>"

definition sample_config :: proxy_config where
  "sample_config = \<lparr>pc_StorageArrays = [\<lparr>sac_StorageArrayIdentifier = ''0257'',
       sac_PrimaryEndpoint = sample_url, sac_SecondaryEndpoint = \<lparr>url_String = [], url_Host = []\<rparr>\<rparr>],
     pc_ManagementServers = [\<lparr>ms_Endpoint = sample_url, ms_SkipCertificateValidation = True,
       ms_Credentials_UserName = ''admin'', ms_Credentials_Password = ''secret'',
       ms_Username = [], ms_Password = []\<rparr>]\<rparr>"

lemma sample_connects:
  "GetPowerMaxArrays True [] (Inl (Err [])) (Inr sample_config) (\<lambda>_. Inr sample_client) (\<lambda>m. m) =
     Inr [(''0257'', [sample_array])]"
  by (simp add: GetPowerMaxArrays_def getPowerMaxArrays_def arrays_of_config_def sample_config_def
      array_entries_def endpoint_entry_def sample_url_def connect_array_def Authenticate_def
      zero_powermax_array_def sample_array_def sample_client_def Let_def)

theorem connected_arrays_exact_witness:
  "\<exists>conf. configured [] (Inl (Err [])) (Inr sample_config) = Inr conf \<and>
     (case map_of conf ''0257'' of None \<Rightarrow> False
      | Some l \<Rightarrow> live_arrays (\<lambda>_. Inr sample_client) l = [sample_array])"
  using connected_arrays_exact [OF sample_connects iteration_of_refl, of "''0257''"]
proof (elim exE conjE)
  fix conf
  assume c: "configured [] (Inl (Err [])) (Inr sample_config) = Inr conf"
    and l: "map_of [(''0257'', [sample_array])] ''0257'' = (case map_of conf ''0257'' of None \<Rightarrow> None
      | Some l \<Rightarrow> (let live = live_arrays (\<lambda>_. Inr sample_client) l in if live = [] then None else Some live))"
  from l have "case map_of conf ''0257'' of None \<Rightarrow> False
      | Some l \<Rightarrow> live_arrays (\<lambda>_. Inr sample_client) l = [sample_array]"
    by (cases "map_of conf ''0257''") (simp_all add: Let_def split: if_splits)
  with c show ?thesis by (intro exI [of _ conf] conjI)
qed

text \<open>An entry that is active, has a client, and that this client accepted.\<close>

definition live_entry :: "powermax_array \<Rightarrow> bool" where
  "live_entry x = (case pa_Client x of
     None \<Rightarrow> False
   | Some c \<Rightarrow> pa_IsActive x \<and> Authenticate c x = Inr ())"

lemma connect_array_live: "connect_array newClient x = Some y \<Longrightarrow> live_entry y"
  by (auto simp: connect_array_def live_entry_def Authenticate_def split: sum.splits)

lemma connected_live:
  assumes "GetPowerMaxArrays True useSecret fromSecret fromFile newClient order = Inr cm"
    and "\<And>m. iteration_of m (order m)" and "(a, l) \<in> set cm"
  shows "l \<noteq> [] \<and> list_all live_entry l"
proof -
  obtain conf where d: "distinct (map fst cm)"
    and l: "map_of cm a = (case map_of conf a of None \<Rightarrow> None
      | Some l \<Rightarrow> (let live = live_arrays newClient l in if live = [] then None else Some live))"
    using connected_lookup [OF assms(1,2), of a] by blast
  have "map_of cm a = Some l" using d assms(3) by simp
  with l obtain as where "l = live_arrays newClient as" "l \<noteq> []"
    by (auto simp: Let_def split: option.splits if_splits)
  then show ?thesis
    by (auto simp: live_arrays_def list_all_map_filter dest: connect_array_live split: option.splits)
qed

text \<open>
  The client map handed to the service is healthy: no entry is empty, and every array in it is active
  and has a client that accepted its credentials. With it no collector ever finds a nil client, and
  asking for a client succeeds for exactly the arrays of the map.
\<close>

theorem connected_clients_healthy:
  assumes "GetPowerMaxArrays True useSecret fromSecret fromFile newClient order = Inr cm"
    and "\<And>m. iteration_of m (order m)" and "bm_PowerMaxClients b = Some cm"
  shows "list_all (\<lambda>(a, l). l \<noteq> [] \<and> list_all live_entry l) cm \<and> base_ok b \<and>
    ((\<exists>c. GetPowerMaxClient b a = Inr (Some c)) = (a \<in> fst ` set cm))"
proof -
  have live: "l \<noteq> [] \<and> list_all live_entry l" if "(a, l) \<in> set cm" for a l
    using connected_live [OF assms(1,2) that] .
  then have "list_all (\<lambda>(a, l). l \<noteq> [] \<and> list_all live_entry l) cm" by (auto simp: list_all_iff)
  moreover have "base_ok b"
  proof -
    have "pa_Client x \<noteq> None" if "(a, l) \<in> set cm" "x \<in> set l" for a l x
      using live [OF that(1)] that(2) by (auto simp: list_all_iff live_entry_def split: option.splits)
    then have "clients_ok cm" by (fastforce simp: clients_ok_def)
    then show ?thesis using assms(3) by (simp add: base_ok_def)
  qed
  moreover have "(\<exists>c. GetPowerMaxClient b a = Inr (Some c)) = (a \<in> fst ` set cm)"
  proof
    assume "\<exists>c. GetPowerMaxClient b a = Inr (Some c)"
    then show "a \<in> fst ` set cm" using assms(3) by (force simp: GetPowerMaxClient_Inr dest: map_of_SomeD)
  next
    assume "a \<in> fst ` set cm"
    then obtain l where l: "map_of cm a = Some l" by (metis map_of_eq_None_iff not_None_eq)
    then obtain x xs where "l = x # xs" "live_entry x"
      using live [OF map_of_SomeD [OF l]] by (cases l) auto
    with l assms(3) show "\<exists>c. GetPowerMaxClient b a = Inr (Some c)"
      by (auto simp: GetPowerMaxClient_Inr live_entry_def split: option.splits)
  qed
  ultimately show ?thesis by blast
qed

theorem connected_clients_healthy_witness:
  "\<exists>c. GetPowerMaxClient (sample_base :: base_metrics) ''0257'' = Inr (Some c)"
  using connected_clients_healthy [OF sample_connects, of "sample_base :: base_metrics" "''0257''"]
  by (simp add: sample_base_def)

end
