(* ===== verification/K8s_Utils.thy ===== *)
theory K8s_Utils
  imports Prelude
begin

section \<open>Secrets and certificates (\<open>internal/k8sutils\<close>)\<close>

text \<open>
  The repository's own copy of the reverse proxy's Kubernetes helpers: a client for the API server,
  credentials and certificate files from secrets, and an informer that forwards changed secrets.
  client-go and the file system are parameters.
\<close>

subsection \<open>Secrets\<close>

record secret =
  sec_Name :: string
  sec_ResourceVersion :: string
  sec_Data :: "string \<rightharpoonup> string"

record credentials =
  cred_UserName :: string
  cred_Password :: string

text \<open>A client is the answer of the API server by namespace and name.\<close>

type_synonym secret_api = "string \<Rightarrow> string \<Rightarrow> secret result"

record k8s_utils =
  ku_KubernetesClient :: secret_api
  ku_Namespace :: string
  ku_CertDirectory :: string
  ku_started :: bool
  ku_stopped :: bool

subsection \<open>Clients and \<open>Init\<close>\<close>

definition getKubeConfigPathFromEnv :: "string \<Rightarrow> string \<Rightarrow> string" where
  "getKubeConfigPathFromEnv home path = (if home \<noteq> [] then home else path)"

definition createClientSet :: "('cfg \<Rightarrow> secret_api result) \<Rightarrow> 'cfg \<Rightarrow> secret_api result" where
  "createClientSet newForConfig config = bind_res (newForConfig config) (\<lambda>clientset. Inr clientset)"

definition CreateInClusterKubeClient ::
  "'cfg result \<Rightarrow> ('cfg \<Rightarrow> secret_api result) \<Rightarrow> secret_api result" where
  "CreateInClusterKubeClient inClusterConfig newForConfig =
     bind_res inClusterConfig (createClientSet newForConfig)"

text \<open>\<open>join_kube\<close> is \<open>filepath.Join\<close> of the path with \<open>.kube\<close> and \<open>config\<close>.\<close>

definition CreateOutOfClusterKubeClient ::
  "(string \<Rightarrow> string) \<Rightarrow> string \<Rightarrow> (string \<Rightarrow> 'cfg result) \<Rightarrow> ('cfg \<Rightarrow> secret_api result) \<Rightarrow>
   secret_api result" where
  "CreateOutOfClusterKubeClient join_kube path buildConfig newForConfig =
     (if path = [] then Inl (Err ''failed to get kube config path'')
      else bind_res (buildConfig (join_kube path)) (createClientSet newForConfig))"

definition CreateKubeClient ::
  "bool \<Rightarrow> 'cfg result \<Rightarrow> (string \<Rightarrow> string) \<Rightarrow> string \<Rightarrow> (string \<Rightarrow> 'cfg result) \<Rightarrow> ('cfg \<Rightarrow> secret_api result) \<Rightarrow>
   secret_api result" where
  "CreateKubeClient inCluster inClusterConfig join_kube path buildConfig newForConfig =
     (if inCluster then CreateInClusterKubeClient inClusterConfig newForConfig
      else CreateOutOfClusterKubeClient join_kube path buildConfig newForConfig)"

text \<open>\<open>Init\<close> on the package variable; \<open>client\<close> is what \<open>CreateKubeClient\<close> gives.\<close>

definition Init ::
  "secret_api result \<Rightarrow> string \<Rightarrow> string \<Rightarrow> k8s_utils option \<Rightarrow> k8s_utils result \<times> k8s_utils option" where
  "Init client namespace certDirectory k8sUtils =
     (case k8sUtils of
        Some u \<Rightarrow> (Inr u, k8sUtils)
      | None \<Rightarrow>
          (case client of
             Inl err \<Rightarrow> (Inl err, None)
           | Inr c \<Rightarrow>
               let u = \<lparr>ku_KubernetesClient = c, ku_Namespace = namespace,
                        ku_CertDirectory = certDirectory, ku_started = False, ku_stopped = False\<rparr>
               in (Inr u, Some u)))"

subsection \<open>Certificate files\<close>

text \<open>
  A file system is a partial map from paths to contents; \<open>fail\<close> says at which of the four calls
  (create, write, sync, close) the operating system reports an error, if any.
\<close>

type_synonym files = "string \<rightharpoonup> string"

datatype file_step = Create | Write | Sync | Close

definition createFile ::
  "(string \<Rightarrow> string) \<Rightarrow> file_step option \<Rightarrow> string \<Rightarrow> string \<Rightarrow> files \<Rightarrow> error option \<times> files" where
  "createFile clean fail fileName data fs =
     (if fail = Some Create then (Some (Err ''create''), fs)
      else let fs = fs(clean fileName \<mapsto> [])
        in if fail = Some Write then (Some (Err ''write''), fs)
           else let fs = fs(clean fileName \<mapsto> data)
             in if fail = Some Sync then (Some (Err ''sync''), fs)
                else if fail = Some Close then (Some (Err ''close''), fs)
                else (None, fs))"

text \<open>The certificate directory comes from the package variable, not from the receiver.\<close>

definition getCertFileFromSecret ::
  "(string \<Rightarrow> string) \<Rightarrow> file_step option \<Rightarrow> string \<Rightarrow> k8s_utils option \<Rightarrow> secret option \<Rightarrow> files \<Rightarrow>
   string result \<times> files" where
  "getCertFileFromSecret clean fail timestamp k8sUtils certSecret fs =
     (case certSecret of
        None \<Rightarrow> (Inl (Err ''cert secret can't be nil''), fs)
      | Some s \<Rightarrow>
          (case k8sUtils of
             None \<Rightarrow> (Inl (Panic ''nil k8sUtils''), fs)
           | Some g \<Rightarrow>
               let certFile = ku_CertDirectory g @ ''/'' @ sec_Name s @ ''-proxy-'' @ timestamp @ ''.pem'';
                   data = (case sec_Data s ''cert'' of Some d \<Rightarrow> d | None \<Rightarrow> [])
               in (case createFile clean fail certFile data fs of
                     (Some err, fs) \<Rightarrow> (Inl err, fs)
                   | (None, fs) \<Rightarrow> (Inr certFile, fs))))"

definition GetCertFileFromSecret ::
  "(string \<Rightarrow> string) \<Rightarrow> file_step option \<Rightarrow> string \<Rightarrow> k8s_utils option \<Rightarrow> secret option \<Rightarrow> files \<Rightarrow>
   string result \<times> files" where
  "GetCertFileFromSecret = getCertFileFromSecret"

text \<open>The secret, too, is read through the package variable.\<close>

definition get_secret_global :: "k8s_utils option \<Rightarrow> string \<Rightarrow> secret result" where
  "get_secret_global k8sUtils secretName =
     (case k8sUtils of
        None \<Rightarrow> Inl (Panic ''nil k8sUtils'')
      | Some g \<Rightarrow> ku_KubernetesClient g (ku_Namespace g) secretName)"

definition GetCertFileFromSecretName ::
  "(string \<Rightarrow> string) \<Rightarrow> file_step option \<Rightarrow> string \<Rightarrow> k8s_utils option \<Rightarrow> k8s_utils \<Rightarrow> string \<Rightarrow> files \<Rightarrow>
   string result \<times> files" where
  "GetCertFileFromSecretName clean fail timestamp k8sUtils receiver secretName fs =
     (case get_secret_global k8sUtils secretName of
        Inl err \<Rightarrow> (Inl err, fs)
      | Inr s \<Rightarrow> getCertFileFromSecret clean fail timestamp k8sUtils (Some s) fs)"

subsection \<open>Credentials\<close>

definition getCredentialFromSecret :: "secret option \<Rightarrow> credentials result" where
  "getCredentialFromSecret secret =
     (case secret of
        None \<Rightarrow> Inl (Err ''secret can't be nil'')
      | Some s \<Rightarrow>
          (case sec_Data s ''username'' of
             None \<Rightarrow> Inl (Err ''username not found in secret data'')
           | Some u \<Rightarrow>
               Inr \<lparr>cred_UserName = u,
                    cred_Password = (case sec_Data s ''password'' of Some p \<Rightarrow> p | None \<Rightarrow> [])\<rparr>))"

definition GetCredentialsFromSecretName ::
  "k8s_utils option \<Rightarrow> k8s_utils \<Rightarrow> string \<Rightarrow> credentials result" where
  "GetCredentialsFromSecretName k8sUtils receiver secretName =
     bind_res (get_secret_global k8sUtils secretName) (\<lambda>s. getCredentialFromSecret (Some s))"

definition GetCredentialsFromSecret :: "secret option \<Rightarrow> credentials result" where
  "GetCredentialsFromSecret = getCredentialFromSecret"

subsection \<open>The informer\<close>

datatype secret_event = Added secret | Updated secret secret

fun forwarded :: "secret_event \<Rightarrow> secret list" where
  "forwarded (Added obj) = [obj]"
| "forwarded (Updated oldSecret newSecret) =
     (if sec_ResourceVersion oldSecret = sec_ResourceVersion newSecret then [] else [newSecret])"

text \<open>
  \<open>StartInformer\<close>: without a callback nothing is started; \<open>registered\<close> is what adding the handler
  answers.
\<close>

definition StartInformer :: "bool \<Rightarrow> unit result \<Rightarrow> k8s_utils \<Rightarrow> error option \<times> k8s_utils" where
  "StartInformer haveCallback registered utils =
     (if \<not> haveCallback then (None, utils)
      else case registered of
        Inl err \<Rightarrow> (Some err, utils)
      | Inr _ \<Rightarrow> (None, utils\<lparr>ku_started := True\<rparr>))"

definition StopInformer :: "k8s_utils \<Rightarrow> k8s_utils result" where
  "StopInformer utils =
     (if ku_stopped utils then Inl (Panic ''close of closed channel'')
      else Inr (utils\<lparr>ku_stopped := True\<rparr>))"

definition callbacks :: "k8s_utils \<Rightarrow> secret_event list \<Rightarrow> secret list" where
  "callbacks utils events =
     (if ku_started utils \<and> \<not> ku_stopped utils then concat (map forwarded events) else [])"

text \<open>
  A started informer forwards every added secret and every update that changed the resource version,
  in order and nothing else, so a periodic resync (equal versions) never triggers a reload.
\<close>

theorem informer_forwards:
  "callbacks (snd (StartInformer True (Inr ()) (utils\<lparr>ku_stopped := False\<rparr>))) events =
     List.map_filter (\<lambda>e. case e of
         Added s \<Rightarrow> Some s
       | Updated s t \<Rightarrow> if sec_ResourceVersion s = sec_ResourceVersion t then None else Some t) events"
proof -
  have "concat (map forwarded events) = List.map_filter (\<lambda>e. case e of
         Added s \<Rightarrow> Some s
       | Updated s t \<Rightarrow> if sec_ResourceVersion s = sec_ResourceVersion t then None else Some t) events"
    by (induction events) (auto split: secret_event.splits)
  then show ?thesis by (simp add: StartInformer_def callbacks_def)
qed

text \<open>
  A certificate file holds exactly the secret's certificate when its name is returned, and whatever
  fails on the way, no other file is touched.
\<close>

theorem cert_file_written:
  "let res = getCertFileFromSecret clean fail timestamp (Some g) (Some s) fs;
       path = ku_CertDirectory g @ ''/'' @ sec_Name s @ ''-proxy-'' @ timestamp @ ''.pem'';
       data = (case sec_Data s ''cert'' of Some d \<Rightarrow> d | None \<Rightarrow> [])
   in (if fail = None then res = (Inr path, fs(clean path \<mapsto> data))
       else (\<exists>err. fst res = Inl err) \<and> (snd res = fs \<or> (\<exists>d. snd res = fs(clean path \<mapsto> d))))"
proof (cases fail)
  case None
  then show ?thesis by (simp add: getCertFileFromSecret_def createFile_def Let_def)
next
  case (Some f)
  then show ?thesis by (cases f) (auto simp: getCertFileFromSecret_def createFile_def Let_def)
qed

end
