(* ===== verification/Entrypoint.thy ===== *)
theory Entrypoint
  imports Service K8s K8s_Pmax
begin

section \<open>The main loop (\<open>internal/entrypoint/run.go\<close>)\<close>

text \<open>
  \<open>Run\<close> validates the configuration, starts the leader election and the exporter in goroutines that
  report on a channel, and then serves events one at a time: the leader check, the three metric
  tickers, the liveness ticker, errors and cancellation. A turn of the loop is a function of the loop's
  local variables, of the event, and of what the configuration says when the turn reads it;
  the event carries what the leader elector and the context answer during the turn.
\<close>

subsection \<open>Configuration\<close>

record config =
  cfg_CapacityTickInterval :: int64
  cfg_PerformanceTickInterval :: int64
  cfg_TopologyMetricsTickInterval :: int64
  cfg_LivenessProbeTickInterval :: int64
  cfg_CapacityMetricsEnabled :: bool
  cfg_PerformanceMetricsEnabled :: bool
  cfg_TopologyMetricsEnabled :: bool
  cfg_CollectorAddress :: string
  cfg_CollectorCertPath :: string

definition MaximumTickInterval :: int64 where
  "MaximumTickInterval = 24 * 3600 * second"

definition MinimumTickInterval :: int64 where
  "MinimumTickInterval = 5 * second"

definition LivenessProbeInterval :: int64 where
  "LivenessProbeInterval = 30 * second"

definition GetTickIntervals :: "config \<Rightarrow> int64 \<times> int64 \<times> int64" where
  "GetTickIntervals c =
     (cfg_CapacityTickInterval c, cfg_PerformanceTickInterval c, cfg_TopologyMetricsTickInterval c)"

definition SetTickIntervals :: "int64 \<Rightarrow> int64 \<Rightarrow> int64 \<Rightarrow> config \<Rightarrow> config" where
  "SetTickIntervals capacity performance topology c =
     c\<lparr>cfg_CapacityTickInterval := capacity, cfg_PerformanceTickInterval := performance,
       cfg_TopologyMetricsTickInterval := topology\<rparr>"

definition out_of_range :: "int64 \<Rightarrow> bool" where
  "out_of_range d \<longleftrightarrow> sint MaximumTickInterval < sint d \<or> sint d < sint MinimumTickInterval"

definition ValidateConfig :: "config option \<Rightarrow> error option" where
  "ValidateConfig config =
     (case config of
        None \<Rightarrow> Some (Err ''no config provided'')
      | Some c \<Rightarrow>
          if out_of_range (cfg_CapacityTickInterval c)
          then Some (Err ''capacity polling frequency not within allowed range of 5s and 24h0m0s'')
          else if out_of_range (cfg_PerformanceTickInterval c)
          then Some (Err ''performance metrics polling frequency not within allowed range of 5s and 24h0m0s'')
          else if out_of_range (cfg_TopologyMetricsTickInterval c)
          then Some (Err ''topology metrics polling frequency not within allowed range of 5s and 24h0m0s'')
          else None)"

subsection \<open>What the goroutines report\<close>

definition election_endpoint :: "string \<Rightarrow> string" where
  "election_endpoint env = (if env = [] then ''karavi-metrics-powermax'' else env)"

definition election_namespace :: "string \<Rightarrow> string" where
  "election_namespace env = (if env = [] then ''karavi'' else env)"

definition recordPowerMaxExportFailure ::
  "(client_map \<Rightarrow> client_map) \<Rightarrow> powermax_service \<Rightarrow> obs_call list" where
  "recordPowerMaxExportFailure ord s =
     (if ps_ObsInstrumenter s = None then []
      else case GetPowerMaxClients s of
             None \<Rightarrow> []
           | Some clients \<Rightarrow>
               concat (map (\<lambda>(arrayID, arrays). RecordExportSuccess (ps_ObsInstrumenter s) arrayID ''failure'')
                 (ord clients)))"

subsection \<open>The liveness probe\<close>

text \<open>
  The loop variable is a copy of the array, so the two assignments change the copy only. The result
  lists the copies; the service has no part in it.
\<close>

definition probe_array :: "powermax_array \<Rightarrow> powermax_array result" where
  "probe_array array =
     (case pa_Client array of
        None \<Rightarrow> Inl (Panic ''nil client'')
      | Some client \<Rightarrow>
          (case Authenticate client array of
             Inl err \<Rightarrow> Inr (array\<lparr>pa_IsActive := False\<rparr>)
           | Inr _ \<Rightarrow> Inr (array\<lparr>pa_IsActive := True\<rparr>)))"

fun probe_list :: "powermax_array list \<Rightarrow> powermax_array list result" where
  "probe_list [] = Inr []"
| "probe_list (a # rest) =
     bind_res (probe_array a) (\<lambda>b. bind_res (probe_list rest) (\<lambda>bs. Inr (b # bs)))"

definition validatePowerMaxArrays ::
  "(client_map \<Rightarrow> client_map) \<Rightarrow> powermax_service \<Rightarrow> powermax_array list result \<times> powermax_service" where
  "validatePowerMaxArrays ord s =
     (case GetPowerMaxClients s of
        None \<Rightarrow> (Inr [], s)
      | Some clients \<Rightarrow> (probe_list (concat (map snd (ord clients))), s))"

subsection \<open>One turn of the loop\<close>

datatype kind = Capacity_kind | Performance_kind | Topology_kind

datatype action =
    Export kind
  | Reset_ticker kind int64
  | New_ticker kind int64
  | Reset_leader_check
  | Probe
  | Stop_exporter

text \<open>
  A leader check carries the answers of \<open>IsLeader\<close> at the check and in the three collect functions,
  and whether the context was cancelled at the two points in between.
\<close>

datatype event =
    Leader_check bool bool bool bool bool bool
    \<comment> \<open>at the check; in the capacity collection; cancelled after it; in the performance collection;
       cancelled after it; in the topology collection\<close>
  | Capacity_tick bool
  | Performance_tick
  | Topology_tick bool
  | Liveness_tick
  | Error_message "error option"
  | Ctx_done

record loop_state =
  ls_capacity :: int64
  ls_performance :: int64
  ls_topology :: int64
  ls_collectedOnLeaderAcquired :: bool
  ls_wasLeader :: bool

definition collect_kind :: "bool \<Rightarrow> bool \<Rightarrow> kind \<Rightarrow> action list" where
  "collect_kind isLeader enabled k = (if \<not> isLeader then [] else if \<not> enabled then [] else [Export k])"

definition collectCapacityMetrics :: "bool \<Rightarrow> config \<Rightarrow> action list" where
  "collectCapacityMetrics isLeader c = collect_kind isLeader (cfg_CapacityMetricsEnabled c) Capacity_kind"

definition collectPerformanceMetrics :: "bool \<Rightarrow> config \<Rightarrow> action list" where
  "collectPerformanceMetrics isLeader c =
     collect_kind isLeader (cfg_PerformanceMetricsEnabled c) Performance_kind"

definition collectTopologyMetrics :: "bool \<Rightarrow> config \<Rightarrow> action list" where
  "collectTopologyMetrics isLeader c = collect_kind isLeader (cfg_TopologyMetricsEnabled c) Topology_kind"

text \<open>
  How a turn's \<open>select\<close> ends: go on to the tick update, skip it, return from \<open>Run\<close>, or panic.
  \<open>Ticker.Reset\<close> panics on an interval that is not positive, so the later tickers are not reset.
\<close>

datatype flow = Proceed | Continue | Return "error option" | Crash string

fun reset_tickers :: "(kind \<times> int64) list \<Rightarrow> action list \<times> flow" where
  "reset_tickers [] = ([], Proceed)"
| "reset_tickers ((k, d) # rest) =
     (if sint d \<le> 0 then ([], Crash ''non-positive interval for Ticker.Reset'')
      else let (acts, f) = reset_tickers rest in (Reset_ticker k d # acts, f))"

definition leader_turn ::
  "config \<Rightarrow> bool \<Rightarrow> bool \<Rightarrow> bool \<Rightarrow> bool \<Rightarrow> bool \<Rightarrow> bool \<Rightarrow> loop_state \<Rightarrow> action list \<times> flow \<times> loop_state" where
  "leader_turn c isLeader l1 done1 l2 done2 l3 st =
     (let lost = ls_wasLeader st \<and> \<not> isLeader;
          acts0 = (if lost then [Reset_leader_check] else []);
          st = (if lost then st\<lparr>ls_collectedOnLeaderAcquired := False, ls_wasLeader := False\<rparr> else st)
      in if \<not> ls_collectedOnLeaderAcquired st \<and> isLeader
         then let st = st\<lparr>ls_wasLeader := True\<rparr>;
                  acts1 = acts0 @ collectCapacityMetrics l1 c
              in if done1 then (acts1, Return None, st)
                 else let acts2 = acts1 @ collectPerformanceMetrics l2 c
                      in if done2 then (acts2, Return None, st)
                         else let acts3 = acts2 @ collectTopologyMetrics l3 c;
                                  st = st\<lparr>ls_collectedOnLeaderAcquired := True\<rparr>;
                                  (resets, f) = reset_tickers [(Capacity_kind, ls_capacity st),
                                    (Performance_kind, ls_performance st), (Topology_kind, ls_topology st)]
                              in (acts3 @ resets, f, st)
         else (acts0, Proceed, st))"

fun select_turn :: "config \<Rightarrow> event \<Rightarrow> loop_state \<Rightarrow> action list \<times> flow \<times> loop_state" where
  "select_turn c (Leader_check isLeader l1 done1 l2 done2 l3) st =
     leader_turn c isLeader l1 done1 l2 done2 l3 st"
| "select_turn c (Capacity_tick isLeader) st = (collectCapacityMetrics isLeader c, Proceed, st)"
| "select_turn c Performance_tick st = ([], Proceed, st)"
| "select_turn c (Topology_tick isLeader) st = (collectTopologyMetrics isLeader c, Proceed, st)"
| "select_turn c Liveness_tick st = ([Probe], Proceed, st)"
| "select_turn c (Error_message None) st = ([], Continue, st)"
| "select_turn c (Error_message (Some err)) st = ([], Return (Some err), st)"
| "select_turn c Ctx_done st = ([], Return None, st)"

text \<open>\<open>time.NewTicker\<close> panics on an interval that is not positive.\<close>

definition NewTicker :: "kind \<Rightarrow> int64 \<Rightarrow> action result" where
  "NewTicker k d =
     (if sint d \<le> 0 then Inl (Panic ''non-positive interval for NewTicker'') else Inr (New_ticker k d))"

definition update_ticker :: "kind \<Rightarrow> int64 \<Rightarrow> int64 \<Rightarrow> action list result" where
  "update_ticker k old new =
     (if old \<noteq> new then bind_res (NewTicker k new) (\<lambda>a. Inr [a]) else Inr [])"

definition tick_update :: "config \<Rightarrow> loop_state \<Rightarrow> (action list \<times> loop_state) result" where
  "tick_update c st =
     (let (newCapacity, newPerformance, newTopology) = GetTickIntervals c
      in bind_res (update_ticker Capacity_kind (ls_capacity st) newCapacity) (\<lambda>as1.
         bind_res (update_ticker Performance_kind (ls_performance st) newPerformance) (\<lambda>as2.
         bind_res (update_ticker Topology_kind (ls_topology st) newTopology) (\<lambda>as3.
           Inr (as1 @ as2 @ as3,
                st\<lparr>ls_capacity := newCapacity, ls_performance := newPerformance,
                   ls_topology := newTopology\<rparr>)))))"

text \<open>What a turn leaves: the loop goes on, \<open>Run\<close> has returned, or the program has panicked.\<close>

datatype turn_end = Running loop_state | Returned "error option" | Panicked string

definition run_turn :: "config \<Rightarrow> event \<Rightarrow> loop_state \<Rightarrow> action list \<times> turn_end" where
  "run_turn c e st =
     (case select_turn c e st of
        (acts, Continue, st) \<Rightarrow> (acts, Running st)
      | (acts, Return r, st) \<Rightarrow> (acts, Returned r)
      | (acts, Crash msg, st) \<Rightarrow> (acts, Panicked msg)
      | (acts, Proceed, st) \<Rightarrow>
          (case tick_update c st of
             Inl (Panic msg) \<Rightarrow> (acts, Panicked msg)
           | Inl (Err msg) \<Rightarrow> (acts, Panicked msg)
           | Inr (acts', st) \<Rightarrow> (acts @ acts', Running st)))"

text \<open>A turn takes an event and the configuration as it is in that turn.\<close>

fun run_loop :: "(config \<times> event) list \<Rightarrow> loop_state \<Rightarrow> action list \<times> turn_end" where
  "run_loop [] st = ([], Running st)"
| "run_loop ((c, e) # turns) st =
     (case run_turn c e st of
        (acts, Running st) \<Rightarrow> (let (acts', final) = run_loop turns st in (acts @ acts', final))
      | (acts, final) \<Rightarrow> (acts, final))"

text \<open>The part of \<open>Run\<close> before the loop: validation and the initial tickers.\<close>

definition run_start :: "config option \<Rightarrow> turn_end" where
  "run_start config =
     (case ValidateConfig config of
        Some err \<Rightarrow> Returned (Some err)
      | None \<Rightarrow>
          (case config of
             None \<Rightarrow> Panicked ''nil config''
           | Some c \<Rightarrow>
               let (capacity, performance, topology) = GetTickIntervals c;
                   liveness = (if cfg_LivenessProbeTickInterval c = 0 then LivenessProbeInterval
                     else cfg_LivenessProbeTickInterval c)
               in if sint capacity \<le> 0 \<or> sint performance \<le> 0 \<or> sint topology \<le> 0 \<or> sint liveness \<le> 0
                  then Panicked ''non-positive interval for NewTicker''
                  else Running \<lparr>ls_capacity = capacity, ls_performance = performance,
                    ls_topology = topology, ls_collectedOnLeaderAcquired = False, ls_wasLeader = False\<rparr>))"

text \<open>
  \<open>Run\<close>: after a successful validation the exporter is stopped when the function is left, by return or
  by panic.
\<close>

fun deferred :: "turn_end \<Rightarrow> action list" where
  "deferred (Running st) = []"
| "deferred final = [Stop_exporter]"

definition run :: "config option \<Rightarrow> (config \<times> event) list \<Rightarrow> action list \<times> turn_end" where
  "run config turns =
     (if ValidateConfig config \<noteq> None then ([], run_start config)
      else case run_start config of
             Running st \<Rightarrow> (let (acts, final) = run_loop turns st in (acts @ deferred final, final))
           | final \<Rightarrow> (deferred final, final))"

subsection \<open>Validation\<close>

lemma interval_values:
  "sint MinimumTickInterval = 5000000000" "sint MaximumTickInterval = 86400000000000"
  "sint LivenessProbeInterval = 30000000000"
  by (simp_all add: MinimumTickInterval_def MaximumTickInterval_def LivenessProbeInterval_def second_def)

definition valid_interval :: "int64 \<Rightarrow> bool" where
  "valid_interval d \<longleftrightarrow> 5 * 10 ^ 9 \<le> sint d \<and> sint d \<le> 24 * 3600 * 10 ^ 9"

definition valid_config :: "config \<Rightarrow> bool" where
  "valid_config c \<longleftrightarrow> valid_interval (cfg_CapacityTickInterval c) \<and>
     valid_interval (cfg_PerformanceTickInterval c) \<and> valid_interval (cfg_TopologyMetricsTickInterval c)"

lemma out_of_range_iff: "out_of_range d \<longleftrightarrow> \<not> valid_interval d"
  by (auto simp: out_of_range_def valid_interval_def interval_values)

lemma ValidateConfig_iff: "ValidateConfig (Some c) = None \<longleftrightarrow> valid_config c"
  by (simp add: ValidateConfig_def valid_config_def out_of_range_iff)

text \<open>
  A configuration is accepted exactly when all three polling intervals lie between five seconds and
  a day, read as signed nanoseconds; with an accepted one and the default liveness interval the
  loop starts.
\<close>

theorem validation_exact:
  "ValidateConfig (Some c) = None \<longleftrightarrow>
     list_all (\<lambda>d. 5 * 10 ^ 9 \<le> sint d \<and> sint d \<le> 24 * 3600 * 10 ^ 9)
       [cfg_CapacityTickInterval c, cfg_PerformanceTickInterval c, cfg_TopologyMetricsTickInterval c]"
  by (simp add: ValidateConfig_iff valid_config_def valid_interval_def)

lemma run_start_Running:
  "run_start config = Running st \<Longrightarrow> \<exists>c. config = Some c \<and> valid_config c \<and>
     st = \<lparr>ls_capacity = cfg_CapacityTickInterval c, ls_performance = cfg_PerformanceTickInterval c,
       ls_topology = cfg_TopologyMetricsTickInterval c, ls_collectedOnLeaderAcquired = False,
       ls_wasLeader = False\<rparr>"
  by (auto simp: run_start_def GetTickIntervals_def ValidateConfig_iff Let_def
      split: option.splits if_splits)

lemma run_start_valid: "run_start config = Running st \<Longrightarrow> ValidateConfig config = None"
  by (simp add: run_start_def split: option.splits)

subsection \<open>Leadership\<close>

text \<open>The loop's own steps and what they keep: the two flags agree.\<close>

definition loop_step :: "loop_state \<Rightarrow> loop_state \<Rightarrow> bool" where
  "loop_step st st' \<longleftrightarrow> (\<exists>c e acts. run_turn c e st = (acts, Running st'))"

definition flags_agree :: "loop_state \<Rightarrow> bool" where
  "flags_agree st \<longleftrightarrow> ls_collectedOnLeaderAcquired st = ls_wasLeader st"

lemma tick_update_flags:
  "tick_update c st = Inr (acts, st') \<Longrightarrow> ls_wasLeader st' = ls_wasLeader st \<and>
     ls_collectedOnLeaderAcquired st' = ls_collectedOnLeaderAcquired st"
  by (auto simp: tick_update_def GetTickIntervals_def res_iff)

lemma tick_update_actions: "tick_update c st = Inr (acts, st') \<Longrightarrow> Export k \<notin> set acts"
  by (auto simp: tick_update_def GetTickIntervals_def res_iff update_ticker_def NewTicker_def split: if_splits)

lemma run_turn_Running:
  "run_turn c e st = (acts, Running st') \<longleftrightarrow>
     (select_turn c e st = (acts, Continue, st')) \<or>
     (\<exists>acts0 st0 acts1. select_turn c e st = (acts0, Proceed, st0) \<and>
        tick_update c st0 = Inr (acts1, st') \<and> acts = acts0 @ acts1)"
  by (cases "select_turn c e st")
    (auto simp: run_turn_def split: flow.splits sum.splits error.splits)

fun leader_answer :: "bool \<Rightarrow> event \<Rightarrow> bool" where
  "leader_answer was (Leader_check isLeader _ _ _ _ _) = isLeader"
| "leader_answer was _ = was"

lemma select_turn_flags:
  assumes "flags_agree st" and "select_turn c e st = (acts, f, st')" and "\<And>r. f \<noteq> Return r"
  shows "flags_agree st'" and "ls_wasLeader st' = leader_answer (ls_wasLeader st) e"
  using assms
  by (cases "(c, e, st)" rule: select_turn.cases;
      auto simp: leader_turn_def flags_agree_def Let_def split: if_splits)+

lemma run_turn_flags:
  assumes "flags_agree st" and "run_turn c e st = (acts, Running st')"
  shows "flags_agree st' \<and> ls_wasLeader st' = leader_answer (ls_wasLeader st) e"
  using assms(2) unfolding run_turn_Running
proof (elim disjE exE conjE)
  assume "select_turn c e st = (acts, Continue, st')"
  then show ?thesis using select_turn_flags [OF assms(1)] by blast
next
  fix acts0 st0 acts1
  assume "select_turn c e st = (acts0, Proceed, st0)" and t: "tick_update c st0 = Inr (acts1, st')"
  then have "flags_agree st0" "ls_wasLeader st0 = leader_answer (ls_wasLeader st) e"
    using select_turn_flags [OF assms(1)] by blast+
  with tick_update_flags [OF t] show ?thesis by (simp add: flags_agree_def)
qed

interpretation loop_system: invariant_system
  "\<lambda>st. \<not> ls_wasLeader st \<and> \<not> ls_collectedOnLeaderAcquired st" loop_step flags_agree
proof unfold_locales
  fix st :: loop_state assume "\<not> ls_wasLeader st \<and> \<not> ls_collectedOnLeaderAcquired st"
  then show "flags_agree st" by (simp add: flags_agree_def)
next
  fix st st' assume "flags_agree st" and "loop_step st st'"
  then show "flags_agree st'" unfolding loop_step_def using run_turn_flags by blast
qed

lemma run_Running:
  assumes "run config turns = (acts, Running st)"
  obtains st0 where "run_start config = Running st0" and "run_loop turns st0 = (acts, Running st)"
  using assms
  by (auto simp: run_def run_start_def Let_def split: turn_end.splits if_splits prod.splits option.splits)

lemma run_loop_steps: "run_loop turns st = (acts, Running st') \<Longrightarrow> loop_step\<^sup>*\<^sup>* st st'"
proof (induction turns st arbitrary: acts rule: run_loop.induct)
  case (1 st)
  then show ?case by simp
next
  case (2 c e turns st)
  obtain a st1 where t: "run_turn c e st = (a, Running st1)"
    using 2(2) by (auto split: turn_end.splits prod.splits)
  then have "loop_step st st1" by (auto simp: loop_step_def)
  moreover obtain b where "run_loop turns st1 = (b, Running st')"
    using 2(2) t by (auto split: prod.splits)
  ultimately show ?case using 2(1) [OF t [symmetric] refl] by (meson converse_rtranclp_into_rtranclp)
qed

lemma run_loop_was:
  "run_loop turns st = (acts, Running st') \<Longrightarrow> flags_agree st \<Longrightarrow>
     ls_wasLeader st' = foldl leader_answer (ls_wasLeader st) (map snd turns)"
proof (induction turns st arbitrary: acts rule: run_loop.induct)
  case (1 st)
  then show ?case by simp
next
  case (2 c e turns st)
  obtain a st1 where t: "run_turn c e st = (a, Running st1)"
    using 2(2) by (auto split: turn_end.splits prod.splits)
  moreover obtain b where "run_loop turns st1 = (b, Running st')"
    using 2(2) t by (auto split: prod.splits)
  ultimately show ?case using 2(1) [OF t [symmetric] refl] run_turn_flags [OF 2(3) t] by simp
qed

lemma run_was:
  assumes "run config turns = (acts, Running st)"
  shows "ls_wasLeader st = foldl leader_answer False (map snd turns)"
proof -
  obtain st0 where s: "run_start config = Running st0" and r: "run_loop turns st0 = (acts, Running st)"
    using assms by (rule run_Running)
  show ?thesis using run_loop_was [OF r] run_start_Running [OF s] by (auto simp: flags_agree_def)
qed

definition minute_config :: config where
  "minute_config = \<lparr>cfg_CapacityTickInterval = 60 * second, cfg_PerformanceTickInterval = 60 * second,
     cfg_TopologyMetricsTickInterval = 60 * second, cfg_LivenessProbeTickInterval = 0,
     cfg_CapacityMetricsEnabled = True, cfg_PerformanceMetricsEnabled = True,
     cfg_TopologyMetricsEnabled = True, cfg_CollectorAddress = ''otel:4317'', cfg_CollectorCertPath = []\<rparr>"

definition minute_state :: "bool \<Rightarrow> loop_state" where
  "minute_state leads = \<lparr>ls_capacity = 60 * second, ls_performance = 60 * second, ls_topology = 60 * second,
     ls_collectedOnLeaderAcquired = leads, ls_wasLeader = leads\<rparr>"

lemma minute_valid: "ValidateConfig (Some minute_config) = None"
  by (simp add: ValidateConfig_iff valid_config_def valid_interval_def minute_config_def second_def)

lemma minute_start: "run_start (Some minute_config) = Running (minute_state False)"
  using minute_valid
  by (simp add: run_start_def GetTickIntervals_def minute_config_def minute_state_def interval_values second_def)

lemma minute_turn:
  "run_turn minute_config (Leader_check True True False True False True) (minute_state False) =
     ([Export Capacity_kind, Export Performance_kind, Export Topology_kind,
       Reset_ticker Capacity_kind (60 * second), Reset_ticker Performance_kind (60 * second),
       Reset_ticker Topology_kind (60 * second)], Running (minute_state True))"
  by (simp add: run_turn_def leader_turn_def minute_state_def minute_config_def Let_def
      collectCapacityMetrics_def collectPerformanceMetrics_def collectTopologyMetrics_def collect_kind_def
      tick_update_def GetTickIntervals_def update_ticker_def) (simp add: second_def)

text \<open>
  C20. In a running loop both flags are the last answer of the leader check: losing the lease resets them,
  so that every re-election collects immediately again, and while the lease is held the check does
  not collect a second time.
\<close>

theorem leader_flags_track:
  assumes "run config turns = (acts, Running st)"
  shows "ls_wasLeader st = foldl leader_answer False (map snd turns) \<and>
    ls_collectedOnLeaderAcquired st = foldl leader_answer False (map snd turns)"
proof -
  obtain st0 where s: "run_start config = Running st0" and r: "run_loop turns st0 = (acts, Running st)"
    using assms by (rule run_Running)
  have init: "\<not> ls_wasLeader st0 \<and> \<not> ls_collectedOnLeaderAcquired st0"
    using run_start_Running [OF s] by auto
  then have "flags_agree st" using run_loop_steps [OF r] by (rule loop_system.reachable_inv)
  moreover have "ls_wasLeader st = foldl leader_answer False (map snd turns)"
    using run_loop_was [OF r] init by (simp add: flags_agree_def)
  ultimately show ?thesis by (simp add: flags_agree_def)
qed

theorem leader_flags_track_witness:
  "ls_wasLeader (minute_state True) =
     foldl leader_answer False [Leader_check True True False True False True]"
  using leader_flags_track [of "Some minute_config" "[(minute_config, Leader_check True True False True False True)]"
      _ "minute_state True"]
  by (simp add: run_def minute_start minute_turn minute_valid)

subsection \<open>What a turn exports\<close>

fun enabled_kind :: "config \<Rightarrow> kind \<Rightarrow> bool" where
  "enabled_kind c Capacity_kind = cfg_CapacityMetricsEnabled c"
| "enabled_kind c Performance_kind = cfg_PerformanceMetricsEnabled c"
| "enabled_kind c Topology_kind = cfg_TopologyMetricsEnabled c"

text \<open>The elector's answer at the moment a kind of metrics is collected in a turn.\<close>

fun leading_for :: "event \<Rightarrow> kind \<Rightarrow> bool" where
  "leading_for (Leader_check isLeader l1 done1 l2 done2 l3) Capacity_kind = (isLeader \<and> l1)"
| "leading_for (Leader_check isLeader l1 done1 l2 done2 l3) Performance_kind = (isLeader \<and> \<not> done1 \<and> l2)"
| "leading_for (Leader_check isLeader l1 done1 l2 done2 l3) Topology_kind =
     (isLeader \<and> \<not> done1 \<and> \<not> done2 \<and> l3)"
| "leading_for (Capacity_tick isLeader) Capacity_kind = isLeader"
| "leading_for (Topology_tick isLeader) Topology_kind = isLeader"
| "leading_for _ _ = False"

fun exported_kinds :: "action list \<Rightarrow> kind list" where
  "exported_kinds [] = []"
| "exported_kinds (Export k # acts) = k # exported_kinds acts"
| "exported_kinds (_ # acts) = exported_kinds acts"

lemma exported_kinds_append [simp]: "exported_kinds (as @ bs) = exported_kinds as @ exported_kinds bs"
  by (induction as rule: exported_kinds.induct) auto

lemma exported_resets [simp]: "exported_kinds (fst (reset_tickers kds)) = []"
  by (induction kds rule: reset_tickers.induct) (auto simp: case_prod_beta Let_def)

lemma exported_deferred [simp]: "exported_kinds (deferred final) = []"
  by (cases final) simp_all

lemma exported_kinds_empty: "(\<And>k. Export k \<notin> set as) \<Longrightarrow> exported_kinds as = []"
  by (induction as rule: exported_kinds.induct) auto

lemma exported_collect [simp]:
  "exported_kinds (collect_kind leads enabled k) = (if leads \<and> enabled then [k] else [])"
  by (simp add: collect_kind_def)

lemmas collect_defs = collectCapacityMetrics_def collectPerformanceMetrics_def collectTopologyMetrics_def

lemma exported_turn: "exported_kinds (fst (run_turn c e st)) = exported_kinds (fst (select_turn c e st))"
  by (auto simp: run_turn_def exported_kinds_empty [OF tick_update_actions]
      split: prod.splits flow.splits sum.splits error.splits)

text \<open>The order in which a turn exports the kinds.\<close>

fun kind_rank :: "kind \<Rightarrow> nat" where
  "kind_rank Capacity_kind = 0"
| "kind_rank Performance_kind = 1"
| "kind_rank Topology_kind = 2"

lemma kind_rank_inj: "kind_rank k = kind_rank l \<Longrightarrow> k = l"
  by (cases k; cases l) simp_all

instantiation kind :: linorder
begin

definition less_eq_kind :: "kind \<Rightarrow> kind \<Rightarrow> bool" where
  "less_eq_kind k l \<longleftrightarrow> kind_rank k \<le> kind_rank l"

definition less_kind :: "kind \<Rightarrow> kind \<Rightarrow> bool" where
  "less_kind k l \<longleftrightarrow> kind_rank k < kind_rank l"

instance
  by (intro_classes) (auto simp: less_eq_kind_def less_kind_def intro: kind_rank_inj)

end

text \<open>The due kinds of a turn; on acquisition of the lease all three.\<close>

definition due_kinds :: "event \<Rightarrow> bool \<Rightarrow> kind list" where
  "due_kinds e collected = (case e of
     Leader_check _ _ _ _ _ _ \<Rightarrow> if collected then [] else [Capacity_kind, Performance_kind, Topology_kind]
   | Capacity_tick _ \<Rightarrow> [Capacity_kind]
   | Topology_tick _ \<Rightarrow> [Topology_kind]
   | _ \<Rightarrow> [])"

lemma turn_exports_eq:
  assumes "flags_agree st"
  shows "exported_kinds (fst (run_turn c e st)) =
    filter (\<lambda>k. enabled_kind c k \<and> leading_for e k) (due_kinds e (ls_collectedOnLeaderAcquired st))"
  unfolding exported_turn
  using assms
  by (cases "(c, e, st)" rule: select_turn.cases)
    (simp_all add: leader_turn_def due_kinds_def collect_defs flags_agree_def case_prod_beta Let_def
      del: reset_tickers.simps)

lemma due_kinds_sorted: "sorted_wrt (<) (due_kinds e collected)"
  by (cases e) (simp_all add: due_kinds_def less_kind_def)

lemma turn_exports_sorted:
  "flags_agree st \<Longrightarrow> sorted_wrt (<) (exported_kinds (fst (run_turn c e st)))"
  unfolding turn_exports_eq by (intro sorted_wrt_filter due_kinds_sorted)

text \<open>
  C17. What a turn exports, in order: of the kinds that are due in it, those that are enabled and for which
  the elector answers at that moment that this replica leads. A leader check that finds the lease newly
  acquired makes all three kinds due, a capacity or topology tick its own kind, and nothing
  else makes any kind due: the performance ticker's turn exports nothing. No kind is exported twice in a turn,
  and capacity comes before performance before topology.
\<close>

theorem turn_exports:
  assumes "flags_agree st"
  shows "exported_kinds (fst (run_turn c e st)) =
    filter (\<lambda>k. enabled_kind c k \<and> leading_for e k) (due_kinds e (ls_collectedOnLeaderAcquired st)) \<and>
    sorted_wrt (<) (exported_kinds (fst (run_turn c e st)))"
  using turn_exports_eq [OF assms] turn_exports_sorted [OF assms] by (rule conjI)

theorem turn_exports_witness:
  "exported_kinds (fst (run_turn minute_config (Leader_check True True False False False True) (minute_state False))) =
     [Capacity_kind, Topology_kind]"
proof -
  have "flags_agree (minute_state False)" by (simp add: flags_agree_def minute_state_def)
  from turn_exports [OF this, of minute_config "Leader_check True True False False False True"] show ?thesis
    by (simp add: due_kinds_def minute_state_def minute_config_def)
qed

fun acquisitions :: "bool \<Rightarrow> event list \<Rightarrow> nat" where
  "acquisitions was [] = 0"
| "acquisitions was (e # es) =
     (if \<not> was \<and> leader_answer was e then 1 else 0) + acquisitions (leader_answer was e) es"

lemma count_performance_turn:
  assumes "flags_agree st"
  shows "count_list (exported_kinds (fst (run_turn c e st))) Performance_kind \<le>
    (if \<not> ls_wasLeader st \<and> leader_answer (ls_wasLeader st) e then 1 else 0)"
  unfolding turn_exports_eq [OF assms] using assms
  by (cases e) (auto simp: due_kinds_def flags_agree_def)

lemma count_performance_loop:
  "flags_agree st \<Longrightarrow> count_list (exported_kinds (fst (run_loop turns st))) Performance_kind \<le>
     acquisitions (ls_wasLeader st) (map snd turns)"
proof (induction turns st rule: run_loop.induct)
  case (1 st)
  then show ?case by simp
next
  case (2 c e turns st)
  let ?n = "if \<not> ls_wasLeader st \<and> leader_answer (ls_wasLeader st) e then 1 else (0 :: nat)"
  have n: "count_list (exported_kinds (fst (run_turn c e st))) Performance_kind \<le> ?n"
    using 2(2) by (rule count_performance_turn)
  obtain acts final where t: "run_turn c e st = (acts, final)" by (cases "run_turn c e st")
  show ?case
  proof (cases final)
    case (Running st1)
    have was: "ls_wasLeader st1 = leader_answer (ls_wasLeader st) e" "flags_agree st1"
      using run_turn_flags [OF 2(2)] t Running by auto
    have "count_list (exported_kinds (fst (run_loop turns st1))) Performance_kind \<le>
        acquisitions (leader_answer (ls_wasLeader st) e) (map snd turns)"
      using 2(1) [OF t [symmetric] Running was(2)] was(1) by simp
    with n show ?thesis by (simp add: t Running Let_def case_prod_beta split: if_splits)
  next
    case (Returned r)
    with n t show ?thesis by (auto split: if_splits)
  next
    case (Panicked msg)
    with n t show ?thesis by (auto split: if_splits)
  qed
qed

text \<open>
  C32. Performance metrics are exported at most once per acquired lease, however many performance ticks
  occur in a run: the body of that ticker's case is empty, so the configured performance
  interval has no effect.
\<close>

theorem performance_only_on_acquisition:
  "count_list (exported_kinds (fst (run config turns))) Performance_kind \<le>
     acquisitions False (map snd turns)"
proof (cases "run_start config")
  case (Running st)
  have "flags_agree st" "\<not> ls_wasLeader st"
    using run_start_Running [OF Running] by (auto simp: flags_agree_def)
  then show ?thesis
    using count_performance_loop [of st turns] Running by (simp add: run_def case_prod_beta Let_def)
qed (simp_all add: run_def)

subsection \<open>Panics\<close>

lemma update_ticker_panics:
  "(\<exists>e. update_ticker k old new = Inl e) \<longleftrightarrow> old \<noteq> new \<and> sint new \<le> 0"
  by (simp add: update_ticker_def NewTicker_def)

lemma tick_update_panics:
  "(\<exists>e. tick_update c st = Inl e) \<longleftrightarrow>
     (cfg_CapacityTickInterval c \<noteq> ls_capacity st \<and> sint (cfg_CapacityTickInterval c) \<le> 0) \<or>
     (cfg_PerformanceTickInterval c \<noteq> ls_performance st \<and> sint (cfg_PerformanceTickInterval c) \<le> 0) \<or>
     (cfg_TopologyMetricsTickInterval c \<noteq> ls_topology st \<and> sint (cfg_TopologyMetricsTickInterval c) \<le> 0)"
  by (auto simp: tick_update_def GetTickIntervals_def update_ticker_def NewTicker_def)

definition positive_intervals :: "config \<Rightarrow> bool" where
  "positive_intervals c \<longleftrightarrow> 0 < sint (cfg_CapacityTickInterval c) \<and>
     0 < sint (cfg_PerformanceTickInterval c) \<and> 0 < sint (cfg_TopologyMetricsTickInterval c)"

lemma valid_positive: "ValidateConfig (Some c) = None \<Longrightarrow> positive_intervals c"
  by (auto simp: ValidateConfig_iff valid_config_def valid_interval_def positive_intervals_def)

text \<open>The intervals that the loop runs with are positive in every state it can be in: they are checked when they change.\<close>

definition positive_state :: "loop_state \<Rightarrow> bool" where
  "positive_state st \<longleftrightarrow> 0 < sint (ls_capacity st) \<and> 0 < sint (ls_performance st) \<and> 0 < sint (ls_topology st)"

lemma positive_start: "run_start config = Running st \<Longrightarrow> positive_state st"
  by (drule run_start_Running) (auto simp: positive_state_def valid_config_def valid_interval_def)

lemma select_turn_intervals:
  "select_turn c e st = (acts, f, st') \<Longrightarrow> ls_capacity st' = ls_capacity st \<and>
     ls_performance st' = ls_performance st \<and> ls_topology st' = ls_topology st"
  by (cases "(c, e, st)" rule: select_turn.cases)
    (auto simp: leader_turn_def Let_def split: if_splits prod.splits)

lemma select_turn_no_crash: "positive_state st \<Longrightarrow> select_turn c e st \<noteq> (acts, Crash msg, st')"
  by (cases "(c, e, st)" rule: select_turn.cases)
    (auto simp: leader_turn_def positive_state_def Let_def split: if_splits)

lemma tick_update_state:
  "tick_update c st = Inr (acts, st') \<Longrightarrow> positive_state st \<Longrightarrow> positive_state st' \<and>
     ls_capacity st' = cfg_CapacityTickInterval c \<and> ls_performance st' = cfg_PerformanceTickInterval c \<and>
     ls_topology st' = cfg_TopologyMetricsTickInterval c"
  by (auto simp: tick_update_def GetTickIntervals_def res_iff update_ticker_def NewTicker_def positive_state_def
      split: if_splits)

lemma run_turn_positive:
  assumes "positive_state st" and "run_turn c e st = (acts, Running st')"
  shows "positive_state st'"
  using assms(2) unfolding run_turn_Running
proof (elim disjE exE conjE)
  assume "select_turn c e st = (acts, Continue, st')"
  from select_turn_intervals [OF this] assms(1) show ?thesis by (simp add: positive_state_def)
next
  fix acts0 st0 acts1
  assume s: "select_turn c e st = (acts0, Proceed, st0)" and t: "tick_update c st0 = Inr (acts1, st')"
  have "positive_state st0" using select_turn_intervals [OF s] assms(1) by (simp add: positive_state_def)
  then show ?thesis using tick_update_state [OF t] by blast
qed

interpretation interval_system: invariant_system positive_state loop_step positive_state
  by unfold_locales (auto simp: loop_step_def intro: run_turn_positive)

text \<open>The events whose turn goes on to the interval update.\<close>

definition reaches_update :: "bool \<Rightarrow> event \<Rightarrow> bool" where
  "reaches_update was e = (case e of
     Error_message m \<Rightarrow> False
   | Ctx_done \<Rightarrow> False
   | Leader_check isLeader l1 done1 l2 done2 l3 \<Rightarrow> was \<or> \<not> isLeader \<or> \<not> done1 \<and> \<not> done2
   | _ \<Rightarrow> True)"

lemma select_turn_reaches:
  assumes "flags_agree st" and "positive_state st"
  shows "fst (snd (select_turn c e st)) = Proceed \<longleftrightarrow> reaches_update (ls_wasLeader st) e"
  using assms
  by (cases "(c, e, st)" rule: select_turn.cases)
    (auto simp: leader_turn_def reaches_update_def flags_agree_def positive_state_def Let_def)

lemma run_turn_panics:
  assumes "flags_agree st" and "positive_state st"
  shows "(\<exists>msg. snd (run_turn c e st) = Panicked msg) \<longleftrightarrow> reaches_update (ls_wasLeader st) e \<and>
     (sint (cfg_CapacityTickInterval c) \<le> 0 \<or> sint (cfg_PerformanceTickInterval c) \<le> 0 \<or>
      sint (cfg_TopologyMetricsTickInterval c) \<le> 0)"
proof -
  obtain acts f st1 where s: "select_turn c e st = (acts, f, st1)" by (cases "select_turn c e st")
  have "f \<noteq> Crash msg" for msg using select_turn_no_crash [OF assms(2)] s by blast
  then have "(\<exists>msg. snd (run_turn c e st) = Panicked msg) \<longleftrightarrow> f = Proceed \<and> (\<exists>e. tick_update c st1 = Inl e)"
    by (cases f; cases "tick_update c st1") (auto simp: run_turn_def s split: error.splits)
  moreover have "f = Proceed \<longleftrightarrow> reaches_update (ls_wasLeader st) e"
    using select_turn_reaches [OF assms, of c e] by (simp add: s)
  ultimately show ?thesis
    using select_turn_intervals [OF s] assms(2) by (auto simp: tick_update_panics positive_state_def)
qed

lemma running_state:
  assumes "run config turns = (acts, Running st)"
  shows "flags_agree st" and "positive_state st"
proof -
  obtain st0 where s: "run_start config = Running st0" and r: "run_loop turns st0 = (acts, Running st)"
    using assms by (rule run_Running)
  have init: "\<not> ls_wasLeader st0 \<and> \<not> ls_collectedOnLeaderAcquired st0"
    using run_start_Running [OF s] by auto
  then show "flags_agree st" using run_loop_steps [OF r] by (rule loop_system.reachable_inv)
  show "positive_state st" using positive_start [OF s] run_loop_steps [OF r] by (rule interval_system.reachable_inv)
qed

lemma run_snoc:
  assumes "run config turns = (acts, Running st)"
  shows "snd (run config (turns @ [(c, e)])) = snd (run_turn c e st)"
proof -
  obtain st0 where s: "run_start config = Running st0" and r: "run_loop turns st0 = (acts, Running st)"
    using assms by (rule run_Running)
  have "snd (run_loop (turns @ [(c, e)]) st0) = snd (run_turn c e st)"
    using r
  proof (induction turns st0 arbitrary: acts rule: run_loop.induct)
    case (1 st0)
    then show ?case by (cases "run_turn c e st0"; cases "snd (run_turn c e st0)") auto
  next
    case (2 c' e' turns st0)
    obtain a st1 where t: "run_turn c' e' st0 = (a, Running st1)"
      using 2(2) by (auto split: turn_end.splits prod.splits)
    moreover obtain b where "run_loop turns st1 = (b, Running st)"
      using 2(2) t by (auto split: prod.splits)
    ultimately show ?case using 2(1) [OF t [symmetric] refl] by (simp add: case_prod_beta Let_def)
  qed
  then show ?thesis using s run_start_valid [OF s] by (simp add: run_def case_prod_beta Let_def)
qed

text \<open>
  C34. When the main loop panics. Take any run that is still going on after some turns, whatever reloads it has seen; its next turn
  panics exactly when its event lets it reach the interval update and one of the intervals that it reads is zero or
  less. \<open>Ticker.Reset\<close> panics on such an interval as well, but the resets after the collection on acquisition never do: an
  interval is positive when the loop takes it over.
\<close>

theorem panic_iff_bad_reload:
  assumes "run config turns = (acts, Running st)"
  shows "(\<exists>msg. snd (run config (turns @ [(c, e)])) = Panicked msg) \<longleftrightarrow>
    reaches_update (foldl leader_answer False (map snd turns)) e \<and>
    (sint (cfg_CapacityTickInterval c) \<le> 0 \<or> sint (cfg_PerformanceTickInterval c) \<le> 0 \<or>
     sint (cfg_TopologyMetricsTickInterval c) \<le> 0)"
  unfolding run_snoc [OF assms] run_turn_panics [OF running_state [OF assms]] run_was [OF assms] ..

theorem panic_iff_bad_reload_witness:
  "\<exists>msg. snd (run (Some minute_config) [(minute_config, Leader_check True True False True False True),
     (minute_config\<lparr>cfg_TopologyMetricsTickInterval := 0\<rparr>, Leader_check True True True True True True)]) = Panicked msg"
proof -
  have "run (Some minute_config) [(minute_config, Leader_check True True False True False True)] =
      (fst (run_turn minute_config (Leader_check True True False True False True) (minute_state False)),
       Running (minute_state True))"
    by (simp add: run_def minute_start minute_turn minute_valid)
  from panic_iff_bad_reload [OF this, of "minute_config\<lparr>cfg_TopologyMetricsTickInterval := 0\<rparr>"
      "Leader_check True True True True True True"] show ?thesis
    by (simp add: reaches_update_def)
qed

lemma positive_turn: "positive_state st \<Longrightarrow> positive_intervals c \<Longrightarrow> snd (run_turn c e st) \<noteq> Panicked msg"
proof -
  assume pos: "positive_state st" "positive_intervals c"
  obtain acts f st1 where s: "select_turn c e st = (acts, f, st1)" by (cases "select_turn c e st")
  have "f \<noteq> Crash m" for m using select_turn_no_crash [OF pos(1)] s by blast
  moreover have "\<nexists>e. tick_update c st1 = Inl e" using pos(2) by (auto simp: tick_update_panics positive_intervals_def)
  ultimately show ?thesis by (cases f; cases "tick_update c st1") (auto simp: run_turn_def s)
qed

lemma positive_loop:
  "positive_state st \<Longrightarrow> list_all (\<lambda>(c, e). positive_intervals c) turns \<Longrightarrow> snd (run_loop turns st) \<noteq> Panicked msg"
proof (induction turns st rule: run_loop.induct)
  case (1 st)
  then show ?case by simp
next
  case (2 c e turns st)
  obtain acts final where t: "run_turn c e st = (acts, final)" by (cases "run_turn c e st")
  have "final \<noteq> Panicked msg" using positive_turn [of st c e msg] 2(2,3) by (simp add: t)
  then show ?case using 2(1) [OF t [symmetric]] 2(2,3) run_turn_positive [OF 2(2), of c e]
    by (cases final) (auto simp: t case_prod_beta Let_def)
qed

subsection \<open>How a run ends\<close>

text \<open>
  What makes a turn the last one, given whether the replica was leading before it: cancellation, a real error, or
  cancellation between the collections of a newly acquired lease.
\<close>

definition ends_run :: "bool \<Rightarrow> event \<Rightarrow> error option option" where
  "ends_run was e = (case e of
     Ctx_done \<Rightarrow> Some None
   | Error_message (Some err) \<Rightarrow> Some (Some err)
   | Leader_check isLeader l1 done1 l2 done2 l3 \<Rightarrow>
       if \<not> was \<and> isLeader \<and> (done1 \<or> done2) then Some None else None
   | _ \<Rightarrow> None)"

fun run_result :: "bool \<Rightarrow> event list \<Rightarrow> error option option" where
  "run_result was [] = None"
| "run_result was (e # es) =
     (case ends_run was e of Some r \<Rightarrow> Some r | None \<Rightarrow> run_result (leader_answer was e) es)"

lemma select_turn_ends:
  assumes "flags_agree st" and "positive_state st"
  shows "(\<exists>r. fst (snd (select_turn c e st)) = Return r \<and> ends_run (ls_wasLeader st) e = Some r) \<or>
    ((\<forall>r. fst (snd (select_turn c e st)) \<noteq> Return r) \<and> ends_run (ls_wasLeader st) e = None)"
  using assms
  by (cases "(c, e, st)" rule: select_turn.cases) (auto simp: leader_turn_def flags_agree_def positive_state_def ends_run_def Let_def)

lemma run_turn_ends:
  assumes "flags_agree st" and "positive_state st" and "positive_intervals c"
  shows "case ends_run (ls_wasLeader st) e of
      Some r \<Rightarrow> snd (run_turn c e st) = Returned r
    | None \<Rightarrow> \<exists>st'. snd (run_turn c e st) = Running st'"
proof -
  have "\<nexists>msg. snd (run_turn c e st) = Panicked msg" using positive_turn [OF assms(2,3)] by blast
  then show ?thesis
    using select_turn_ends [OF assms(1,2), of c e]
    by (auto simp: run_turn_def split: prod.splits flow.splits sum.splits error.splits)
qed

lemma run_loop_result:
  "flags_agree st \<Longrightarrow> positive_state st \<Longrightarrow> list_all (\<lambda>(c, e). positive_intervals c) turns \<Longrightarrow>
     case run_result (ls_wasLeader st) (map snd turns) of
       Some r \<Rightarrow> snd (run_loop turns st) = Returned r
     | None \<Rightarrow> \<exists>st'. snd (run_loop turns st) = Running st'"
proof (induction turns st rule: run_loop.induct)
  case (1 st)
  then show ?case by simp
next
  case (2 c e turns st)
  obtain acts final where t: "run_turn c e st = (acts, final)" by (cases "run_turn c e st")
  have pos: "positive_intervals c" using 2(4) by simp
  show ?case
  proof (cases "ends_run (ls_wasLeader st) e")
    case (Some r)
    then show ?thesis using run_turn_ends [OF 2(2,3) pos, of e] by (simp add: t)
  next
    case None
    then obtain st1 where st1: "final = Running st1" using run_turn_ends [OF 2(2,3) pos, of e] by (auto simp: t)
    have "flags_agree st1" "ls_wasLeader st1 = leader_answer (ls_wasLeader st) e"
      using run_turn_flags [OF 2(2)] t st1 by auto
    moreover have "positive_state st1" using run_turn_positive [OF 2(3)] t st1 by blast
    ultimately show ?thesis using 2(1) [OF t [symmetric] st1] 2(4) None
      by (simp add: t st1 case_prod_beta Let_def split: option.splits)
  qed
qed

lemma run_ends_with:
  assumes "run_start config = Running st" and "list_all (\<lambda>(c, e). positive_intervals c) turns"
  shows "case run_result False (map snd turns) of
      Some r \<Rightarrow> snd (run config turns) = Returned r
    | None \<Rightarrow> \<exists>st'. snd (run config turns) = Running st'"
proof -
  have "flags_agree st" "\<not> ls_wasLeader st"
    using run_start_Running [OF assms(1)] by (auto simp: flags_agree_def)
  moreover have "snd (run config turns) = snd (run_loop turns st)"
    using assms(1) run_start_valid [OF assms(1)] by (simp add: run_def case_prod_beta Let_def)
  ultimately show ?thesis using run_loop_result [of st turns] positive_start [OF assms(1)] assms(2) by (simp split: option.splits)
qed

text \<open>
  C36. When and with what \<open>Run\<close> returns: as long as no reload gives a non-positive interval, the loop ends at
  the first event that is a cancellation, an error other than nil, or a cancellation noticed between the
  collections of a newly acquired lease; the error is the result, cancellation is a success, a nil message does
  not end anything, and without such an event the loop is still running.
\<close>

theorem run_result_exact:
  assumes "run_start config = Running st" and "list_all (\<lambda>(c, e). positive_intervals c) turns"
  shows "case run_result False (map snd turns) of
      Some r \<Rightarrow> snd (run config turns) = Returned r
    | None \<Rightarrow> \<exists>st'. snd (run config turns) = Running st'"
  using assms by (rule run_ends_with)

theorem run_result_exact_witness:
  "snd (run (Some minute_config) [(minute_config, Performance_tick), (minute_config, Error_message None),
     (minute_config, Error_message (Some (Err ''no exporter''))), (minute_config, Ctx_done)]) =
   Returned (Some (Err ''no exporter''))"
proof -
  have "positive_intervals minute_config" using minute_valid by (rule valid_positive)
  then show ?thesis
    using run_result_exact [OF minute_start, of "[(minute_config, Performance_tick), (minute_config, Error_message None),
      (minute_config, Error_message (Some (Err ''no exporter''))), (minute_config, Ctx_done)]"]
    by (simp add: ends_run_def)
qed

end
