(* ===== verification/Main_Config.thy ===== *)
theory Main_Config
  imports Entrypoint Samples
begin

section \<open>Start-up and reload (\<open>cmd/metrics-powermax/main.go\<close>)\<close>

text \<open>
  \<open>configure\<close> builds the objects and calls \<open>onChangeUpdate\<close>, which the watcher of the reverse
  proxy's configuration file calls again after every change. Each \<open>update\<close> function reads its
  settings through viper, here a function \<open>get\<close> from names to strings (empty when unset), and
  stores the result in the objects.
\<close>

subsection \<open>\<open>strconv.Atoi\<close>\<close>

definition is_digit :: "char \<Rightarrow> bool" where
  "is_digit c \<longleftrightarrow> 48 \<le> (of_char c :: nat) \<and> (of_char c :: nat) \<le> 57"

definition digits_val :: "string \<Rightarrow> int" where
  "digits_val ds = foldl (\<lambda>n c. 10 * n + (of_char c - 48)) 0 ds"

text \<open>An optional sign and at least one decimal digit, within the range of \<open>int\<close> (64 bits).\<close>

definition Atoi :: "string \<Rightarrow> int result" where
  "Atoi s =
     (let (neg, ds) = (case s of
            [] \<Rightarrow> (False, [])
          | c # cs \<Rightarrow> if c = CHR ''-'' then (True, cs) else if c = CHR ''+'' then (False, cs) else (False, s));
          n = (if neg then - digits_val ds else digits_val ds)
      in if ds = [] \<or> \<not> list_all is_digit ds then Inl (Err ''invalid syntax'')
         else if \<not> in_int64 n then Inl (Err ''value out of range'')
         else Inr n)"

subsection \<open>The update functions\<close>

definition defaultTickInterval :: int64 where
  "defaultTickInterval = 5 * 60 * second"

text \<open>
  The three parts of \<open>updateTickIntervals\<close> are the same but for the name of the setting. On a parse
  error \<open>numSeconds\<close> is the default's number of seconds; the product is taken on \<open>int64\<close>.
\<close>

definition tick_interval :: "string \<Rightarrow> int64" where
  "tick_interval v =
     (if v = [] then defaultTickInterval
      else (let numSeconds = (case Atoi v of Inl err \<Rightarrow> 300 | Inr n \<Rightarrow> n)
            in (word_of_int numSeconds :: int64) * second))"

definition updateTickIntervals :: "(string \<Rightarrow> string) \<Rightarrow> config \<Rightarrow> config" where
  "updateTickIntervals get c =
     c\<lparr>cfg_CapacityTickInterval := tick_interval (get ''POWERMAX_CAPACITY_POLL_FREQUENCY''),
       cfg_PerformanceTickInterval := tick_interval (get ''POWERMAX_PERFORMANCE_POLL_FREQUENCY''),
       cfg_TopologyMetricsTickInterval := tick_interval (get ''POWERMAX_TOPOLOGY_METRICS_POLL_FREQUENCY'')\<rparr>"

definition updateMetricsEnabled :: "(string \<Rightarrow> string) \<Rightarrow> config \<Rightarrow> config" where
  "updateMetricsEnabled get c =
     c\<lparr>cfg_CapacityMetricsEnabled := get ''POWERMAX_CAPACITY_METRICS_ENABLED'' \<noteq> ''false'',
       cfg_PerformanceMetricsEnabled := get ''POWERMAX_PERFORMANCE_METRICS_ENABLED'' \<noteq> ''false'',
       cfg_TopologyMetricsEnabled := get ''POWERMAX_TOPOLOGY_METRICS_ENABLED'' \<noteq> ''false''\<rparr>"

definition updateMaxConnections :: "(string \<Rightarrow> string) \<Rightarrow> powermax_service \<Rightarrow> powermax_service" where
  "updateMaxConnections get s =
     (let v = get ''POWERMAX_MAX_CONCURRENT_QUERIES'';
          n = (if v = [] then DefaultMaxPowerMaxConnections
               else case Atoi v of
                 Inl err \<Rightarrow> DefaultMaxPowerMaxConnections
               | Inr converted \<Rightarrow> if converted \<le> 0 then DefaultMaxPowerMaxConnections else converted)
      in s\<lparr>ps_MaxPowerMaxConnections := n\<rparr>)"

text \<open>The configuration and the exporter each get the address.\<close>

definition updateCollectorAddress :: "(string \<Rightarrow> string) \<Rightarrow> config \<times> string \<Rightarrow> config \<times> string" where
  "updateCollectorAddress get ce =
     (let collectorAddress = get ''COLLECTOR_ADDR''
      in if collectorAddress = [] then ce
         else ((fst ce)\<lparr>cfg_CollectorAddress := collectorAddress\<rparr>, collectorAddress))"

definition updateProvisionerNames ::
  "(string \<Rightarrow> string) \<Rightarrow> volume_finder \<times> storage_class_finder \<Rightarrow> volume_finder \<times> storage_class_finder" where
  "updateProvisionerNames get fs =
     (let v = get ''PROVISIONER_NAMES''
      in if v = [] then fs
         else let provisionerNames = split_on (CHR '','') v
              in ((fst fs)\<lparr>vf_DriverNames := provisionerNames\<rparr>,
                  (snd fs)\<lparr>scf_StorageArrayID :=
                    map (\<lambda>a. a\<lparr>sa_DriverNames := provisionerNames\<rparr>) (scf_StorageArrayID (snd fs))\<rparr>))"

text \<open>
  \<open>updatePowerMaxArrays\<close>: \<open>arrays\<close> is what \<open>GetPowerMaxArrays\<close> returns this time; the loop copies
  it, array by array, into a new map.
\<close>

fun copy_clients :: "client_map \<Rightarrow> client_map \<Rightarrow> client_map" where
  "copy_clients powerMaxClients [] = powerMaxClients"
| "copy_clients powerMaxClients ((arrayID, powerMaxArrays) # rest) =
     copy_clients
       (AList.update arrayID
         ((case map_of powerMaxClients arrayID of Some l \<Rightarrow> l | None \<Rightarrow> []) @ powerMaxArrays)
         powerMaxClients) rest"

definition updatePowerMaxArrays :: "client_map result \<Rightarrow> powermax_service \<Rightarrow> powermax_service" where
  "updatePowerMaxArrays arrays s =
     (case arrays of
        Inl err \<Rightarrow> s
      | Inr m \<Rightarrow> SetPowerMaxClients (Some (copy_clients [] m)) s)"

record world =
  w_config :: config
  w_exporter_addr :: string
  w_service :: powermax_service
  w_volume_finder :: volume_finder
  w_class_finder :: storage_class_finder

definition updatePowerMaxConnection ::
  "(string \<Rightarrow> string) \<Rightarrow> client_map result \<Rightarrow> world \<Rightarrow> world" where
  "updatePowerMaxConnection get arrays w =
     (let w = w\<lparr>w_service := updatePowerMaxArrays arrays (w_service w)\<rparr>;
          fs = updateProvisionerNames get (w_volume_finder w, w_class_finder w)
      in w\<lparr>w_volume_finder := fst fs, w_class_finder := snd fs\<rparr>)"

definition onChangeUpdate :: "(string \<Rightarrow> string) \<Rightarrow> client_map result \<Rightarrow> world \<Rightarrow> world" where
  "onChangeUpdate get arrays w =
     (let w = updatePowerMaxConnection get arrays w;
          w = w\<lparr>w_config := updateMetricsEnabled get (w_config w)\<rparr>;
          ce = updateCollectorAddress get (w_config w, w_exporter_addr w);
          w = w\<lparr>w_config := fst ce, w_exporter_addr := snd ce\<rparr>;
          w = w\<lparr>w_config := updateTickIntervals get (w_config w)\<rparr>
      in w\<lparr>w_service := updateMaxConnections get (w_service w)\<rparr>)"

text \<open>\<open>collectorCertPath\<close> of \<open>configure\<close>; blanks count as unset.\<close>

definition is_blank :: "char \<Rightarrow> bool" where
  "is_blank c \<longleftrightarrow> c \<in> {CHR '' '', CHR 0x09, CHR 0x0A, CHR 0x0B, CHR 0x0C, CHR 0x0D}"

definition collector_cert_path :: "string \<Rightarrow> string \<Rightarrow> string" where
  "collector_cert_path tls env =
     (if tls = ''true''
      then if list_all is_blank env then ''/etc/ssl/certs/cert.crt'' else env
      else [])"

definition proxy_config_path :: "string \<Rightarrow> string" where
  "proxy_config_path useSecret =
     (if useSecret = ''true'' then ''/etc/powermax/config'' else ''/etc/reverseproxy/config.yaml'')"

subsection \<open>The self-metrics server\<close>

definition to_lower :: "char \<Rightarrow> char" where
  "to_lower c = (if 65 \<le> (of_char c :: nat) \<and> (of_char c :: nat) \<le> 90 then char_of ((of_char c :: nat) + 32) else c)"

text \<open>\<open>strings.EqualFold\<close> on the strings of the settings, which are ASCII.\<close>

definition EqualFold :: "string \<Rightarrow> string \<Rightarrow> bool" where
  "EqualFold s t \<longleftrightarrow> map to_lower s = map to_lower t"

text \<open>A setting that may be unset, read after \<open>SetDefault\<close>.\<close>

definition or_default :: "string option \<Rightarrow> string \<Rightarrow> string" where
  "or_default v d = (case v of None \<Rightarrow> d | Some s \<Rightarrow> s)"

text \<open>The result of opening a path and of closing the file.\<close>

fun validateTLSFiles :: "(string \<Rightarrow> unit result) \<Rightarrow> (string \<Rightarrow> unit result) \<Rightarrow> string list \<Rightarrow> error option" where
  "validateTLSFiles open_file close_file [] = None"
| "validateTLSFiles open_file close_file (path # rest) =
     (case open_file path of
        Inl err \<Rightarrow> Some (Err (''cannot open TLS file '' @ path))
      | Inr _ \<Rightarrow>
          (case close_file path of
             Inl err \<Rightarrow> Some (Err (''cannot close TLS file '' @ path))
           | Inr _ \<Rightarrow> validateTLSFiles open_file close_file rest))"

record server_config =
  srv_Port :: string
  srv_CertFile :: string
  srv_KeyFile :: string

definition startMetricsServer ::
  "(string \<Rightarrow> string option) \<Rightarrow> (string \<Rightarrow> unit result) \<Rightarrow> (string \<Rightarrow> unit result) \<Rightarrow> powermax_service \<Rightarrow>
   server_config result \<times> powermax_service" where
  "startMetricsServer get open_file close_file s =
     (let s = s\<lparr>ps_ObsInstrumenter := Some (Some ())\<rparr>;
          metricsPort = or_default (get ''X_CSI_METRICS_PORT'') ''8443'';
          scheme = or_default (get ''X_CSI_METRICS_SCHEME'') ''http''
      in if EqualFold scheme ''https''
         then let certFile = or_default (get ''X_CSI_METRICS_TLS_CERT_FILE'') ''/etc/metrics-tls/tls.crt'';
                  keyFile = or_default (get ''X_CSI_METRICS_TLS_KEY_FILE'') ''/etc/metrics-tls/tls.key''
              in case validateTLSFiles open_file close_file [certFile, keyFile] of
                   Some err \<Rightarrow> (Inl err, s)
                 | None \<Rightarrow> (Inr \<lparr>srv_Port = '':'' @ metricsPort, srv_CertFile = certFile,
                              srv_KeyFile = keyFile\<rparr>, s)
         else (Inr \<lparr>srv_Port = '':'' @ metricsPort, srv_CertFile = [], srv_KeyFile = []\<rparr>, s))"

subsection \<open>Properties\<close>

lemma default_valid: "valid_interval defaultTickInterval"
  by (simp add: valid_interval_def defaultTickInterval_def second_def)

lemma seconds_to_int64:
  assumes "- 9223372036 \<le> n" and "n \<le> 9223372036"
  shows "sint ((word_of_int n :: int64) * second) = n * 10 ^ 9"
proof -
  have "(word_of_int n :: int64) * second = word_of_int (n * 10 ^ 9)"
    by (simp add: second_def)
  moreover have "in_int64 (n * 10 ^ 9)" using assms by (simp add: in_int64_def)
  ultimately show ?thesis by (simp only: sint_of_int64)
qed

lemma tick_interval_parsed:
  assumes "Atoi v = Inr n" and "- 9223372036 \<le> n" and "n \<le> 9223372036"
  shows "sint (tick_interval v) = n * 10 ^ 9"
proof -
  have "v \<noteq> []" using assms(1) by (auto simp: Atoi_def Let_def)
  then show ?thesis using assms seconds_to_int64 [OF assms(2,3)] by (simp add: tick_interval_def)
qed

text \<open>
  A polling frequency means what it says as long as its number of nanoseconds fits in 64 bits: it
  is accepted exactly when it is between 5 and 86400 seconds.
\<close>

theorem frequency_accepted:
  assumes "Atoi v = Inr n" and "- 9223372036 \<le> n" and "n \<le> 9223372036"
  shows "valid_interval (tick_interval v) \<longleftrightarrow> 5 \<le> n \<and> n \<le> 86400"
  using tick_interval_parsed [OF assms] by (auto simp: valid_interval_def)

theorem frequency_accepted_witness: "valid_interval (tick_interval ''60'')"
proof -
  have "Atoi ''60'' = Inr 60" by (simp add: Atoi_def is_digit_def digits_val_def in_int64_def)
  then show ?thesis using frequency_accepted [of "''60''" 60] by simp
qed

text \<open>
  Beyond that the product wraps around: a frequency of 18446744079 seconds, almost six centuries,
  becomes an interval of 5.29 seconds and passes the validation.
\<close>

theorem huge_frequency_accepted:
  "Atoi ''18446744079'' = Inr 18446744079 \<and> sint (tick_interval ''18446744079'') = 5290448384 \<and>
   valid_interval (tick_interval ''18446744079'')"
proof -
  have "Atoi ''18446744079'' = Inr 18446744079"
    by (simp add: Atoi_def is_digit_def digits_val_def in_int64_def)
  moreover from this have "sint (tick_interval ''18446744079'') = 5290448384"
    by (simp add: tick_interval_def second_def)
  ultimately show ?thesis by (simp add: valid_interval_def)
qed

lemma updateMaxConnections_pos: "0 < ps_MaxPowerMaxConnections (updateMaxConnections get s)"
  by (simp add: updateMaxConnections_def DefaultMaxPowerMaxConnections_def Let_def split: sum.splits)

text \<open>
  The connection limit is always positive, whatever the setting: a positive number is taken as it is,
  and an unset, malformed, out-of-range, zero or negative one gives the default of ten.
\<close>

theorem connection_limit_positive:
  "ps_MaxPowerMaxConnections (updateMaxConnections get s) =
     (case Atoi (get ''POWERMAX_MAX_CONCURRENT_QUERIES'') of
        Inl err \<Rightarrow> 10
      | Inr n \<Rightarrow> if 0 < n then n else 10) \<and>
   0 < ps_MaxPowerMaxConnections (updateMaxConnections get s)"
proof (rule conjI)
  show "0 < ps_MaxPowerMaxConnections (updateMaxConnections get s)" by (rule updateMaxConnections_pos)
  have "Atoi [] = Inl (Err ''invalid syntax'')" by (simp add: Atoi_def)
  then show "ps_MaxPowerMaxConnections (updateMaxConnections get s) =
     (case Atoi (get ''POWERMAX_MAX_CONCURRENT_QUERIES'') of
        Inl err \<Rightarrow> 10
      | Inr n \<Rightarrow> if 0 < n then n else 10)"
    by (auto simp: updateMaxConnections_def DefaultMaxPowerMaxConnections_def Let_def split: sum.splits)
qed

lemma copy_clients_lookup:
  "distinct (map fst m) \<Longrightarrow> map_of (copy_clients acc m) a =
     (case map_of m a of None \<Rightarrow> map_of acc a
      | Some l \<Rightarrow> Some ((case map_of acc a of Some k \<Rightarrow> k | None \<Rightarrow> []) @ l))"
proof (induction acc m rule: copy_clients.induct)
  case (2 acc i l rest)
  then have "map_of rest i = None" by (simp add: map_of_eq_None_iff)
  with 2 show ?case by (auto split: option.splits)
qed simp

lemma copy_clients_distinct: "distinct (map fst acc) \<Longrightarrow> distinct (map fst (copy_clients acc m))"
  by (induction acc m rule: copy_clients.induct) (auto simp: distinct_update)

lemma copy_clients_same:
  assumes "distinct (map fst m)"
  shows "set (copy_clients [] m) = set m"
proof -
  have "map_of (copy_clients [] m) = map_of m"
    using copy_clients_lookup [OF assms, of "[]"] by (auto split: option.splits)
  then show ?thesis using assms copy_clients_distinct [of "[]" m] by (metis distinct_map map_of_inject_set list.simps(8) distinct.simps(1))
qed

lemma clients_ok_set: "set m = set m' \<Longrightarrow> clients_ok m \<longleftrightarrow> clients_ok m'"
  by (simp add: clients_ok_def)

end
