(* ===== verification/Exporter.thy ===== *)
theory Exporter
  imports Entrypoint
begin

section \<open>The OpenTelemetry exporter (\<open>opentelemetry/exporters\<close>)\<close>

text \<open>
  \<open>OtlCollectorExporter\<close> owns the OTLP exporter and the meter provider; every export goes through a
  wrapper that calls back when it fails. The OTLP and SDK libraries are parameters: what their
  constructors and their \<open>Shutdown\<close> methods answer (on a pointer that may be nil).
\<close>

record ('x, 'm) otl_exporter =
  oe_CollectorAddr :: string
  oe_exporter :: "'x option"
  oe_controller :: "'m option"
  oe_recordExportFailure :: "(unit \<Rightarrow> obs_call list) option"

definition SetExportFailureRecorder ::
  "(unit \<Rightarrow> obs_call list) option \<Rightarrow> ('x, 'm) otl_exporter \<Rightarrow> ('x, 'm) otl_exporter" where
  "SetExportFailureRecorder recordExportFailure c = c\<lparr>oe_recordExportFailure := recordExportFailure\<rparr>"

definition initOTLPExporter ::
  "('opts \<Rightarrow> 'x result) \<Rightarrow> ('x \<Rightarrow> 'm) \<Rightarrow> 'opts \<Rightarrow> ('x \<times> 'm) result" where
  "initOTLPExporter new newProvider opts =
     bind_res (new opts) (\<lambda>exporter. Inr (exporter, newProvider exporter))"

definition InitExporter ::
  "('opts \<Rightarrow> 'x result) \<Rightarrow> ('x \<Rightarrow> 'm) \<Rightarrow> 'opts \<Rightarrow> ('x, 'm) otl_exporter \<Rightarrow>
   error option \<times> ('x, 'm) otl_exporter" where
  "InitExporter new newProvider opts c =
     (case initOTLPExporter new newProvider opts of
        Inl err \<Rightarrow> (Some err, c)
      | Inr (exporter, controller) \<Rightarrow>
          (None, c\<lparr>oe_exporter := Some exporter, oe_controller := Some controller\<rparr>))"

definition StopExporter ::
  "('x option \<Rightarrow> unit result) \<Rightarrow> ('m option \<Rightarrow> unit result) \<Rightarrow> ('x, 'm) otl_exporter \<Rightarrow> error option" where
  "StopExporter shutdownExporter shutdownController c =
     (case shutdownExporter (oe_exporter c) of
        Inl err \<Rightarrow> Some err
      | Inr _ \<Rightarrow>
          (case shutdownController (oe_controller c) of
             Inl err \<Rightarrow> Some err
           | Inr _ \<Rightarrow> None))"

text \<open>
  The goroutine of \<open>Run\<close> that starts the exporter. A certificate that cannot be loaded is reported,
  and the exporter is initialized all the same, with nil credentials. The result lists the messages it
  sends to the error channel.
\<close>

datatype 'creds otlp_option = With_endpoint string | With_TLS_credentials "'creds option" | With_insecure

definition start_exporter ::
  "string \<Rightarrow> string \<Rightarrow> (string \<Rightarrow> 'creds result) \<Rightarrow> (unit \<Rightarrow> obs_call list) \<Rightarrow>
   ('creds otlp_option list \<Rightarrow> 'x result) \<Rightarrow> ('x \<Rightarrow> 'm) \<Rightarrow> ('x, 'm) otl_exporter \<Rightarrow>
   error option list \<times> ('x, 'm) otl_exporter" where
  "start_exporter addr certPath loadCreds recordFailure new newProvider c =
     (let (msgs, options) =
        (if certPath \<noteq> []
         then (case loadCreds certPath of
                 Inl err \<Rightarrow> ([Some err], [With_endpoint addr, With_TLS_credentials None])
               | Inr creds \<Rightarrow> ([], [With_endpoint addr, With_TLS_credentials (Some creds)]))
         else ([], [With_endpoint addr, With_insecure]));
          c = SetExportFailureRecorder (Some recordFailure) c;
          (err, c) = InitExporter new newProvider options c
      in (msgs @ [err], c))"

text \<open>\<open>recordingExporter.Export\<close>: the owner may be nil, and so may its callback.\<close>

definition recordingExport ::
  "unit result \<Rightarrow> ('x, 'm) otl_exporter option \<Rightarrow> unit result \<times> obs_call list" where
  "recordingExport exported owner =
     (exported,
      (case exported of
         Inl err \<Rightarrow>
           (case owner of
              None \<Rightarrow> []
            | Some c \<Rightarrow> (case oe_recordExportFailure c of None \<Rightarrow> [] | Some f \<Rightarrow> f ()))
       | Inr _ \<Rightarrow> []))"

text \<open>
  A failed OTLP export is reported once per known array, as a failure, and its error is passed on
  unchanged; a successful one reports nothing. The recorder is the one that \<open>Run\<close> installs.
\<close>

theorem export_failures_counted:
  "recordingExport exported (Some (SetExportFailureRecorder
       (Some (\<lambda>_. recordPowerMaxExportFailure ord
         (s\<lparr>ps_ObsInstrumenter := Some (Some ()), ps_PowerMaxClients := Some cm\<rparr>))) c)) =
     (exported, case exported of
        Inl err \<Rightarrow> map (\<lambda>(a, as). ExportSuccess ''metrics-powermax'' a ''failure'') (ord cm)
      | Inr _ \<Rightarrow> [])"
proof -
  have "concat (map (\<lambda>(a, as). RecordExportSuccess (Some (Some ())) a ''failure'') kvs) =
      map (\<lambda>(a, as). ExportSuccess ''metrics-powermax'' a ''failure'') kvs"
    for kvs :: client_map
    by (induction kvs) (auto simp: RecordExportSuccess_def obs_guard_def obsModuleLabel_def)
  then show ?thesis
    by (simp add: recordingExport_def SetExportFailureRecorder_def recordPowerMaxExportFailure_def
        GetPowerMaxClients_def maps_Clone_def split: sum.splits)
qed

text \<open>
  When the exporter could not be initialized, the deferred \<open>StopExporter\<close> of \<open>Run\<close> calls
  \<open>Shutdown\<close> on a nil exporter: a panic of that call replaces the error that made \<open>Run\<close> return.
\<close>

theorem failed_init_stops_nil:
  assumes "new opts = Inl err" and "oe_exporter c = None"
  shows "fst (InitExporter new newProvider opts c) = Some err \<and>
    StopExporter shutdownExporter shutdownController (snd (InitExporter new newProvider opts c)) =
      (case shutdownExporter None of
         Inl e \<Rightarrow> Some e
       | Inr _ \<Rightarrow> (case shutdownController (oe_controller c) of Inl e \<Rightarrow> Some e | Inr _ \<Rightarrow> None))"
  using assms by (simp add: InitExporter_def initOTLPExporter_def StopExporter_def)

definition fresh_exporter :: "(unit, unit) otl_exporter" where
  "fresh_exporter = \<lparr>oe_CollectorAddr = [], oe_exporter = None, oe_controller = None,
     oe_recordExportFailure = None\<rparr>"

theorem failed_init_stops_nil_witness:
  "StopExporter (\<lambda>e. if e = None then Inl (Panic ''nil exporter'') else Inr ()) (\<lambda>_. Inr ())
     (snd (InitExporter (\<lambda>_ :: unit. Inl (Err ''no certificate'')) (\<lambda>_. ()) () fresh_exporter)) =
     Some (Panic ''nil exporter'')"
  using failed_init_stops_nil [of "\<lambda>_ :: unit. Inl (Err ''no certificate'')" "()" "Err ''no certificate''"
      fresh_exporter "\<lambda>_. ()" "\<lambda>e. if e = None then Inl (Panic ''nil exporter'') else Inr ()" "\<lambda>_. Inr ()"]
  by (simp add: fresh_exporter_def)

subsection \<open>The messages of the start and the main loop\<close>

text \<open>Events without a cancellation, and the messages among them.\<close>

fun uncancelled :: "event \<Rightarrow> bool" where
  "uncancelled Ctx_done = False"
| "uncancelled (Leader_check _ _ done1 _ done2 _) = (\<not> done1 \<and> \<not> done2)"
| "uncancelled _ = True"

fun messages :: "event list \<Rightarrow> error option list" where
  "messages [] = []"
| "messages (Error_message m # es) = m # messages es"
| "messages (_ # es) = messages es"

lemma run_result_messages:
  "list_all uncancelled es \<Longrightarrow> run_result was es = find (\<lambda>m. m \<noteq> None) (messages es)"
proof (induction es arbitrary: was)
  case Nil
  then show ?case by simp
next
  case (Cons e es)
  then have rest: "run_result was es = find (\<lambda>m. m \<noteq> None) (messages es)" for was by simp
  show ?case
  proof (cases e)
    case (Error_message m)
    then show ?thesis by (cases m) (simp_all add: ends_run_def rest)
  qed (use Cons.prems in \<open>auto simp: ends_run_def rest\<close>)
qed

text \<open>
  What a failed start of the exporter does to \<open>Run\<close>: as long as nothing is cancelled and the leader election
  does not report, a certificate that cannot be loaded ends \<open>Run\<close> with its error although the exporter is
  initialized all the same, a constructor that fails ends it with that error, and otherwise the loop
  goes on.
\<close>

theorem startup_messages_end_run:
  assumes "run_start config = Running st" and "list_all (\<lambda>(c, e). positive_intervals c) turns"
    and "list_all uncancelled (map snd turns)"
    and "messages (map snd turns) = fst (start_exporter addr certPath loadCreds recordFailure new newProvider c)"
  shows "if certPath \<noteq> []
    then (case loadCreds certPath of
        Inl err \<Rightarrow> snd (run config turns) = Returned (Some err)
      | Inr creds \<Rightarrow> (case new [With_endpoint addr, With_TLS_credentials (Some creds)] of
          Inl err \<Rightarrow> snd (run config turns) = Returned (Some err)
        | Inr x \<Rightarrow> \<exists>st'. snd (run config turns) = Running st'))
    else (case new [With_endpoint addr, With_insecure] of
        Inl err \<Rightarrow> snd (run config turns) = Returned (Some err)
      | Inr x \<Rightarrow> \<exists>st'. snd (run config turns) = Running st')"
proof -
  have "case find (\<lambda>m. m \<noteq> None) (fst (start_exporter addr certPath loadCreds recordFailure new newProvider c)) of
      Some r \<Rightarrow> snd (run config turns) = Returned r
    | None \<Rightarrow> \<exists>st'. snd (run config turns) = Running st'"
    using run_ends_with [OF assms(1,2)] unfolding run_result_messages [OF assms(3)] assms(4) .
  then show ?thesis
    by (cases "certPath = []"; cases "loadCreds certPath")
      (auto simp: start_exporter_def InitExporter_def initOTLPExporter_def bind_res_def Let_def split: sum.splits)
qed

theorem startup_messages_end_run_witness:
  "snd (run (Some minute_config) [(minute_config, Performance_tick),
     (minute_config, Error_message (Some (Err ''no certificate''))), (minute_config, Error_message None)]) =
   Returned (Some (Err ''no certificate''))"
proof -
  have "positive_intervals minute_config" using minute_valid by (rule valid_positive)
  then show ?thesis
    using startup_messages_end_run [OF minute_start, of "[(minute_config, Performance_tick),
      (minute_config, Error_message (Some (Err ''no certificate''))), (minute_config, Error_message None)]"
      "''otel:55680''" "''/cert''" "\<lambda>_. Inl (Err ''no certificate'') :: unit result" "\<lambda>_. []" "\<lambda>_. Inr ()" "\<lambda>_. ()" fresh_exporter]
    by (simp add: start_exporter_def InitExporter_def initOTLPExporter_def Let_def)
qed

end
