(* ===== verification/Startup.thy ===== *)
theory Startup
  imports Exporter K8s
begin

section \<open>The goroutines that \<open>Run\<close> starts, and its error channel\<close>

text \<open>
  \<open>Run\<close> starts two goroutines, one for the leader election and one for the exporter, that report on the channel
  \<open>errCh\<close>, which holds one message. The main loop receives from it until a message is an error;
  then \<open>Run\<close> has returned and nobody receives any more. Here the two senders, the channel and the receiver
  run concurrently; the turns of the loop are those of \<open>Entrypoint\<close>.
\<close>

text \<open>
  The election goroutine sends what \<open>InitLeaderElection\<close> returns. An error of the set-up is returned at once; otherwise the
  call stays inside \<open>Elector.Run\<close> (here \<open>Campaigning\<close>) for as long as the lease is sought or kept, and returns nil when it is
  lost, which may happen at any time or never.
\<close>

datatype election = Campaigning | To_send "error option list"

definition start_election ::
  "(string \<Rightarrow> string \<Rightarrow> error option \<times> 'e leader_elector) \<Rightarrow> string \<Rightarrow> string \<Rightarrow> election \<times> 'e leader_elector" where
  "start_election initElection envEndpoint envNamespace =
     (let (err, elect) = initElection (election_endpoint envEndpoint) (election_namespace envNamespace)
      in (case err of None \<Rightarrow> Campaigning | Some e \<Rightarrow> To_send [Some e], elect))"

record start_channel =
  sc_election :: election             \<comment> \<open>the election goroutine; \<open>To_send []\<close>: it has ended\<close>
  sc_exporter :: "error option list"  \<comment> \<open>what the exporter goroutine has still to send; \<open>[]\<close>: it has ended\<close>
  sc_errCh :: "error option list"     \<comment> \<open>the buffer of the channel\<close>
  sc_received :: "error option list"

definition errCh_capacity :: nat where
  "errCh_capacity = 1"

definition new_start :: "election \<Rightarrow> error option list \<Rightarrow> start_channel" where
  "new_start el ex = \<lparr>sc_election = el, sc_exporter = ex, sc_errCh = [], sc_received = []\<rparr>"

inductive start_step :: "start_channel \<Rightarrow> start_channel \<Rightarrow> bool" where
  send_election: "sc_election s = To_send (m # ms) \<Longrightarrow> length (sc_errCh s) < errCh_capacity \<Longrightarrow>
    start_step s (s\<lparr>sc_election := To_send ms, sc_errCh := sc_errCh s @ [m]\<rparr>)"
| send_exporter: "sc_exporter s = m # ms \<Longrightarrow> length (sc_errCh s) < errCh_capacity \<Longrightarrow>
    start_step s (s\<lparr>sc_exporter := ms, sc_errCh := sc_errCh s @ [m]\<rparr>)"
| receive: "sc_errCh s = m # ms \<Longrightarrow> list_all (\<lambda>m. m = None) (sc_received s) \<Longrightarrow>
    start_step s (s\<lparr>sc_errCh := ms, sc_received := sc_received s @ [m]\<rparr>)"

text \<open>What happens during the start: a step over the channel, or the lease is lost.\<close>

inductive start_event :: "start_channel \<Rightarrow> start_channel \<Rightarrow> bool" where
  channel: "start_step s t \<Longrightarrow> start_event s t"
| lose_lease: "sc_election s = Campaigning \<Longrightarrow> start_event s (s\<lparr>sc_election := To_send [None]\<rparr>)"

text \<open>What the election goroutine can send from here on.\<close>

fun election_sends :: "election \<Rightarrow> error option list" where
  "election_sends Campaigning = [None]"
| "election_sends (To_send ms) = ms"

subsection \<open>What is received\<close>

text \<open>Nothing is lost or reordered within a sender, and at most one error is received, as the last message.\<close>

lemma snoc_in_shufflesI1: "zs \<in> shuffles xs ys \<Longrightarrow> zs @ [x] \<in> shuffles (xs @ [x]) ys"
proof (induction zs arbitrary: xs ys)
  case (Cons z zs)
  from Cons.prems consider us where "xs = z # us" "zs \<in> shuffles us ys" | vs where "ys = z # vs" "zs \<in> shuffles xs vs"
    by (auto simp: Cons_in_shuffles_iff neq_Nil_conv)
  then show ?case using Cons.IH by cases (auto simp: Cons_in_shuffles_iff)
qed simp

lemma snoc_in_shufflesI2: "zs \<in> shuffles xs ys \<Longrightarrow> zs @ [y] \<in> shuffles xs (ys @ [y])"
  using snoc_in_shufflesI1 [of zs ys xs y] by (simp add: shuffles_commutes)

definition start_inv :: "election \<Rightarrow> error option list \<Rightarrow> start_channel \<Rightarrow> bool" where
  "start_inv el ex s \<longleftrightarrow>
     (\<exists>a b. election_sends el = a @ election_sends (sc_election s) \<and> ex = b @ sc_exporter s \<and> sc_received s @ sc_errCh s \<in> shuffles a b) \<and>
     length (sc_errCh s) \<le> errCh_capacity \<and> list_all (\<lambda>m. m = None) (butlast (sc_received s))"

lemma start_inv_step:
  assumes "start_inv el ex s" and "start_step s t"
  shows "start_inv el ex t"
proof -
  obtain a b where ab: "election_sends el = a @ election_sends (sc_election s)" "ex = b @ sc_exporter s" "sc_received s @ sc_errCh s \<in> shuffles a b"
    using assms(1) by (auto simp: start_inv_def)
  have rest: "length (sc_errCh s) \<le> errCh_capacity" "list_all (\<lambda>m. m = None) (butlast (sc_received s))"
    using assms(1) by (auto simp: start_inv_def)
  from assms(2) show ?thesis
  proof (cases rule: start_step.cases)
    case (send_election m ms)
    have "(sc_received s @ sc_errCh s) @ [m] \<in> shuffles (a @ [m]) b" by (rule snoc_in_shufflesI1 [OF ab(3)])
    with send_election ab rest show ?thesis
      by (auto simp: start_inv_def intro!: exI [of _ "a @ [m]"] exI [of _ b])
  next
    case (send_exporter m ms)
    have "(sc_received s @ sc_errCh s) @ [m] \<in> shuffles a (b @ [m])" by (rule snoc_in_shufflesI2 [OF ab(3)])
    with send_exporter ab rest show ?thesis
      by (auto simp: start_inv_def intro!: exI [of _ a] exI [of _ "b @ [m]"])
  next
    case (receive m ms)
    with ab rest show ?thesis by (auto simp: start_inv_def intro!: exI [of _ a] exI [of _ b])
  qed
qed

lemma start_inv_event: "start_inv el ex s \<Longrightarrow> start_event s t \<Longrightarrow> start_inv el ex t"
  by (erule start_event.cases) (auto simp: start_inv_step, simp add: start_inv_def)

definition start_size :: "start_channel \<Rightarrow> nat" where
  "start_size s = (case sc_election s of Campaigning \<Rightarrow> 3 | To_send ms \<Rightarrow> 2 * length ms) + 2 * length (sc_exporter s) + length (sc_errCh s)"

lemma start_step_size: "start_step s t \<Longrightarrow> start_size t < start_size s"
  by (induction rule: start_step.induct) (auto simp: start_size_def)

lemma start_event_size: "start_event s t \<Longrightarrow> start_size t < start_size s"
  by (erule start_event.cases) (auto simp: start_step_size, simp add: start_size_def)

interpretation startup: terminating_system "\<lambda>s. s = new_start el ex" start_event "start_inv el ex" start_size
  for el ex
proof unfold_locales
  show "s = new_start el ex \<Longrightarrow> start_inv el ex s" for s by (simp add: start_inv_def new_start_def)
qed (auto intro: start_inv_event start_event_size)

text \<open>When no goroutine can move over the channel, either an error was received or everything that was sent.\<close>

lemma start_stuck:
  assumes "start_inv el ex s" and "\<forall>t. \<not> start_step s t" and "list_all (\<lambda>m. m = None) (sc_received s)"
  shows "(sc_election s = Campaigning \<or> sc_election s = To_send []) \<and> sc_exporter s = [] \<and> sc_errCh s = []"
proof -
  have e: "sc_errCh s = []" using assms(2,3) start_step.receive by (meson list.exhaust)
  then have "sc_election s \<noteq> To_send (m # ms)" for m ms
    using assms(2) start_step.send_election [of s m ms] by (auto simp: errCh_capacity_def)
  moreover have "sc_exporter s \<noteq> m # ms" for m ms
    using e assms(2) start_step.send_exporter [of s m ms] by (auto simp: errCh_capacity_def)
  ultimately show ?thesis using e by (metis election.exhaust list.exhaust)
qed

lemma received_messages:
  assumes "start_inv el ex s"
  shows "set (sc_received s) \<subseteq> set (election_sends el) \<union> set ex"
proof -
  obtain a b where ab: "election_sends el = a @ election_sends (sc_election s)" "ex = b @ sc_exporter s"
    "sc_received s @ sc_errCh s \<in> shuffles a b"
    using assms by (auto simp: start_inv_def)
  have "set (sc_received s) \<union> set (sc_errCh s) = set a \<union> set b" using set_shuffles [OF ab(3)] by simp
  then show ?thesis unfolding ab(1,2) by auto
qed

lemma all_received:
  assumes "start_inv el ex s" and "\<forall>t. \<not> start_step s t"
  shows "list_all (\<lambda>m. m = None) (sc_received s) \<longleftrightarrow> list_all (\<lambda>m. m = None) (election_sends el @ ex)"
proof
  assume quiet: "list_all (\<lambda>m. m = None) (sc_received s)"
  note stuck = start_stuck [OF assms quiet]
  obtain a b where ab: "election_sends el = a @ election_sends (sc_election s)" "ex = b @ sc_exporter s"
    "sc_received s @ sc_errCh s \<in> shuffles a b"
    using assms(1) by (auto simp: start_inv_def)
  have "sc_received s \<in> shuffles a ex" using ab stuck by simp
  then have "set (sc_received s) = set a \<union> set ex" by (rule set_shuffles)
  moreover have "list_all (\<lambda>m. m = None) (election_sends (sc_election s))" using stuck by auto
  ultimately show "list_all (\<lambda>m. m = None) (election_sends el @ ex)" using quiet ab(1) by (auto simp: list_all_iff)
next
  assume "list_all (\<lambda>m. m = None) (election_sends el @ ex)"
  then show "list_all (\<lambda>m. m = None) (sc_received s)" using received_messages [OF assms(1)] by (auto simp: list_all_iff)
qed

subsection \<open>How the start ends \<open>Run\<close>\<close>

lemma find_None_iff_quiet: "find (\<lambda>m. m \<noteq> None) ms = None \<longleftrightarrow> list_all (\<lambda>m. m = None) ms"
  by (auto simp: find_None_iff list_all_iff)

lemma find_message: "find (\<lambda>m. m \<noteq> None) ms = Some r \<Longrightarrow> r \<in> set ms \<and> r \<noteq> None"
  by (auto simp: find_Some_iff) (metis nth_mem)

lemma quiet_exporter:
  "list_all (\<lambda>m. m = None) (fst (start_exporter addr certPath loadCreds recordFailure new newProvider c)) \<longleftrightarrow>
    (if certPath = [] then \<exists>x. new [With_endpoint addr, With_insecure] = Inr x
     else \<exists>creds x. loadCreds certPath = Inr creds \<and>
       new [With_endpoint addr, With_TLS_credentials (Some creds)] = Inr x)"
  by (auto simp: start_exporter_def InitExporter_def initOTLPExporter_def bind_res_def Let_def split: sum.splits)

lemma quiet_election:
  "list_all (\<lambda>m. m = None) (election_sends (fst (start_election initElection ep ns))) \<longleftrightarrow>
    fst (initElection (election_endpoint ep) (election_namespace ns)) = None"
  by (auto simp: start_election_def Let_def split: prod.splits option.splits)

text \<open>
  C16. How the start decides about \<open>Run\<close>, for every interleaving of the election goroutine, the exporter
  goroutine and the main loop over the channel of capacity one, the lease being kept or lost at any time. When nobody can send or receive
  any more, and with a loop whose intervals stay positive and whose context is not cancelled: \<open>Run\<close> goes on exactly when the
  certificate (if one is configured) could be loaded, the exporter could be created and the election could be set up; then the channel
  is empty, the exporter goroutine has ended, and the election goroutine has ended or is still inside \<open>Elector.Run\<close>, so that none is
  left blocked on the channel. Otherwise \<open>Run\<close> has returned an error that one of the two sent.
\<close>

theorem start_decides_run:
  assumes el_def: "el = fst (start_election initElection ep ns)"
    and ex_def: "ex = fst (start_exporter addr certPath loadCreds recordFailure new newProvider c)"
    and "start_event\<^sup>*\<^sup>* (new_start el ex) s" and "\<forall>t. \<not> start_step s t"
    and "run_start config = Running st" and "list_all (\<lambda>(c, e). positive_intervals c) turns"
    and "list_all uncancelled (map snd turns)" and "messages (map snd turns) = sc_received s"
  shows "((\<exists>st'. snd (run config turns) = Running st') \<longleftrightarrow>
      fst (initElection (election_endpoint ep) (election_namespace ns)) = None \<and>
      (if certPath = [] then \<exists>x. new [With_endpoint addr, With_insecure] = Inr x
       else \<exists>creds x. loadCreds certPath = Inr creds \<and>
         new [With_endpoint addr, With_TLS_credentials (Some creds)] = Inr x)) \<and>
    (\<forall>st'. snd (run config turns) = Running st' \<longrightarrow>
      (sc_election s = To_send [] \<or> sc_election s = Campaigning) \<and> sc_exporter s = [] \<and> sc_errCh s = []) \<and>
    ((\<exists>st'. snd (run config turns) = Running st') \<or>
     (\<exists>e. snd (run config turns) = Returned (Some e) \<and> Some e \<in> set (election_sends el) \<union> set ex))"
proof -
  have inv: "start_inv el ex s" using assms(3) by (rule startup.reachable_inv [OF refl])
  have result: "case find (\<lambda>m. m \<noteq> None) (sc_received s) of
      Some r \<Rightarrow> snd (run config turns) = Returned r
    | None \<Rightarrow> \<exists>st'. snd (run config turns) = Running st'"
    using run_ends_with [OF assms(5,6)] unfolding run_result_messages [OF assms(7)] assms(8) .
  have quiet: "list_all (\<lambda>m. m = None) (sc_received s) \<longleftrightarrow> (\<exists>st'. snd (run config turns) = Running st')"
    using result by (auto simp flip: find_None_iff_quiet split: option.splits)
  have iff: "list_all (\<lambda>m. m = None) (sc_received s) \<longleftrightarrow>
      list_all (\<lambda>m. m = None) (election_sends el) \<and> list_all (\<lambda>m. m = None) ex"
    using all_received [OF inv assms(4)] by simp
  have err: "\<exists>e. snd (run config turns) = Returned (Some e) \<and> Some e \<in> set (election_sends el) \<union> set ex"
    if "find (\<lambda>m. m \<noteq> None) (sc_received s) = Some r" for r
    using find_message [OF that] result received_messages [OF inv] that by auto
  show ?thesis
  proof (intro conjI allI impI)
    show "(\<exists>st'. snd (run config turns) = Running st') \<longleftrightarrow>
      fst (initElection (election_endpoint ep) (election_namespace ns)) = None \<and>
      (if certPath = [] then \<exists>x. new [With_endpoint addr, With_insecure] = Inr x
       else \<exists>creds x. loadCreds certPath = Inr creds \<and>
         new [With_endpoint addr, With_TLS_credentials (Some creds)] = Inr x)"
      using quiet iff unfolding el_def ex_def quiet_election quiet_exporter by (simp only: simp_thms)
    show "(\<exists>st'. snd (run config turns) = Running st') \<or>
      (\<exists>e. snd (run config turns) = Returned (Some e) \<and> Some e \<in> set (election_sends el) \<union> set ex)"
      using err result by (cases "find (\<lambda>m. m \<noteq> None) (sc_received s)") simp_all
  next
    fix st' assume "snd (run config turns) = Running st'"
    then have "list_all (\<lambda>m. m = None) (sc_received s)" unfolding quiet by blast
    from start_stuck [OF inv assms(4) this]
    show "sc_election s = To_send [] \<or> sc_election s = Campaigning" "sc_exporter s = []" "sc_errCh s = []" by blast+
  qed
qed

text \<open>A process outside a cluster: the election fails after the exporter has been created.\<close>

definition outside_cluster :: "string \<Rightarrow> string \<Rightarrow> error option \<times> unit leader_elector" where
  "outside_cluster = InitLeaderElection (Inl (Err ''no cluster'') :: unit result) (\<lambda>_. Inr ())
     (\<lambda>_ _. (Some (), None)) ''pod'' \<lparr>le_Elector = None\<rparr>"

definition sample_channel :: "election \<Rightarrow> error option list \<Rightarrow> error option list \<Rightarrow> error option list \<Rightarrow> start_channel" where
  "sample_channel el ex buf got = \<lparr>sc_election = el, sc_exporter = ex, sc_errCh = buf, sc_received = got\<rparr>"

lemma sample_start_run:
  "start_event\<^sup>*\<^sup>* (new_start (To_send [Some e]) [None]) (sample_channel (To_send []) [] [] [None, Some e])"
proof -
  let ?c = "\<lambda>el. sample_channel (To_send el)"
  have "start_step (new_start (To_send [Some e]) [None]) (?c [Some e] [] [None] [])"
    using start_step.send_exporter [of "new_start (To_send [Some e]) [None]" None "[]"]
    by (simp add: new_start_def sample_channel_def errCh_capacity_def)
  moreover have "start_step (?c [Some e] [] [None] []) (?c [Some e] [] [] [None])"
    using start_step.receive [of "?c [Some e] [] [None] []" None "[]"] by (simp add: sample_channel_def)
  moreover have "start_step (?c [Some e] [] [] [None]) (?c [] [] [Some e] [None])"
    using start_step.send_election [of "?c [Some e] [] [] [None]" "Some e" "[]"]
    by (simp add: sample_channel_def errCh_capacity_def)
  moreover have "start_step (?c [] [] [Some e] [None]) (?c [] [] [] [None, Some e])"
    using start_step.receive [of "?c [] [] [Some e] [None]" "Some e" "[]"] by (simp add: sample_channel_def)
  ultimately show ?thesis
    by (meson start_event.channel converse_rtranclp_into_rtranclp rtranclp.rtrancl_refl)
qed

text \<open>A process that leads: the exporter goroutine has reported, the election goroutine goes on.\<close>

lemma leading_start_run:
  "start_event\<^sup>*\<^sup>* (new_start Campaigning [None]) (sample_channel Campaigning [] [] [None])"
proof -
  have "start_step (new_start Campaigning [None]) (sample_channel Campaigning [] [None] [])"
    using start_step.send_exporter [of "new_start Campaigning [None]" None "[]"]
    by (simp add: new_start_def sample_channel_def errCh_capacity_def)
  moreover have "start_step (sample_channel Campaigning [] [None] []) (sample_channel Campaigning [] [] [None])"
    using start_step.receive [of "sample_channel Campaigning [] [None] []" None "[]"] by (simp add: sample_channel_def)
  ultimately show ?thesis
    by (meson start_event.channel converse_rtranclp_into_rtranclp rtranclp.rtrancl_refl)
qed

lemma sample_start_stuck: "el = Campaigning \<or> el = To_send [] \<Longrightarrow> \<not> start_step (sample_channel el [] [] got) t"
  by (auto simp: sample_channel_def elim: start_step.cases)

lemma sample_exporter:
  "[None] = fst (start_exporter ''otel:55680'' [] (\<lambda>_. Inr () :: unit result) (\<lambda>_. [])
      (\<lambda>_. Inr () :: unit result) (\<lambda>_. ()) fresh_exporter)"
  by (simp add: start_exporter_def InitExporter_def initOTLPExporter_def Let_def bind_res_def)

theorem start_decides_run_witness:
  "(\<exists>e. snd (run (Some minute_config) [(minute_config, Error_message None),
       (minute_config, Error_message (Some (Err ''no cluster'')))]) = Returned (Some e)) \<and>
   (\<exists>st. snd (run (Some minute_config) [(minute_config, Error_message None)]) = Running st)"
proof -
  let ?e = "Err ''no cluster''"
  let ?turns = "[(minute_config, Error_message None), (minute_config, Error_message (Some ?e))]"
  let ?leads = "\<lambda>_ _. (None, \<lparr>le_Elector = Some ()\<rparr>)"
  have pos: "list_all (\<lambda>(c, e). positive_intervals c) ?turns"
    "list_all (\<lambda>(c, e). positive_intervals c) [(minute_config, Error_message None)]"
    using minute_valid by (simp_all add: valid_positive)
  have el: "To_send [Some ?e] = fst (start_election outside_cluster [] [])"
    "Campaigning = fst (start_election ?leads [] [])"
    by (simp_all add: start_election_def outside_cluster_def InitLeaderElection_def)
  have fails: "fst (outside_cluster (election_endpoint []) (election_namespace [])) \<noteq> None"
    by (simp add: outside_cluster_def InitLeaderElection_def)
  have "\<exists>e. snd (run (Some minute_config) ?turns) = Returned (Some e)"
    using start_decides_run [OF el(1) sample_exporter sample_start_run _ minute_start pos(1)] fails sample_start_stuck
    by (auto simp: sample_channel_def [of _ "[]"])
  moreover have "\<exists>st. snd (run (Some minute_config) [(minute_config, Error_message None)]) = Running st"
    using start_decides_run [OF el(2) sample_exporter leading_start_run _ minute_start pos(2)] sample_start_stuck
    by (auto simp: sample_channel_def [of _ "[]"])
  ultimately show ?thesis by blast
qed

end
