(* ===== verification/Shutdown.thy ===== *)
theory Shutdown
  imports Exporter
begin

section \<open>Stopping the exporter while it starts\<close>

text \<open>
  The goroutine of \<open>Run\<close> that starts the exporter assigns the fields of \<open>OtlCollectorExporter\<close> one by one, and the
  deferred \<open>StopExporter\<close> reads them one by one, with no lock and no wait between the two. Here the theory \<open>Exporter\<close>'s
  operations are taken apart into these assignments and reads.
\<close>

datatype ('x, 'm) start_action =
  Set_recorder "unit \<Rightarrow> obs_call list"
| Set_exporter 'x
| Set_controller 'm
| Send_errCh "error option"

fun apply_start :: "('x, 'm) otl_exporter \<Rightarrow> ('x, 'm) start_action \<Rightarrow> ('x, 'm) otl_exporter" where
  "apply_start c (Set_recorder f) = SetExportFailureRecorder (Some f) c"
| "apply_start c (Set_exporter x) = c\<lparr>oe_exporter := Some x\<rparr>"
| "apply_start c (Set_controller m) = c\<lparr>oe_controller := Some m\<rparr>"
| "apply_start c (Send_errCh e) = c"

fun init_actions :: "('x \<times> 'm) result \<Rightarrow> ('x, 'm) start_action list" where
  "init_actions (Inl err) = [Send_errCh (Some err)]"
| "init_actions (Inr (exporter, controller)) = [Set_exporter exporter, Set_controller controller, Send_errCh None]"

definition start_actions ::
  "string \<Rightarrow> string \<Rightarrow> (string \<Rightarrow> 'creds result) \<Rightarrow> (unit \<Rightarrow> obs_call list) \<Rightarrow>
   ('creds otlp_option list \<Rightarrow> 'x result) \<Rightarrow> ('x \<Rightarrow> 'm) \<Rightarrow> ('x, 'm) start_action list" where
  "start_actions addr certPath loadCreds recordFailure new newProvider =
     (if certPath \<noteq> []
      then (case loadCreds certPath of
              Inl err \<Rightarrow> Send_errCh (Some err) # Set_recorder recordFailure #
                init_actions (initOTLPExporter new newProvider [With_endpoint addr, With_TLS_credentials None])
            | Inr creds \<Rightarrow> Set_recorder recordFailure #
                init_actions (initOTLPExporter new newProvider [With_endpoint addr, With_TLS_credentials (Some creds)]))
      else Set_recorder recordFailure #
        init_actions (initOTLPExporter new newProvider [With_endpoint addr, With_insecure]))"

text \<open>\<open>StopExporter\<close> has not begun, has shut the exporter down, or has returned.\<close>

datatype stop_phase = Not_stopping | Exporter_shut | Stop_returned "error option"

record ('x, 'm) shutdown =
  sd_todo :: "('x, 'm) start_action list"
  sd_object :: "('x, 'm) otl_exporter"
  sd_stop :: stop_phase

definition new_shutdown :: "('x, 'm) start_action list \<Rightarrow> ('x, 'm) otl_exporter \<Rightarrow> ('x, 'm) shutdown" where
  "new_shutdown as c = \<lparr>sd_todo = as, sd_object = c, sd_stop = Not_stopping\<rparr>"

inductive shutdown_step ::
  "('x option \<Rightarrow> unit result) \<Rightarrow> ('m option \<Rightarrow> unit result) \<Rightarrow> ('x, 'm) shutdown \<Rightarrow> ('x, 'm) shutdown \<Rightarrow> bool"
  for shutdownExporter shutdownController where
  start: "sd_todo s = a # as \<Longrightarrow>
    shutdown_step shutdownExporter shutdownController s (s\<lparr>sd_todo := as, sd_object := apply_start (sd_object s) a\<rparr>)"
| exporter_fails: "sd_stop s = Not_stopping \<Longrightarrow> shutdownExporter (oe_exporter (sd_object s)) = Inl err \<Longrightarrow>
    shutdown_step shutdownExporter shutdownController s (s\<lparr>sd_stop := Stop_returned (Some err)\<rparr>)"
| exporter_shut: "sd_stop s = Not_stopping \<Longrightarrow> shutdownExporter (oe_exporter (sd_object s)) = Inr u \<Longrightarrow>
    shutdown_step shutdownExporter shutdownController s (s\<lparr>sd_stop := Exporter_shut\<rparr>)"
| controller: "sd_stop s = Exporter_shut \<Longrightarrow>
    shutdown_step shutdownExporter shutdownController s (s\<lparr>sd_stop := Stop_returned
      (case shutdownController (oe_controller (sd_object s)) of Inl err \<Rightarrow> Some err | Inr _ \<Rightarrow> None)\<rparr>)"

subsection \<open>The assignments and the sequential start\<close>

fun sent_of :: "('x, 'm) start_action list \<Rightarrow> error option list" where
  "sent_of [] = []"
| "sent_of (Send_errCh e # as) = e # sent_of as"
| "sent_of (_ # as) = sent_of as"

text \<open>Run to the end, the assignments are the goroutine as a whole.\<close>

lemma start_actions_exporter:
  "(sent_of (start_actions addr certPath loadCreds recordFailure new newProvider),
    foldl apply_start c (start_actions addr certPath loadCreds recordFailure new newProvider)) =
   start_exporter addr certPath loadCreds recordFailure new newProvider c"
  by (auto simp: start_actions_def start_exporter_def InitExporter_def Let_def split: sum.splits)

text \<open>Half-way, each field that \<open>StopExporter\<close> reads has its first or its last value.\<close>

definition old_or_new :: "('x, 'm) start_action list \<Rightarrow> ('x, 'm) otl_exporter \<Rightarrow> ('x, 'm) otl_exporter \<Rightarrow> bool" where
  "old_or_new as c d \<longleftrightarrow>
     oe_exporter d \<in> {oe_exporter c, oe_exporter (foldl apply_start c as)} \<and>
     oe_controller d \<in> {oe_controller c, oe_controller (foldl apply_start c as)}"

lemma init_actions_prefix:
  assumes "init_actions r = us @ vs"
  shows "old_or_new (us @ vs) c (foldl apply_start c us)"
proof -
  have "us = take (length us) (init_actions r)" using assms by simp
  moreover have "old_or_new (init_actions r) c (foldl apply_start c (take n (init_actions r)))" for n
    by (cases r rule: init_actions.cases) (auto simp: old_or_new_def take_Cons split: nat.split)
  ultimately show ?thesis using assms by metis
qed

lemma start_actions_cases:
  obtains r where "start_actions addr certPath loadCreds recordFailure new newProvider = Set_recorder recordFailure # init_actions r"
  | e r where "start_actions addr certPath loadCreds recordFailure new newProvider =
      Send_errCh e # Set_recorder recordFailure # init_actions r"
  unfolding start_actions_def by (cases "certPath = []"; cases "loadCreds certPath") auto

lemma SetExportFailureRecorder_fields [simp]:
  "oe_exporter (SetExportFailureRecorder f c) = oe_exporter c"
  "oe_controller (SetExportFailureRecorder f c) = oe_controller c"
  by (simp_all add: SetExportFailureRecorder_def)

lemma old_or_new_Cons:
  "old_or_new as (apply_start c a) d \<Longrightarrow> oe_exporter (apply_start c a) = oe_exporter c \<Longrightarrow>
   oe_controller (apply_start c a) = oe_controller c \<Longrightarrow> old_or_new (a # as) c d"
  by (simp add: old_or_new_def)

lemma old_or_new_refl: "old_or_new as c c"
  by (simp add: old_or_new_def)

lemma start_actions_prefix:
  assumes "start_actions addr certPath loadCreds recordFailure new newProvider = us @ vs"
  shows "old_or_new (us @ vs) c (foldl apply_start c us)"
proof (cases rule: start_actions_cases [of addr certPath loadCreds recordFailure new newProvider])
  case (1 r)
  with assms show ?thesis
    by (cases us) (auto intro!: old_or_new_Cons old_or_new_refl dest: init_actions_prefix)
next
  case (2 e r)
  with assms show ?thesis
    by (cases us; cases "tl us") (auto intro!: old_or_new_Cons old_or_new_refl dest: init_actions_prefix)
qed

subsection \<open>What \<open>StopExporter\<close> can return\<close>

text \<open>What is left of \<open>StopExporter\<close> on an object whose fields were read as \<open>x\<close> and \<open>m\<close>.\<close>

abbreviation stop_read where
  "stop_read shutdownExporter shutdownController c x m \<equiv>
     StopExporter shutdownExporter shutdownController (c\<lparr>oe_exporter := x, oe_controller := m\<rparr>)"

fun stop_inv ::
  "('x option \<Rightarrow> unit result) \<Rightarrow> ('m option \<Rightarrow> unit result) \<Rightarrow> 'x option set \<Rightarrow> 'm option set \<Rightarrow>
   ('x, 'm) otl_exporter \<Rightarrow> stop_phase \<Rightarrow> bool" where
  "stop_inv sE sC X M c Not_stopping \<longleftrightarrow> True"
| "stop_inv sE sC X M c Exporter_shut \<longleftrightarrow> (\<exists>x\<in>X. sE x = Inr ())"
| "stop_inv sE sC X M c (Stop_returned r) \<longleftrightarrow> (\<exists>x\<in>X. \<exists>m\<in>M. r = stop_read sE sC c x m)"

definition shutdown_inv where
  "shutdown_inv as c sE sC s \<longleftrightarrow>
     (\<exists>us. as = us @ sd_todo s \<and> sd_object s = foldl apply_start c us) \<and>
     stop_inv sE sC {oe_exporter c, oe_exporter (foldl apply_start c as)}
       {oe_controller c, oe_controller (foldl apply_start c as)} c (sd_stop s)"

lemma shutdown_inv_step:
  assumes split: "\<And>us vs. as = us @ vs \<Longrightarrow> old_or_new as c (foldl apply_start c us)"
    and "shutdown_inv as c sE sC s" and "shutdown_step sE sC s t"
  shows "shutdown_inv as c sE sC t"
proof -
  let ?X = "{oe_exporter c, oe_exporter (foldl apply_start c as)}"
  let ?M = "{oe_controller c, oe_controller (foldl apply_start c as)}"
  obtain us where us: "as = us @ sd_todo s" "sd_object s = foldl apply_start c us"
    and stop: "stop_inv sE sC ?X ?M c (sd_stop s)"
    using assms(2) by (auto simp: shutdown_inv_def)
  have x: "oe_exporter (sd_object s) \<in> ?X" and m: "oe_controller (sd_object s) \<in> ?M"
    using split [OF us(1)] by (auto simp: us(2) old_or_new_def)
  from assms(3) show ?thesis
  proof (cases rule: shutdown_step.cases)
    case (start a as')
    have "as = (us @ [a]) @ as'" "foldl apply_start c (us @ [a]) = apply_start (sd_object s) a"
      using us start(2) by simp_all
    with stop show ?thesis unfolding start(1) shutdown_inv_def
      by (intro conjI exI [of _ "us @ [a]"]) (simp_all del: foldl_append)
  next
    case (exporter_fails err)
    then have "Some err = stop_read sE sC c (oe_exporter (sd_object s)) (oe_controller c)" by (simp add: StopExporter_def)
    with x have "stop_inv sE sC ?X ?M c (Stop_returned (Some err))" by auto
    with us show ?thesis unfolding exporter_fails(1) by (auto simp: shutdown_inv_def)
  next
    case (exporter_shut u)
    then have "stop_inv sE sC ?X ?M c Exporter_shut" using x by auto
    with us show ?thesis unfolding exporter_shut(1) by (auto simp: shutdown_inv_def)
  next
    case controller
    obtain x where "x \<in> ?X" "sE x = Inr ()" using stop controller(2) by auto
    then have "stop_inv sE sC ?X ?M c (Stop_returned
        (case sC (oe_controller (sd_object s)) of Inl err \<Rightarrow> Some err | Inr _ \<Rightarrow> None))"
      using m by (auto simp: StopExporter_def intro!: bexI [of _ x])
    with us show ?thesis unfolding controller(1) by (auto simp: shutdown_inv_def simp del: stop_inv.simps)
  qed
qed

interpretation shutdowns: invariant_system
  "\<lambda>s. s = new_shutdown (start_actions addr certPath loadCreds recordFailure new newProvider) c"
  "shutdown_step sE sC"
  "shutdown_inv (start_actions addr certPath loadCreds recordFailure new newProvider) c sE sC"
  for addr certPath loadCreds recordFailure new newProvider c sE sC
proof unfold_locales
  show "s = new_shutdown (start_actions addr certPath loadCreds recordFailure new newProvider) c \<Longrightarrow>
      shutdown_inv (start_actions addr certPath loadCreds recordFailure new newProvider) c sE sC s" for s
    by (simp add: shutdown_inv_def new_shutdown_def)
  show "shutdown_inv (start_actions addr certPath loadCreds recordFailure new newProvider) c sE sC t"
    if "shutdown_inv (start_actions addr certPath loadCreds recordFailure new newProvider) c sE sC s" "shutdown_step sE sC s t" for s t
    using shutdown_inv_step [OF _ that] start_actions_prefix by metis
qed

lemma goroutine_runs:
  "sd_todo s = us @ vs \<Longrightarrow>
   (shutdown_step sE sC)\<^sup>*\<^sup>* s (s\<lparr>sd_todo := vs, sd_object := foldl apply_start (sd_object s) us\<rparr>)"
proof (induction us arbitrary: s)
  case Nil
  then have "s\<lparr>sd_todo := vs, sd_object := sd_object s\<rparr> = s" by (intro shutdown.equality) simp_all
  then show ?case by simp
next
  case (Cons a us)
  then have "shutdown_step sE sC s (s\<lparr>sd_todo := us @ vs, sd_object := apply_start (sd_object s) a\<rparr>)"
    by (intro shutdown_step.start) simp
  then show ?case
    using Cons.IH [of "s\<lparr>sd_todo := us @ vs, sd_object := apply_start (sd_object s) a\<rparr>"]
    by (simp add: converse_rtranclp_into_rtranclp)
qed

text \<open>Every pair of an old or new exporter and an old or new controller is read at some two moments.\<close>

lemma init_exporter_first:
  "\<exists>us ws. init_actions r = us @ ws \<and>
     oe_exporter (foldl apply_start c us) = oe_exporter (foldl apply_start c (init_actions r)) \<and>
     oe_controller (foldl apply_start c us) = oe_controller c"
proof (cases r rule: init_actions.cases)
  case (1 err)
  then show ?thesis by (intro exI [of _ "[]"] exI [of _ "init_actions r"]) simp
next
  case (2 exporter controller)
  then show ?thesis
    by (intro exI [of _ "[Set_exporter exporter]"] exI [of _ "[Set_controller controller, Send_errCh None]"]) simp
qed

lemma exporter_first:
  "\<exists>us ws. start_actions addr certPath loadCreds recordFailure new newProvider = us @ ws \<and>
     oe_exporter (foldl apply_start c us) =
       oe_exporter (foldl apply_start c (start_actions addr certPath loadCreds recordFailure new newProvider)) \<and>
     oe_controller (foldl apply_start c us) = oe_controller c"
proof -
  let ?c = "SetExportFailureRecorder (Some recordFailure) c"
  obtain r pre where acts: "start_actions addr certPath loadCreds recordFailure new newProvider = pre @ init_actions r"
    and pre: "foldl apply_start c pre = ?c"
    using start_actions_cases [of addr certPath loadCreds recordFailure new newProvider]
    by (metis append_Cons append_Nil apply_start.simps(1,4) foldl.simps)
  obtain us ws where "init_actions r = us @ ws"
    "oe_exporter (foldl apply_start ?c us) = oe_exporter (foldl apply_start ?c (init_actions r))"
    "oe_controller (foldl apply_start ?c us) = oe_controller ?c"
    using init_exporter_first by blast
  then show ?thesis unfolding acts by (intro exI [of _ "pre @ us"] exI [of _ ws]) (simp add: pre)
qed

lemma fields_read:
  assumes acts_def: "acts = start_actions addr certPath loadCreds recordFailure new newProvider"
    and "x \<in> {oe_exporter c, oe_exporter (foldl apply_start c acts)}"
    and "m \<in> {oe_controller c, oe_controller (foldl apply_start c acts)}"
  shows "\<exists>us vs ws. acts = us @ vs @ ws \<and> oe_exporter (foldl apply_start c us) = x \<and>
    oe_controller (foldl apply_start c (us @ vs)) = m"
proof -
  have early: ?thesis if "x = oe_exporter c" "m \<in> {oe_controller c, oe_controller (foldl apply_start c acts)}"
  proof (cases "m = oe_controller c")
    case True
    with that show ?thesis by (intro exI [of _ "[]"] exI [of _ acts]) simp
  next
    case False
    with that show ?thesis by (intro exI [of _ "[]"] exI [of _ acts] exI [of _ "[]"]) simp
  qed
  have late: ?thesis if "x = oe_exporter (foldl apply_start c acts)" "m = oe_controller (foldl apply_start c acts)"
    using that by (intro exI [of _ acts] exI [of _ "[]"]) simp
  have between: ?thesis if "x = oe_exporter (foldl apply_start c acts)" "m = oe_controller c"
  proof -
    obtain us ws where "acts = us @ ws" "oe_exporter (foldl apply_start c us) = oe_exporter (foldl apply_start c acts)"
      "oe_controller (foldl apply_start c us) = oe_controller c"
      using exporter_first [of addr certPath loadCreds recordFailure new newProvider c] unfolding acts_def by blast
    with that show ?thesis by (intro exI [of _ us] exI [of _ "[]"] exI [of _ ws]) simp
  qed
  show ?thesis using assms(2,3) early late between by blast
qed

text \<open>
  C38. What the deferred \<open>StopExporter\<close> returns when \<open>Run\<close> is left while the goroutine that starts the exporter may still be
  running: exactly the answers of \<open>StopExporter\<close> on an object whose exporter and whose meter provider are, each independently,
  the one from before the start (nil in the program) or the one that the start leaves.
\<close>

theorem stop_races_start:
  "(\<exists>s. (shutdown_step shutdownExporter shutdownController)\<^sup>*\<^sup>*
        (new_shutdown (start_actions addr certPath loadCreds recordFailure new newProvider) c) s \<and>
      sd_stop s = Stop_returned r) \<longleftrightarrow>
   (\<exists>c'. c' = snd (start_exporter addr certPath loadCreds recordFailure new newProvider c) \<and>
      (\<exists>x m. (x = oe_exporter c \<or> x = oe_exporter c') \<and> (m = oe_controller c \<or> m = oe_controller c') \<and>
        r = StopExporter shutdownExporter shutdownController (c\<lparr>oe_exporter := x, oe_controller := m\<rparr>)))"
  (is "?race \<longleftrightarrow> ?reads")
proof -
  let ?step = "shutdown_step shutdownExporter shutdownController"
  let ?acts = "start_actions addr certPath loadCreds recordFailure new newProvider"
  let ?new = "foldl apply_start c ?acts"
  have new: "snd (start_exporter addr certPath loadCreds recordFailure new newProvider c) = ?new"
    by (simp flip: start_actions_exporter)
  have "?reads" if "?step\<^sup>*\<^sup>* (new_shutdown ?acts c) s" "sd_stop s = Stop_returned r" for s
  proof -
    have "stop_inv shutdownExporter shutdownController {oe_exporter c, oe_exporter ?new}
        {oe_controller c, oe_controller ?new} c (Stop_returned r)"
      using shutdowns.reachable_inv [OF refl that(1)] that(2) by (simp add: shutdown_inv_def)
    then show ?thesis unfolding new stop_inv.simps by blast
  qed
  moreover have ?race if xm: "x \<in> {oe_exporter c, oe_exporter ?new}" "m \<in> {oe_controller c, oe_controller ?new}"
    and r: "r = stop_read shutdownExporter shutdownController c x m" for x m
  proof -
    obtain us vs ws where acts: "?acts = us @ vs @ ws" and x: "oe_exporter (foldl apply_start c us) = x"
      and m: "oe_controller (foldl apply_start c (us @ vs)) = m" using fields_read [OF refl xm] by blast
    let ?s = "\<lparr>sd_todo = vs @ ws, sd_object = foldl apply_start c us, sd_stop = Not_stopping\<rparr>"
    have s: "?step\<^sup>*\<^sup>* (new_shutdown ?acts c) ?s"
      using goroutine_runs [of "new_shutdown ?acts c" us "vs @ ws"] by (simp add: new_shutdown_def acts)
    show ?thesis
    proof (cases "shutdownExporter x")
      case (Inl err)
      then have "?step ?s (?s\<lparr>sd_stop := Stop_returned (Some err)\<rparr>)"
        using shutdown_step.exporter_fails [of ?s shutdownExporter err shutdownController] x by simp
      with s Inl r show ?thesis by (auto simp: StopExporter_def dest: rtranclp.rtrancl_into_rtrancl)
    next
      case (Inr u)
      let ?t = "\<lparr>sd_todo = ws, sd_object = foldl apply_start c (us @ vs), sd_stop = Exporter_shut\<rparr>"
      have "?step ?s (?s\<lparr>sd_stop := Exporter_shut\<rparr>)"
        using shutdown_step.exporter_shut [of ?s shutdownExporter u shutdownController] x Inr by simp
      moreover have "?step\<^sup>*\<^sup>* (?s\<lparr>sd_stop := Exporter_shut\<rparr>) ?t"
        using goroutine_runs [of "?s\<lparr>sd_stop := Exporter_shut\<rparr>" vs ws] by simp
      moreover have "?step ?t (?t\<lparr>sd_stop := Stop_returned r\<rparr>)"
        using shutdown_step.controller [of ?t shutdownExporter shutdownController] m r Inr by (simp add: StopExporter_def)
      ultimately have "?step\<^sup>*\<^sup>* (new_shutdown ?acts c) (?t\<lparr>sd_stop := Stop_returned r\<rparr>)"
        using s by (meson rtranclp.rtrancl_into_rtrancl rtranclp_trans)
      then show ?thesis by (intro exI [of _ "?t\<lparr>sd_stop := Stop_returned r\<rparr>"]) simp
    qed
  qed
  ultimately show ?thesis unfolding new by blast
qed

end
