(* ===== verification/Timers.thy ===== *)
theory Timers
  imports Entrypoint
begin

section \<open>The tickers of the main loop\<close>

text \<open>
  The theory \<open>Entrypoint\<close> takes the events of the loop as they come. Here they come from tickers: a \<open>time.Ticker\<close>
  fires once per period and drops a tick when the previous one has not been received; \<open>Reset\<close> and a new
  ticker start a full period from now, and leave no old tick behind. Time passes while a turn
  collects; the actions of the turn reset and replace the tickers when it ends. The clock counts nanoseconds.
\<close>

definition LeaderCheckInterval :: int64 where
  "LeaderCheckInterval = 5 * second"

datatype ticker_name = Kind_ticker kind | Liveness_ticker | Leader_ticker

record ticker =
  tk_period :: int
  tk_next :: int       \<comment> \<open>when it fires next\<close>
  tk_pending :: bool   \<comment> \<open>a tick that has not been received\<close>

definition new_ticker :: "int \<Rightarrow> int64 \<Rightarrow> ticker" where
  "new_ticker now d = \<lparr>tk_period = sint d, tk_next = now + sint d, tk_pending = False\<rparr>"

text \<open>The channel that an event is received from; messages and cancellations have no ticker.\<close>

fun source :: "event \<Rightarrow> ticker_name option" where
  "source (Leader_check _ _ _ _ _ _) = Some Leader_ticker"
| "source (Capacity_tick _) = Some (Kind_ticker Capacity_kind)"
| "source Performance_tick = Some (Kind_ticker Performance_kind)"
| "source (Topology_tick _) = Some (Kind_ticker Topology_kind)"
| "source Liveness_tick = Some Liveness_ticker"
| "source _ = None"

fun apply_action :: "int \<Rightarrow> (ticker_name \<Rightarrow> ticker) \<Rightarrow> action \<Rightarrow> (ticker_name \<Rightarrow> ticker)" where
  "apply_action now tks (Reset_ticker k d) = tks(Kind_ticker k := new_ticker now d)"
| "apply_action now tks (New_ticker k d) = tks(Kind_ticker k := new_ticker now d)"
| "apply_action now tks Reset_leader_check = tks(Leader_ticker := new_ticker now LeaderCheckInterval)"
| "apply_action now tks _ = tks"

record timed =
  tm_now :: int
  tm_ticker :: "ticker_name \<Rightarrow> ticker"
  tm_loop :: loop_state
  tm_busy :: "event option"      \<comment> \<open>the event whose turn is under way\<close>
  tm_events :: "event list"      \<comment> \<open>the events of the finished turns\<close>
  tm_actions :: "action list"    \<comment> \<open>what those turns did\<close>

text \<open>\<open>cfgs\<close> are the configurations that a turn may read.\<close>

inductive timed_step :: "config set \<Rightarrow> timed \<Rightarrow> timed \<Rightarrow> bool" for cfgs where
  pass: "0 \<le> t \<Longrightarrow> (\<forall>n. tm_now s + t \<le> tk_next (tm_ticker s n)) \<Longrightarrow>
    timed_step cfgs s (s\<lparr>tm_now := tm_now s + t\<rparr>)"
| fire: "tm_ticker s n = tk \<Longrightarrow> tk_next tk \<le> tm_now s \<Longrightarrow>
    timed_step cfgs s (s\<lparr>tm_ticker := (tm_ticker s)(n := tk\<lparr>tk_next := tk_next tk + tk_period tk, tk_pending := True\<rparr>)\<rparr>)"
| tick: "tm_busy s = None \<Longrightarrow> source e = Some n \<Longrightarrow> tk_pending (tm_ticker s n) \<Longrightarrow>
    timed_step cfgs s (s\<lparr>tm_busy := Some e,
      tm_ticker := (tm_ticker s)(n := (tm_ticker s n)\<lparr>tk_pending := False\<rparr>)\<rparr>)"
| message: "tm_busy s = None \<Longrightarrow> source e = None \<Longrightarrow> timed_step cfgs s (s\<lparr>tm_busy := Some e\<rparr>)"
| finish: "tm_busy s = Some e \<Longrightarrow> c \<in> cfgs \<Longrightarrow> run_turn c e (tm_loop s) = (acts, Running st) \<Longrightarrow>
    timed_step cfgs s (s\<lparr>tm_busy := None, tm_loop := st, tm_events := tm_events s @ [e],
      tm_actions := tm_actions s @ acts, tm_ticker := foldl (apply_action (tm_now s)) (tm_ticker s) acts\<rparr>)"

inductive_cases timed_stepE: "timed_step cfgs s t"

text \<open>The tickers that \<open>Run\<close> creates before the loop.\<close>

fun loop_interval :: "kind \<Rightarrow> loop_state \<Rightarrow> int64" where
  "loop_interval Capacity_kind st = ls_capacity st"
| "loop_interval Performance_kind st = ls_performance st"
| "loop_interval Topology_kind st = ls_topology st"

fun config_interval :: "kind \<Rightarrow> config \<Rightarrow> int64" where
  "config_interval Capacity_kind c = cfg_CapacityTickInterval c"
| "config_interval Performance_kind c = cfg_PerformanceTickInterval c"
| "config_interval Topology_kind c = cfg_TopologyMetricsTickInterval c"

definition timed_start :: "config \<Rightarrow> int \<Rightarrow> loop_state \<Rightarrow> timed" where
  "timed_start c now st =
     \<lparr>tm_now = now,
      tm_ticker = (\<lambda>n. case n of
          Kind_ticker k \<Rightarrow> new_ticker now (loop_interval k st)
        | Liveness_ticker \<Rightarrow> new_ticker now
            (if cfg_LivenessProbeTickInterval c = 0 then LivenessProbeInterval else cfg_LivenessProbeTickInterval c)
        | Leader_ticker \<Rightarrow> new_ticker now LeaderCheckInterval),
      tm_loop = st, tm_busy = None, tm_events = [], tm_actions = []\<rparr>"

subsection \<open>What a turn does to the ticker of a kind\<close>

text \<open>With an unchanged interval it is reset at most to a full period, and never replaced.\<close>

lemma tick_update_interval:
  "tick_update c st = Inr (acts, st') \<Longrightarrow> loop_interval k st' = config_interval k c"
  by (cases k) (auto simp: tick_update_def GetTickIntervals_def res_iff)

lemma tick_update_same:
  "tick_update c st = Inr (acts, st') \<Longrightarrow> config_interval k c = loop_interval k st \<Longrightarrow>
     Reset_ticker k d \<notin> set acts \<and> New_ticker k d \<notin> set acts"
  by (cases k) (auto simp: tick_update_def GetTickIntervals_def res_iff update_ticker_def NewTicker_def split: if_splits)

lemma reset_tickers_Proceed:
  "reset_tickers kds = (acts, Proceed) \<Longrightarrow> acts = map (\<lambda>(k, d). Reset_ticker k d) kds"
  by (induction kds arbitrary: acts rule: reset_tickers.induct) (auto simp: Let_def split: if_splits prod.splits)

text \<open>The actions that keep the loop's intervals in the tickers.\<close>

fun keeps_interval :: "loop_state \<Rightarrow> action \<Rightarrow> bool" where
  "keeps_interval st (Reset_ticker k d) \<longleftrightarrow> d = loop_interval k st"
| "keeps_interval st (New_ticker k d) \<longleftrightarrow> False"
| "keeps_interval st _ \<longleftrightarrow> True"

lemma keeps_collect [simp]: "list_all (keeps_interval st) (collect_kind leads enabled k)"
  by (simp add: collect_kind_def)

lemma keeps_resets:
  "list_all (\<lambda>(k, d). d = loop_interval k st) kds \<Longrightarrow> list_all (keeps_interval st) (fst (reset_tickers kds))"
  by (induction kds rule: reset_tickers.induct) (auto simp: Let_def case_prod_beta)

lemma select_turn_keeps: "list_all (keeps_interval st) (fst (select_turn c e st))"
  by (cases "(c, e, st)" rule: select_turn.cases)
    (simp_all add: leader_turn_def collect_defs keeps_resets case_prod_beta Let_def del: reset_tickers.simps)

lemma select_turn_tickers:
  assumes "select_turn c e st = (acts, f, st')"
  shows "loop_interval k st' = loop_interval k st \<and>
     (Reset_ticker k d \<in> set acts \<longrightarrow> d = loop_interval k st) \<and> New_ticker k d \<notin> set acts"
proof -
  have "keeps_interval st a" if "a \<in> set acts" for a
    using select_turn_keeps [of st c e] that by (simp add: assms list_all_iff)
  from this [of "Reset_ticker k d"] this [of "New_ticker k d"] show ?thesis
    using select_turn_intervals [OF assms] by (cases k) auto
qed

lemma run_turn_tickers:
  assumes "run_turn c e st = (acts, Running st')" and "config_interval k c = loop_interval k st"
  shows "loop_interval k st' = loop_interval k st \<and> New_ticker k d \<notin> set acts \<and>
    (Reset_ticker k d \<in> set acts \<longrightarrow> d = loop_interval k st)"
  using assms(1) unfolding run_turn_Running
proof (elim disjE exE conjE)
  assume "select_turn c e st = (acts, Continue, st')"
  from select_turn_tickers [OF this] show ?thesis by blast
next
  fix acts0 st0 acts1
  assume s: "select_turn c e st = (acts0, Proceed, st0)" and t: "tick_update c st0 = Inr (acts1, st')"
    and acts: "acts = acts0 @ acts1"
  have "loop_interval k st0 = loop_interval k st" using select_turn_tickers [OF s] by blast
  then show ?thesis
    using select_turn_tickers [OF s, of k d] tick_update_same [OF t, of k d] tick_update_interval [OF t, of k] assms(2)
    by (auto simp: acts)
qed

lemma apply_actions_ticker:
  assumes "\<And>d'. New_ticker k d' \<notin> set acts" and "\<And>d'. Reset_ticker k d' \<in> set acts \<Longrightarrow> d' = d"
  shows "foldl (apply_action now) tks acts (Kind_ticker k) \<in> {tks (Kind_ticker k), new_ticker now d}"
  using assms
proof (induction acts arbitrary: tks)
  case (Cons a acts)
  have new: "New_ticker k d' \<noteq> a" and reset: "a = Reset_ticker k d' \<Longrightarrow> d' = d" for d'
    using Cons.prems by (metis list.set_intros(1))+
  have "foldl (apply_action now) (apply_action now tks a) acts (Kind_ticker k) \<in>
      {apply_action now tks a (Kind_ticker k), new_ticker now d}"
    using Cons.prems by (intro Cons.IH) (meson list.set_intros(2))+
  moreover have "apply_action now tks a (Kind_ticker k) \<in> {tks (Kind_ticker k), new_ticker now d}"
    using new [symmetric] reset by (cases a) auto
  ultimately show ?case by auto
qed simp

subsection \<open>At most one tick per period\<close>

text \<open>The ticks of a kind that the loop has received.\<close>

definition ticks_of :: "kind \<Rightarrow> event list \<Rightarrow> nat" where
  "ticks_of k es = length (filter (\<lambda>e. source e = Some (Kind_ticker k)) es)"

definition received :: "timed \<Rightarrow> event list" where
  "received s = tm_events s @ (case tm_busy s of None \<Rightarrow> [] | Some e \<Rightarrow> [e])"

text \<open>\<open>d\<close> is the interval, \<open>t0\<close> the moment of a fresh ticker and \<open>n0\<close> the number of ticks received by then.\<close>

definition rate_inv :: "kind \<Rightarrow> int64 \<Rightarrow> int \<Rightarrow> nat \<Rightarrow> timed \<Rightarrow> bool" where
  "rate_inv k d t0 n0 s \<longleftrightarrow>
     (let tk = tm_ticker s (Kind_ticker k)
      in loop_interval k (tm_loop s) = d \<and> tk_period tk = sint d \<and>
         tm_now s \<le> tk_next tk \<and> tk_next tk \<le> tm_now s + sint d \<and>
         (int (ticks_of k (received s)) - int n0 + (if tk_pending tk then 1 else 0)) * sint d \<le> tk_next tk - sint d - t0)"

lemma ticks_of_append [simp]: "ticks_of k (xs @ ys) = ticks_of k xs + ticks_of k ys"
  by (simp add: ticks_of_def)

lemma ticks_of_single: "ticks_of k [e] = (if source e = Some (Kind_ticker k) then 1 else 0)"
  by (simp add: ticks_of_def)

lemma rate_inv_step:
  assumes "rate_inv k d t0 n0 s" and "timed_step cfgs s t" and "0 < sint d" and "\<forall>c\<in>cfgs. config_interval k c = d"
  shows "rate_inv k d t0 n0 t"
  using assms(2)
proof (cases rule: timed_step.cases)
  case (pass u)
  then show ?thesis using assms(1) by (auto simp: rate_inv_def received_def Let_def)
next
  case (fire n tk)
  then show ?thesis using assms(1,3)
    by (cases "tk_pending (tm_ticker s (Kind_ticker k))") (auto simp: rate_inv_def received_def Let_def algebra_simps)
next
  case (tick e n)
  then show ?thesis using assms(1)
    by (auto simp: rate_inv_def received_def Let_def ticks_of_single algebra_simps split: if_splits)
next
  case (message e)
  then show ?thesis using assms(1) by (auto simp: rate_inv_def received_def Let_def ticks_of_single)
next
  case (finish e c acts st)
  have loop: "loop_interval k (tm_loop s) = d" using assms(1) by (simp add: rate_inv_def Let_def)
  have c: "config_interval k c = loop_interval k (tm_loop s)" using assms(4) finish(3) loop by simp
  note turn = run_turn_tickers [OF finish(4) c]
  have "foldl (apply_action (tm_now s)) (tm_ticker s) acts (Kind_ticker k) \<in>
      {tm_ticker s (Kind_ticker k), new_ticker (tm_now s) d}"
    using turn loop by (intro apply_actions_ticker) auto
  then show ?thesis
    using assms(1,3) finish(1,2) turn loop
    by (cases "tk_pending (tm_ticker s (Kind_ticker k))") (auto simp: rate_inv_def received_def Let_def new_ticker_def algebra_simps)
qed

lemma rate_inv_run:
  "(timed_step cfgs)\<^sup>*\<^sup>* s t \<Longrightarrow> rate_inv k d t0 n0 s \<Longrightarrow> 0 < sint d \<Longrightarrow> \<forall>c\<in>cfgs. config_interval k c = d \<Longrightarrow>
     rate_inv k d t0 n0 t"
  by (induction rule: rtranclp_induct) (auto intro: rate_inv_step)

lemma fresh_rate_inv:
  assumes "tm_ticker s (Kind_ticker k) = new_ticker (tm_now s) d" and "loop_interval k (tm_loop s) = d" and "0 \<le> sint d"
  shows "rate_inv k d (tm_now s) (ticks_of k (received s)) s"
  using assms by (simp add: rate_inv_def new_ticker_def)

lemma rate_bound:
  assumes "(timed_step cfgs)\<^sup>*\<^sup>* s t" and "tm_ticker s (Kind_ticker k) = new_ticker (tm_now s) d"
    and "loop_interval k (tm_loop s) = d" and "0 < sint d" and "\<forall>c\<in>cfgs. config_interval k c = d"
  shows "(int (ticks_of k (received t)) - int (ticks_of k (received s))) * sint d \<le> tm_now t - tm_now s"
proof -
  have "rate_inv k d (tm_now s) (ticks_of k (received s)) t"
    using assms(4) by (intro rate_inv_run [OF assms(1) fresh_rate_inv [OF assms(2,3)] assms(4,5)]) simp
  then have "(int (ticks_of k (received t)) - int (ticks_of k (received s)) +
        (if tk_pending (tm_ticker t (Kind_ticker k)) then 1 else 0)) * sint d \<le> tm_now t - tm_now s"
    by (auto simp: rate_inv_def Let_def)
  with assms(4) show ?thesis by (auto simp: algebra_simps split: if_splits)
qed

subsection \<open>How often a kind is exported\<close>

lemma count_kind_turn:
  assumes "flags_agree st"
  shows "count_list (exported_kinds (fst (run_turn c e st))) k \<le> ticks_of k [e] +
    (if \<not> ls_wasLeader st \<and> leader_answer (ls_wasLeader st) e then 1 else 0)"
  unfolding turn_exports_eq [OF assms] using assms
  by (cases e; cases k) (auto simp: due_kinds_def flags_agree_def ticks_of_single)

lemma acquisitions_snoc:
  "acquisitions was (es @ [e]) = acquisitions was es +
     (if \<not> foldl leader_answer was es \<and> leader_answer (foldl leader_answer was es) e then 1 else 0)"
  by (induction es arbitrary: was) simp_all

definition export_inv :: "kind \<Rightarrow> timed \<Rightarrow> bool" where
  "export_inv k s \<longleftrightarrow> flags_agree (tm_loop s) \<and> ls_wasLeader (tm_loop s) = foldl leader_answer False (tm_events s) \<and>
     count_list (exported_kinds (tm_actions s)) k \<le> ticks_of k (tm_events s) + acquisitions False (tm_events s)"

lemma export_inv_step:
  assumes "export_inv k s" and "timed_step cfgs s t"
  shows "export_inv k t"
  using assms(2)
proof (cases rule: timed_step.cases)
  case (finish e c acts st)
  have flags: "flags_agree (tm_loop s)" using assms(1) by (simp add: export_inv_def)
  have "fst (run_turn c e (tm_loop s)) = acts" using finish(4) by simp
  then show ?thesis
    using assms(1) finish(1) run_turn_flags [OF flags finish(4)] count_kind_turn [OF flags, of c e k]
    by (auto simp: export_inv_def acquisitions_snoc)
qed (use assms(1) in \<open>simp_all add: export_inv_def\<close>)

interpretation timed_exports: invariant_system
  "\<lambda>s. \<exists>c now st. run_start (Some c) = Running st \<and> s = timed_start c now st" "timed_step cfgs" "export_inv k"
  for cfgs k
proof unfold_locales
  show "\<exists>c now st. run_start (Some c) = Running st \<and> s = timed_start c now st \<Longrightarrow> export_inv k s" for s
    by (auto simp: export_inv_def timed_start_def ticks_of_def flags_agree_def dest!: run_start_Running)
qed (rule export_inv_step)

lemma start_interval: "run_start (Some c) = Running st \<Longrightarrow> loop_interval k st = config_interval k c"
  by (cases k) (auto dest!: run_start_Running)

lemma start_positive: "run_start (Some c) = Running st \<Longrightarrow> 0 < sint (config_interval k c)"
  by (cases k) (auto simp: valid_config_def valid_interval_def dest!: run_start_Running)

lemma div_bound:
  fixes a b d :: int
  assumes "a * d \<le> b" and "0 < d"
  shows "a \<le> b div d"
  using assms zdiv_mono1 [of "a * d" b d] by simp

text \<open>Five-second intervals; the lease is acquired at the first leader check.\<close>

definition five_config :: config where
  "five_config = minute_config\<lparr>cfg_CapacityTickInterval := MinimumTickInterval,
     cfg_PerformanceTickInterval := MinimumTickInterval, cfg_TopologyMetricsTickInterval := MinimumTickInterval\<rparr>"

definition five_state :: "bool \<Rightarrow> loop_state" where
  "five_state leads = \<lparr>ls_capacity = MinimumTickInterval, ls_performance = MinimumTickInterval,
     ls_topology = MinimumTickInterval, ls_collectedOnLeaderAcquired = leads, ls_wasLeader = leads\<rparr>"

abbreviation acquired :: event where
  "acquired \<equiv> Leader_check True True False True False True"

lemma five_start: "run_start (Some five_config) = Running (five_state False)"
  by (simp add: run_start_def ValidateConfig_def out_of_range_def five_config_def minute_config_def five_state_def
      GetTickIntervals_def interval_values)

definition five_actions :: "action list" where
  "five_actions = [Export Capacity_kind, Export Performance_kind, Export Topology_kind,
     Reset_ticker Capacity_kind MinimumTickInterval, Reset_ticker Performance_kind MinimumTickInterval,
     Reset_ticker Topology_kind MinimumTickInterval]"

lemma five_turn: "run_turn five_config acquired (five_state False) = (five_actions, Running (five_state True))"
  by (simp add: run_turn_def leader_turn_def collect_defs collect_kind_def five_config_def minute_config_def five_state_def
      five_actions_def tick_update_def GetTickIntervals_def update_ticker_def bind_res_def interval_values Let_def)

text \<open>The states of a run: the first leader check is due, is received, and its turn ends.\<close>

definition five_time :: timed where
  "five_time = (timed_start five_config 0 (five_state False))\<lparr>tm_now := 5000000000\<rparr>"

definition five_fired :: timed where
  "five_fired = five_time\<lparr>tm_ticker := (tm_ticker five_time)(Leader_ticker :=
     \<lparr>tk_period = 5000000000, tk_next = 10000000000, tk_pending = True\<rparr>)\<rparr>"

definition five_busy :: timed where
  "five_busy = five_fired\<lparr>tm_busy := Some acquired, tm_ticker := (tm_ticker five_fired)(Leader_ticker :=
     \<lparr>tk_period = 5000000000, tk_next = 10000000000, tk_pending = False\<rparr>)\<rparr>"

definition five_done :: timed where
  "five_done = five_busy\<lparr>tm_busy := None, tm_loop := five_state True, tm_events := [acquired], tm_actions := five_actions,
     tm_ticker := foldl (apply_action 5000000000) (tm_ticker five_busy) five_actions\<rparr>"

lemma leader_interval: "sint LeaderCheckInterval = 5000000000"
  using interval_values(1) by (simp add: LeaderCheckInterval_def MinimumTickInterval_def)

lemmas five_defs = five_time_def five_fired_def five_busy_def five_done_def timed_start_def new_ticker_def
  leader_interval interval_values

lemma five_run: "(timed_step {five_config})\<^sup>*\<^sup>* (timed_start five_config 0 (five_state False)) five_busy"
proof -
  let ?s0 = "timed_start five_config 0 (five_state False)"
  have "\<forall>n. tm_now ?s0 + 5000000000 \<le> tk_next (tm_ticker ?s0 n)"
  proof
    fix n
    show "tm_now ?s0 + 5000000000 \<le> tk_next (tm_ticker ?s0 n)"
    proof (cases n)
      case (Kind_ticker k)
      then show ?thesis by (cases k) (simp_all add: five_defs five_state_def)
    qed (simp_all add: five_defs five_config_def minute_config_def)
  qed
  then have "timed_step {five_config} ?s0 five_time"
    using timed_step.pass [of 5000000000 ?s0 "{five_config}"] by (simp add: five_time_def timed_start_def)
  moreover have "timed_step {five_config} five_time five_fired"
  proof -
    have "tm_ticker five_time Leader_ticker = \<lparr>tk_period = 5000000000, tk_next = 5000000000, tk_pending = False\<rparr>"
      and "tm_now five_time = 5000000000" by (simp_all add: five_defs)
    from timed_step.fire [OF this(1), of "{five_config}"] this(2) show ?thesis by (simp add: five_fired_def)
  qed
  moreover have "timed_step {five_config} five_fired five_busy"
  proof -
    have "tm_ticker five_fired Leader_ticker = \<lparr>tk_period = 5000000000, tk_next = 10000000000, tk_pending = True\<rparr>"
      and "tm_busy five_fired = None" by (simp_all add: five_defs)
    then show ?thesis
      using timed_step.tick [of five_fired acquired Leader_ticker "{five_config}"] by (simp add: five_busy_def)
  qed
  ultimately show ?thesis by (meson converse_rtranclp_into_rtranclp rtranclp.rtrancl_refl)
qed

lemma five_finish: "timed_step {five_config} five_busy five_done"
proof -
  have "tm_busy five_busy = Some acquired" "tm_loop five_busy = five_state False" "tm_now five_busy = 5000000000"
    "tm_events five_busy = []" "tm_actions five_busy = []" by (simp_all add: five_defs)
  then show ?thesis
    using timed_step.finish [of five_busy acquired five_config "{five_config}"] five_turn by (simp add: five_done_def)
qed

text \<open>
  C18. How often the arrays are asked: as long as the interval of a kind does not change, the exports of the kind in any run,
  whatever the clock, the length of the collections and the other events, are at most one per full interval since
  the start and one per acquisition of the lease. Ticks that come due during a collection do not add up.
\<close>

theorem exports_rate_bounded:
  assumes "run_start (Some c) = Running st" and "(timed_step cfgs)\<^sup>*\<^sup>* (timed_start c t0 st) s"
    and "\<forall>c'\<in>cfgs. config_interval k c' = config_interval k c"
  shows "int (count_list (exported_kinds (tm_actions s)) k) \<le>
    (tm_now s - t0) div sint (config_interval k c) + int (acquisitions False (tm_events s))"
proof -
  let ?s0 = "timed_start c t0 st" and ?d = "config_interval k c"
  have fresh: "tm_ticker ?s0 (Kind_ticker k) = new_ticker (tm_now ?s0) ?d" "loop_interval k (tm_loop ?s0) = ?d"
    using start_interval [OF assms(1)] by (simp_all add: timed_start_def)
  have pos: "0 < sint ?d" using assms(1) by (rule start_positive)
  have zero: "ticks_of k (received ?s0) = 0" "tm_now ?s0 = t0"
    by (simp_all add: received_def timed_start_def ticks_of_def)
  have "int (ticks_of k (received s)) * sint ?d \<le> tm_now s - t0"
    using rate_bound [OF assms(2) fresh pos assms(3)] by (simp add: zero)
  then have "int (ticks_of k (received s)) \<le> (tm_now s - t0) div sint ?d" using pos by (rule div_bound)
  moreover have "ticks_of k (tm_events s) \<le> ticks_of k (received s)" by (simp add: received_def)
  moreover have "export_inv k s" using assms(1,2) by (blast intro: timed_exports.reachable_inv)
  ultimately show ?thesis by (simp add: export_inv_def)
qed

theorem exports_rate_bounded_witness:
  "int (count_list (exported_kinds (tm_actions five_done)) Capacity_kind) \<le>
     tm_now five_done div 5000000000 + int (acquisitions False (tm_events five_done)) \<and>
   count_list (exported_kinds (tm_actions five_done)) Capacity_kind = 1"
proof -
  have run: "(timed_step {five_config})\<^sup>*\<^sup>* (timed_start five_config 0 (five_state False)) five_done"
    using five_run five_finish by (rule rtranclp.rtrancl_into_rtrancl)
  have "config_interval Capacity_kind five_config = MinimumTickInterval" by (simp add: five_config_def)
  then show ?thesis
    using exports_rate_bounded [OF five_start run, of Capacity_kind]
    by (simp add: interval_values) (simp add: five_done_def five_actions_def)
qed

subsection \<open>After the lease is acquired\<close>

lemma acquiring_resets:
  assumes "run_turn c e st = (acts, Running st')" and "\<not> ls_wasLeader st" and "ls_wasLeader st'"
  shows "Reset_ticker k (loop_interval k st) \<in> set acts"
  using assms(1) unfolding run_turn_Running
proof (elim disjE exE conjE)
  assume "select_turn c e st = (acts, Continue, st')"
  with assms(2,3) show ?thesis
    by (cases "(c, e, st)" rule: select_turn.cases) (auto simp: leader_turn_def Let_def split: if_splits)
next
  fix acts0 st0 acts1
  assume s: "select_turn c e st = (acts0, Proceed, st0)" and t: "tick_update c st0 = Inr (acts1, st')"
    and acts: "acts = acts0 @ acts1"
  have "ls_wasLeader st0" using tick_update_flags [OF t] assms(3) by simp
  then have "Reset_ticker k (loop_interval k st) \<in> set acts0" using s assms(2)
    by (cases "(c, e, st)" rule: select_turn.cases; cases k)
      (auto simp: leader_turn_def Let_def simp del: reset_tickers.simps dest!: reset_tickers_Proceed split: if_splits prod.splits)
  then show ?thesis by (simp add: acts)
qed

lemma apply_actions_reset:
  assumes "Reset_ticker k d \<in> set acts" and "\<And>d'. New_ticker k d' \<notin> set acts"
    and "\<And>d'. Reset_ticker k d' \<in> set acts \<Longrightarrow> d' = d"
  shows "foldl (apply_action now) tks acts (Kind_ticker k) = new_ticker now d"
proof -
  obtain us vs where acts: "acts = us @ Reset_ticker k d # vs" using assms(1) by (meson split_list)
  have "foldl (apply_action now) (apply_action now (foldl (apply_action now) tks us) (Reset_ticker k d)) vs (Kind_ticker k) \<in>
      {apply_action now (foldl (apply_action now) tks us) (Reset_ticker k d) (Kind_ticker k), new_ticker now d}"
  proof (rule apply_actions_ticker)
    show "New_ticker k d' \<notin> set vs" for d' using assms(2) [of d'] by (simp add: acts)
    show "Reset_ticker k d' \<in> set vs \<Longrightarrow> d' = d" for d' using assms(3) [of d'] by (simp add: acts)
  qed
  then show ?thesis by (simp add: acts)
qed

text \<open>
  C19. After the collection on the acquisition of the lease every kind whose interval is not changed waits for a full interval: no tick of the kind, however
  many came due while the collections ran, is received before its interval has passed since the end of that turn.
\<close>

theorem full_interval_after_acquisition:
  assumes "timed_step cfgs s s1" and "tm_busy s \<noteq> None" and "tm_busy s1 = None"
    and "\<not> ls_wasLeader (tm_loop s)" and "ls_wasLeader (tm_loop s1)"
    and "(timed_step cfgs)\<^sup>*\<^sup>* s1 s2" and "ticks_of k (received s1) < ticks_of k (received s2)"
    and "0 < sint (loop_interval k (tm_loop s))" and "\<forall>c\<in>cfgs. config_interval k c = loop_interval k (tm_loop s)"
  shows "sint (loop_interval k (tm_loop s)) \<le> tm_now s2 - tm_now s1"
proof -
  let ?d = "loop_interval k (tm_loop s)"
  obtain e c acts st where f: "c \<in> cfgs" "run_turn c e (tm_loop s) = (acts, Running st)" "tm_now s1 = tm_now s"
      "tm_loop s1 = st" "tm_ticker s1 = foldl (apply_action (tm_now s)) (tm_ticker s) acts"
    using assms(1-3) by (cases rule: timed_step.cases) auto
  have c: "config_interval k c = ?d" using assms(9) f(1) by blast
  note turn = run_turn_tickers [OF f(2) c]
  have reset: "Reset_ticker k ?d \<in> set acts"
    using f(4) assms(5) by (intro acquiring_resets [OF f(2) assms(4)]) simp
  have "tm_ticker s1 (Kind_ticker k) = new_ticker (tm_now s1) ?d"
    unfolding f(3,5) by (rule apply_actions_reset [OF reset]) (use turn in blast)+
  then have "(int (ticks_of k (received s2)) - int (ticks_of k (received s1))) * sint ?d \<le> tm_now s2 - tm_now s1"
    using turn f(4) by (intro rate_bound [OF assms(6) _ _ assms(8,9)]) auto
  moreover have "1 * sint ?d \<le> (int (ticks_of k (received s2)) - int (ticks_of k (received s1))) * sint ?d"
    using assms(7,8) by (intro mult_right_mono) auto
  ultimately show ?thesis by simp
qed

lemma five_tickers:
  "tm_ticker five_done n = (case n of
     Kind_ticker k \<Rightarrow> \<lparr>tk_period = 5000000000, tk_next = 10000000000, tk_pending = False\<rparr>
   | Liveness_ticker \<Rightarrow> \<lparr>tk_period = 30000000000, tk_next = 30000000000, tk_pending = False\<rparr>
   | Leader_ticker \<Rightarrow> \<lparr>tk_period = 5000000000, tk_next = 10000000000, tk_pending = False\<rparr>)"
proof (cases n)
  case (Kind_ticker k)
  then show ?thesis by (cases k) (simp_all add: five_done_def five_actions_def new_ticker_def interval_values)
qed (simp_all add: five_defs five_actions_def five_config_def minute_config_def)

theorem full_interval_after_acquisition_witness:
  "\<exists>s2. (timed_step {five_config})\<^sup>*\<^sup>* five_done s2 \<and> ticks_of Capacity_kind (received s2) = 1 \<and>
     5000000000 \<le> tm_now s2 - tm_now five_done"
proof -
  let ?k = "Kind_ticker Capacity_kind"
  let ?p = "five_done\<lparr>tm_now := 10000000000\<rparr>"
  let ?f = "?p\<lparr>tm_ticker := (tm_ticker ?p)(?k := \<lparr>tk_period = 5000000000, tk_next = 15000000000, tk_pending = True\<rparr>)\<rparr>"
  let ?r = "?f\<lparr>tm_busy := Some (Capacity_tick True),
    tm_ticker := (tm_ticker ?f)(?k := (tm_ticker ?f ?k)\<lparr>tk_pending := False\<rparr>)\<rparr>"
  have fin: "tm_now five_done = 5000000000" "tm_busy five_done = None" "received five_done = [acquired]"
    by (simp_all add: five_defs received_def)
  have "\<forall>n. tm_now five_done + 5000000000 \<le> tk_next (tm_ticker five_done n)"
    by (auto simp: five_tickers fin split: ticker_name.split)
  then have s1: "timed_step {five_config} five_done ?p"
    using timed_step.pass [of 5000000000 five_done "{five_config}"] by (simp add: fin)
  have "tm_ticker ?p ?k = \<lparr>tk_period = 5000000000, tk_next = 10000000000, tk_pending = False\<rparr>"
    by (simp add: five_tickers)
  from timed_step.fire [OF this, of "{five_config}"] have s2: "timed_step {five_config} ?p ?f" by simp
  have s3: "timed_step {five_config} ?f ?r" by (rule timed_step.tick) (simp_all add: fin)
  have run: "(timed_step {five_config})\<^sup>*\<^sup>* five_done ?r"
    using s1 s2 s3 by (meson converse_rtranclp_into_rtranclp rtranclp.rtrancl_refl)
  have ticks: "ticks_of Capacity_kind (received five_done) = 0" "ticks_of Capacity_kind (received ?r) = 1"
    using fin by (auto simp: ticks_of_def received_def)
  have busy: "tm_busy five_busy \<noteq> None" "\<not> ls_wasLeader (tm_loop five_busy)" "ls_wasLeader (tm_loop five_done)"
    "loop_interval Capacity_kind (tm_loop five_busy) = MinimumTickInterval"
    by (simp_all add: five_defs five_state_def)
  have "sint MinimumTickInterval \<le> tm_now ?r - tm_now five_done"
    using full_interval_after_acquisition [OF five_finish busy(1) fin(2) busy(2,3) run, of Capacity_kind] ticks busy(4)
    by (simp add: interval_values five_config_def)
  with run ticks(2) show ?thesis by (intro exI [of _ ?r]) (simp add: interval_values)
qed

end
