(* ===== verification/Program.thy ===== *)
theory Program
  imports Main_Config Exporter
begin

section \<open>The program as a whole (\<open>cmd/metrics-powermax/main.go\<close>)\<close>

text \<open>
  \<open>configure\<close> builds the objects, starts the secret informer and applies the settings; afterwards a
  change of the configuration file applies them again and a change of a secret connects the arrays
  again, at any time. \<open>main\<close> starts the self-metrics server if it is enabled and runs the loop. The
  state is the record \<open>world\<close> of the theory \<open>Main_Config\<close>.
\<close>

subsection \<open>\<open>configure\<close>\<close>

text \<open>
  The closure \<open>updateLoggingSettings\<close>: the format and the level it sets; \<open>strings.ToLower\<close> on ASCII.
\<close>

definition updateLoggingSettings :: "(string \<Rightarrow> string) \<Rightarrow> (string \<Rightarrow> 'l result) \<Rightarrow> 'l \<Rightarrow> string \<times> 'l" where
  "updateLoggingSettings get ParseLevel InfoLevel =
     ((if map to_lower (get ''LOG_FORMAT'') = ''text'' then ''text'' else ''json''),
      (case ParseLevel (get ''LOG_LEVEL'') of Inl err \<Rightarrow> InfoLevel | Inr level \<Rightarrow> level))"

text \<open>The objects as they are created: zero values but for the recorder, the finder and the path.\<close>

definition new_world ::
  "(string \<Rightarrow> string) \<Rightarrow> metrics_recorder \<Rightarrow> (unit \<Rightarrow> volume_info list result) \<Rightarrow> world" where
  "new_world getenv recorder finder =
     \<lparr>w_config = \<lparr>cfg_CapacityTickInterval = 0, cfg_PerformanceTickInterval = 0,
        cfg_TopologyMetricsTickInterval = 0, cfg_LivenessProbeTickInterval = 0,
        cfg_CapacityMetricsEnabled = False, cfg_PerformanceMetricsEnabled = False,
        cfg_TopologyMetricsEnabled = False, cfg_CollectorAddress = [],
        cfg_CollectorCertPath = collector_cert_path (getenv ''TLS_ENABLED'') (getenv ''COLLECTOR_CERT_PATH'')\<rparr>,
      w_exporter_addr = [],
      w_service = \<lparr>ps_MetricsRecorder = Some recorder, ps_ObsInstrumenter = None,
        ps_MaxPowerMaxConnections = 0, ps_PowerMaxClients = None, ps_VolumeFinder = finder\<rparr>,
      w_volume_finder = \<lparr>vf_DriverNames = []\<rparr>,
      w_class_finder = \<lparr>scf_StorageArrayID = []\<rparr>\<rparr>"

text \<open>
  \<open>arrays\<close> is what \<open>GetPowerMaxArrays\<close> answers when the settings are applied; a failure to
  initialize the secret informer is fatal.
\<close>

definition configure ::
  "(string \<Rightarrow> string) \<Rightarrow> (string \<Rightarrow> string) \<Rightarrow> (string \<Rightarrow> 'u option \<times> error option) \<Rightarrow> 'u option \<Rightarrow>
   client_map result \<Rightarrow> metrics_recorder \<Rightarrow> (unit \<Rightarrow> volume_info list result) \<Rightarrow> world result" where
  "configure getenv get init k8sUtils arrays recorder finder =
     (case fst (InitK8sUtils init (getenv ''POWERMAX_METRICS_NAMESPACE'') k8sUtils) of
        (utils, Some err) \<Rightarrow> Inl err
      | (utils, None) \<Rightarrow> Inr (onChangeUpdate get arrays (new_world getenv recorder finder)))"

subsection \<open>Changes while the program runs\<close>

definition UpdatePowerMaxArraysOnSecretChanged :: "client_map result \<Rightarrow> world \<Rightarrow> world" where
  "UpdatePowerMaxArraysOnSecretChanged arrays w = w\<lparr>w_service := updatePowerMaxArrays arrays (w_service w)\<rparr>"

datatype change =
    Config_file "string \<Rightarrow> string" "client_map result"
  | Secret "client_map result"

fun apply_change :: "change \<Rightarrow> world \<Rightarrow> world" where
  "apply_change (Config_file get arrays) w = onChangeUpdate get arrays w"
| "apply_change (Secret arrays) w = UpdatePowerMaxArraysOnSecretChanged arrays w"

subsection \<open>\<open>main\<close>\<close>

text \<open>
  A schedule interleaves changes with turns of the loop; a turn reads the configuration as the last
  change before it left it.
\<close>

datatype moment = Change change | Turn event

fun turns_of :: "world \<Rightarrow> moment list \<Rightarrow> (config \<times> event) list" where
  "turns_of w [] = []"
| "turns_of w (Change ch # sched) = turns_of (apply_change ch w) sched"
| "turns_of w (Turn e # sched) = (w_config w, e) # turns_of w sched"

definition run_schedule :: "world \<Rightarrow> moment list \<Rightarrow> action list \<times> turn_end" where
  "run_schedule w sched = run (Some (w_config w)) (turns_of w sched)"

text \<open>
  \<open>main\<close>: \<open>opt\<close> are the settings that are present. The result is a fatal error of the start, or the
  server that was started and what \<open>Run\<close> does.
\<close>

definition main_program ::
  "(string \<Rightarrow> string) \<Rightarrow> (string \<Rightarrow> string option) \<Rightarrow> (string \<Rightarrow> 'u option \<times> error option) \<Rightarrow> 'u option \<Rightarrow>
   client_map result \<Rightarrow> metrics_recorder \<Rightarrow> (unit \<Rightarrow> volume_info list result) \<Rightarrow>
   (string \<Rightarrow> unit result) \<Rightarrow> (string \<Rightarrow> unit result) \<Rightarrow> moment list \<Rightarrow>
   (server_config option \<times> action list \<times> turn_end) result" where
  "main_program getenv opt init k8sUtils arrays recorder finder open_file close_file sched =
     (let get = (\<lambda>k. or_default (opt k) [])
      in bind_res (configure getenv get init k8sUtils arrays recorder finder) (\<lambda>w.
           if EqualFold (get ''X_CSI_METRICS_ENABLED'') ''true''
           then (case startMetricsServer opt open_file close_file (w_service w) of
                   (Inl err, s) \<Rightarrow> Inl err
                 | (Inr srv, s) \<Rightarrow> Inr (Some srv, run_schedule (w\<lparr>w_service := s\<rparr>) sched))
           else Inr (None, run_schedule w sched)))"

subsection \<open>What stays true\<close>

text \<open>A result of \<open>GetPowerMaxArrays\<close>, for some configuration, some arrays and some iteration order.\<close>

definition connection :: "client_map result \<Rightarrow> bool" where
  "connection arrays \<longleftrightarrow> (\<exists>useUtils useSecret fromSecret fromFile newClient order.
     (\<forall>m. iteration_of m (order m)) \<and>
     arrays = GetPowerMaxArrays useUtils useSecret fromSecret fromFile newClient order)"

definition healthy_clients :: "client_map \<Rightarrow> bool" where
  "healthy_clients cm \<longleftrightarrow> distinct (map fst cm) \<and> list_all (\<lambda>(a, l). l \<noteq> [] \<and> list_all live_entry l) cm"

definition world_ready :: "world \<Rightarrow> bool" where
  "world_ready w \<longleftrightarrow> ps_MetricsRecorder (w_service w) \<noteq> None \<and>
     0 < ps_MaxPowerMaxConnections (w_service w) \<and>
     (case ps_PowerMaxClients (w_service w) of None \<Rightarrow> True | Some cm \<Rightarrow> healthy_clients cm)"

text \<open>A change, with an honest connection result, or the start of the self-metrics server.\<close>

inductive world_step :: "world \<Rightarrow> world \<Rightarrow> bool" where
  config_file: "connection arrays \<Longrightarrow> world_step w (apply_change (Config_file get arrays) w)"
| secret: "connection arrays \<Longrightarrow> world_step w (apply_change (Secret arrays) w)"
| metrics_server: "world_step w (w\<lparr>w_service := (w_service w)\<lparr>ps_ObsInstrumenter := Some (Some ())\<rparr>\<rparr>)"

definition configured_world :: "world \<Rightarrow> bool" where
  "configured_world w \<longleftrightarrow> (\<exists>getenv get (init :: string \<Rightarrow> unit option \<times> error option) k8sUtils arrays recorder finder.
     connection arrays \<and> configure getenv get init k8sUtils arrays recorder finder = Inr w)"

lemma configured_worldI:
  fixes init :: "string \<Rightarrow> unit option \<times> error option"
  assumes "connection arrays" and "configure getenv get init k8sUtils arrays recorder finder = Inr w"
  shows "configured_world w"
  unfolding configured_world_def by (intro exI conjI) (rule assms)+

lemma connection_healthy:
  assumes "connection (Inr cm)"
  shows "distinct (map fst cm)" and "healthy_clients (copy_clients [] cm)"
proof -
  obtain useUtils useSecret fromSecret fromFile newClient order
    where ord: "\<And>m. iteration_of m (order m)"
      and eq: "Inr cm = GetPowerMaxArrays useUtils useSecret fromSecret fromFile newClient order"
    using assms unfolding connection_def by (elim exE conjE) blast
  have conn: "GetPowerMaxArrays True useSecret fromSecret fromFile newClient order = Inr cm"
    using eq [symmetric] by (cases useUtils) (simp_all add: GetPowerMaxArrays_def)
  show d: "distinct (map fst cm)" using connected_lookup [OF conn ord] by blast
  have "list_all (\<lambda>(a, l). l \<noteq> [] \<and> list_all live_entry l) cm"
    using connected_live [OF conn ord] by (auto simp: list_all_iff)
  then have "list_all (\<lambda>(a, l). l \<noteq> [] \<and> list_all live_entry l) (copy_clients [] cm)"
    unfolding list_all_iff copy_clients_same [OF d] .
  then show "healthy_clients (copy_clients [] cm)"
    by (simp add: healthy_clients_def copy_clients_distinct)
qed

lemma updated_service:
  "ps_MetricsRecorder (updatePowerMaxArrays arrays s) = ps_MetricsRecorder s"
  "ps_MaxPowerMaxConnections (updatePowerMaxArrays arrays s) = ps_MaxPowerMaxConnections s"
  "ps_PowerMaxClients (updatePowerMaxArrays arrays s) =
     (case arrays of Inl err \<Rightarrow> ps_PowerMaxClients s | Inr cm \<Rightarrow> Some (copy_clients [] cm))"
  by (simp_all add: updatePowerMaxArrays_def SetPowerMaxClients_def maps_Clone_def split: sum.splits)

lemma onChangeUpdate_service:
  "w_service (onChangeUpdate get arrays w) = updateMaxConnections get (updatePowerMaxArrays arrays (w_service w))"
  by (simp add: onChangeUpdate_def updatePowerMaxConnection_def Let_def)

lemma updateMaxConnections_keeps:
  "ps_MetricsRecorder (updateMaxConnections get s) = ps_MetricsRecorder s"
  "ps_PowerMaxClients (updateMaxConnections get s) = ps_PowerMaxClients s"
  by (simp_all add: updateMaxConnections_def Let_def)

lemmas world_update = onChangeUpdate_service updateMaxConnections_keeps updated_service
  UpdatePowerMaxArraysOnSecretChanged_def

lemma configure_Inr:
  "configure getenv get init k8sUtils arrays recorder finder = Inr w \<Longrightarrow>
     w = onChangeUpdate get arrays (new_world getenv recorder finder)"
  by (simp add: configure_def split: prod.splits option.splits)

lemma onChangeUpdate_ready:
  assumes "connection arrays" and "ps_MetricsRecorder (w_service w) \<noteq> None"
    and "case ps_PowerMaxClients (w_service w) of None \<Rightarrow> True | Some cm \<Rightarrow> healthy_clients cm"
  shows "world_ready (onChangeUpdate get arrays w)"
  using assms
  by (cases arrays) (simp_all add: world_ready_def world_update updateMaxConnections_pos connection_healthy)

lemma configured_world_ready: "configured_world w \<Longrightarrow> world_ready w"
  unfolding configured_world_def
  by (elim exE conjE, drule configure_Inr) (simp add: onChangeUpdate_ready new_world_def)

lemma world_step_ready: "world_ready w \<Longrightarrow> world_step w w' \<Longrightarrow> world_ready w'"
  by (auto simp: world_ready_def world_update updateMaxConnections_pos connection_healthy
      elim!: world_step.cases split: sum.splits option.splits)

interpretation program_system: invariant_system configured_world world_step world_ready
  by unfold_locales (auto intro: configured_world_ready world_step_ready)

lemma live_entry_client: "live_entry x \<Longrightarrow> pa_Client x \<noteq> None"
  by (auto simp: live_entry_def split: option.splits)

lemma world_ready_base:
  assumes "world_ready w"
  shows "base_ok (NewBaseMetrics (service_view_of (w_service w)))"
proof (cases "ps_PowerMaxClients (w_service w)")
  case (Some cm)
  then have "list_all (\<lambda>(a, l). list_all live_entry l) cm"
    using assms by (auto simp: world_ready_def healthy_clients_def list_all_iff)
  then have "clients_ok cm"
    using live_entry_client by (fastforce simp: clients_ok_def list_all_iff)
  with Some show ?thesis
    by (simp add: base_ok_def NewBaseMetrics_def service_view_of_def GetPowerMaxClients_def maps_Clone_def)
qed (simp add: base_ok_def NewBaseMetrics_def service_view_of_def GetPowerMaxClients_def maps_Clone_def)

text \<open>
  The service is always ready: after \<open>configure\<close>, and after any sequence of later changes of the
  configuration file and of the secrets, it has its recorder and a positive connection limit, and if it
  has clients at all, no array is listed twice or without an entry and every entry is active with a
  client that accepted its credentials.
\<close>

theorem service_always_ready:
  assumes "connection arrays"
    and "configure getenv get (init :: string \<Rightarrow> unit option \<times> error option) k8sUtils arrays recorder finder = Inr w0"
    and "world_step\<^sup>*\<^sup>* w0 w"
  shows "ps_MetricsRecorder (w_service w) \<noteq> None \<and> 0 < ps_MaxPowerMaxConnections (w_service w) \<and>
    (case ps_PowerMaxClients (w_service w) of
       None \<Rightarrow> True
     | Some cm \<Rightarrow> distinct (map fst cm) \<and> list_all (\<lambda>(a, l). l \<noteq> [] \<and> list_all live_entry l) cm)"
proof -
  have "configured_world w0" using assms(1,2) by (rule configured_worldI)
  then have "world_ready w" using assms(3) by (rule program_system.reachable_inv)
  then show ?thesis by (simp add: world_ready_def healthy_clients_def split: option.splits)
qed

lemma sample_connection: "connection (Inr [(''0257'', [sample_array])])"
  unfolding connection_def
  by (intro exI conjI) (rule allI, rule iteration_of_refl, rule sample_connects [symmetric])

definition sample_world :: world where
  "sample_world = onChangeUpdate (\<lambda>_. []) (Inr [(''0257'', [sample_array])])
     (new_world (\<lambda>_. []) sample_recorder (\<lambda>_. Inr [sample_volume]))"

lemma sample_configure:
  "configure (\<lambda>_. []) (\<lambda>_. []) (\<lambda>_. (Some (), None)) None (Inr [(''0257'', [sample_array])]) sample_recorder
     (\<lambda>_. Inr [sample_volume]) = Inr sample_world"
  by (simp add: configure_def InitK8sUtils_def sample_world_def)

theorem service_always_ready_witness:
  "ps_MaxPowerMaxConnections (w_service (apply_change (Secret (Inr [(''0257'', [sample_array])])) sample_world)) > 0"
proof -
  have "world_step sample_world (apply_change (Secret (Inr [(''0257'', [sample_array])])) sample_world)"
    by (rule world_step.secret) (rule sample_connection)
  then have "world_step\<^sup>*\<^sup>* sample_world (apply_change (Secret (Inr [(''0257'', [sample_array])])) sample_world)"
    by (rule r_into_rtranclp)
  from service_always_ready [OF sample_connection sample_configure this] show ?thesis by simp
qed

subsection \<open>Reloads and panics\<close>

text \<open>A frequency setting that cannot give a non-positive interval: malformed, or in range.\<close>

definition safe_setting :: "string \<Rightarrow> bool" where
  "safe_setting v \<longleftrightarrow> (case Atoi v of Inl err \<Rightarrow> True | Inr n \<Rightarrow> 0 < n \<and> n \<le> 9223372036)"

fun safe_moment :: "moment \<Rightarrow> bool" where
  "safe_moment (Change (Config_file get arrays)) = list_all (\<lambda>k. safe_setting (get k))
     [''POWERMAX_CAPACITY_POLL_FREQUENCY'', ''POWERMAX_PERFORMANCE_POLL_FREQUENCY'',
      ''POWERMAX_TOPOLOGY_METRICS_POLL_FREQUENCY'']"
| "safe_moment _ = True"

lemma safe_setting_positive:
  assumes "safe_setting v"
  shows "0 < sint (tick_interval v)"
proof (cases "Atoi v")
  case (Inl err)
  have "sint (300 * second) = 300 * 10 ^ 9" using seconds_to_int64 [of 300] by simp
  then show ?thesis
    using Inl default_valid by (simp add: tick_interval_def valid_interval_def)
next
  case (Inr n)
  then show ?thesis using assms tick_interval_parsed [OF Inr] by (simp add: safe_setting_def)
qed

lemma onChangeUpdate_intervals:
  "cfg_CapacityTickInterval (w_config (onChangeUpdate get arrays w)) =
     tick_interval (get ''POWERMAX_CAPACITY_POLL_FREQUENCY'')"
  "cfg_PerformanceTickInterval (w_config (onChangeUpdate get arrays w)) =
     tick_interval (get ''POWERMAX_PERFORMANCE_POLL_FREQUENCY'')"
  "cfg_TopologyMetricsTickInterval (w_config (onChangeUpdate get arrays w)) =
     tick_interval (get ''POWERMAX_TOPOLOGY_METRICS_POLL_FREQUENCY'')"
  by (simp_all add: onChangeUpdate_def updatePowerMaxConnection_def updateTickIntervals_def Let_def)

lemma onChangeUpdate_liveness:
  "cfg_LivenessProbeTickInterval (w_config (onChangeUpdate get arrays w)) =
     cfg_LivenessProbeTickInterval (w_config w)"
  by (simp add: onChangeUpdate_def updatePowerMaxConnection_def updateTickIntervals_def
      updateMetricsEnabled_def updateCollectorAddress_def Let_def)

lemma safe_turns:
  "positive_intervals (w_config w) \<Longrightarrow> list_all safe_moment sched \<Longrightarrow>
     list_all (\<lambda>(c, e). positive_intervals c) (turns_of w sched)"
proof (induction w sched rule: turns_of.induct)
  case (2 w ch sched)
  have "positive_intervals (w_config (apply_change ch w))"
    using 2(2,3) by (cases ch)
      (simp_all add: positive_intervals_def onChangeUpdate_intervals safe_setting_positive
        UpdatePowerMaxArraysOnSecretChanged_def)
  then show ?case using 2(1,3) by simp
qed simp_all

text \<open>
  Reloads that set no frequency to zero, to a negative number or to more seconds than fit in 64 bits
  of nanoseconds cannot make the program panic, whatever the other settings, the secrets and the events
  are: a malformed frequency is harmless, and the settings at the start are validated.
\<close>

theorem safe_reloads_never_panic:
  assumes "configure getenv get init k8sUtils arrays recorder finder = Inr w"
    and "list_all safe_moment sched"
  shows "snd (run_schedule w sched) \<noteq> Panicked msg"
proof (cases "ValidateConfig (Some (w_config w))")
  case (Some err)
  then show ?thesis by (simp add: run_schedule_def run_def run_start_def)
next
  case None
  have pos: "positive_intervals (w_config w)" using None by (rule valid_positive)
  have "cfg_LivenessProbeTickInterval (w_config w) = 0"
    using configure_Inr [OF assms(1)] by (simp add: onChangeUpdate_liveness new_world_def)
  then obtain st where st: "run_start (Some (w_config w)) = Running st"
    using None pos by (simp add: run_start_def GetTickIntervals_def positive_intervals_def interval_values)
  have "snd (run_loop (turns_of w sched) st) \<noteq> Panicked msg"
    using positive_start [OF st] safe_turns [OF pos assms(2)] by (rule positive_loop)
  then show ?thesis using None st by (simp add: run_schedule_def run_def case_prod_beta Let_def)
qed

theorem safe_reloads_never_panic_witness:
  "\<forall>msg. snd (run_schedule sample_world
     [Change (Config_file (\<lambda>_. ''often'') (Inl (Err ''no configuration''))), Turn Liveness_tick]) \<noteq> Panicked msg"
proof -
  have "Atoi ''often'' = Inl (Err ''invalid syntax'')" by (simp add: Atoi_def is_digit_def)
  then show ?thesis
    by (intro allI safe_reloads_never_panic [OF sample_configure]) (simp add: safe_setting_def)
qed

text \<open>Without that a reload ends the program: a frequency of zero panics at the next turn.\<close>

lemma sample_intervals: "tick_interval [] = 5 * 60 * second" "tick_interval ''0'' = 0"
  by (simp_all add: tick_interval_def defaultTickInterval_def Atoi_def is_digit_def digits_val_def in_int64_def)

lemma sample_valid: "ValidateConfig (Some (w_config sample_world)) = None"
  and sample_start: "run_start (Some (w_config sample_world)) =
      Running \<lparr>ls_capacity = 5 * 60 * second, ls_performance = 5 * 60 * second,
        ls_topology = 5 * 60 * second, ls_collectedOnLeaderAcquired = False, ls_wasLeader = False\<rparr>"
proof -
  have start: "cfg_CapacityTickInterval (w_config sample_world) = 5 * 60 * second"
    "cfg_PerformanceTickInterval (w_config sample_world) = 5 * 60 * second"
    "cfg_TopologyMetricsTickInterval (w_config sample_world) = 5 * 60 * second"
    "cfg_LivenessProbeTickInterval (w_config sample_world) = 0"
    by (simp_all add: sample_world_def onChangeUpdate_intervals onChangeUpdate_liveness new_world_def
        sample_intervals)
  show valid: "ValidateConfig (Some (w_config sample_world)) = None"
    by (simp add: ValidateConfig_iff valid_config_def valid_interval_def start second_def)
  show "run_start (Some (w_config sample_world)) =
      Running \<lparr>ls_capacity = 5 * 60 * second, ls_performance = 5 * 60 * second,
        ls_topology = 5 * 60 * second, ls_collectedOnLeaderAcquired = False, ls_wasLeader = False\<rparr>"
    using valid by (simp add: run_start_def GetTickIntervals_def start interval_values second_def)
qed

lemma reload_zero_panics:
  "snd (run_schedule sample_world [Change (Config_file (\<lambda>_. ''0'') (Inl (Err []))), Turn Liveness_tick]) =
     Panicked ''non-positive interval for NewTicker''"
proof -
  have "cfg_CapacityTickInterval (w_config (apply_change (Config_file (\<lambda>_. ''0'') (Inl (Err []))) sample_world)) = 0"
    by (simp add: onChangeUpdate_intervals sample_intervals)
  then show ?thesis
    using sample_valid sample_start by (simp add: run_schedule_def run_def run_turn_def tick_update_def
        GetTickIntervals_def update_ticker_def NewTicker_def bind_res_def second_def)
qed

end
