(* ===== verification/System.thy ===== *)
theory System
  imports Program
begin

section \<open>Exports over the life of the program\<close>

text \<open>
  The main loop exports one kind of metrics after the other, and between any two exports the
  configuration and the secrets may change. The state is the \<open>world\<close> of the theory \<open>Main_Config\<close>
  together with what the package \<open>metric\<close> keeps: the three collector singletons and the performance
  collector's cache of counts.
\<close>

record system =
  sy_world :: world
  sy_capacity :: "base_metrics option"
  sy_performance :: "base_metrics option"
  sy_cache :: sg_cache
  sy_topology :: "base_metrics option"

definition new_system :: "world \<Rightarrow> system" where
  "new_system w = \<lparr>sy_world = w, sy_capacity = None, sy_performance = None, sy_cache = Some Map.empty,
     sy_topology = None\<rparr>"

definition cache_after :: "sg_cache \<Rightarrow> performance_out result \<Rightarrow> sg_cache" where
  "cache_after cache res = (case res of Inl err \<Rightarrow> cache | Inr out \<Rightarrow> po_cache out)"

definition sy_service :: "system \<Rightarrow> powermax_service" where
  "sy_service y = w_service (sy_world y)"

text \<open>
  What the environment answers to one export: the API server to the listing of the volumes, the clock to the two readings per
  array and for the duration, and the order in which the clients are ranged over for the self-metrics.
\<close>

record answers =
  an_found :: "volume_info list result"
  an_clock :: "string \<Rightarrow> int \<times> int"
  an_elapsed :: int
  an_order :: "client_map \<Rightarrow> client_map"

text \<open>One export of a kind, with the answers given, and how it comes out.\<close>

inductive export_step :: "float64 \<Rightarrow> kind \<Rightarrow> answers \<Rightarrow> system \<Rightarrow> error option \<Rightarrow> system \<Rightarrow> bool" for ratio where
  capacity:
    "ExportCapacityMetrics (an_order a) (sy_service y) (an_found a) (an_elapsed a) (sy_capacity y) res calls inst \<Longrightarrow>
    export_step ratio Capacity_kind a y (export_error res) (y\<lparr>sy_capacity := inst\<rparr>)"
| performance:
    "ExportPerformanceMetrics ratio (an_clock a) (sy_cache y) (an_order a) (sy_service y) (an_found a) (an_elapsed a)
      (sy_performance y) pres calls inst \<Longrightarrow>
    export_step ratio Performance_kind a y (export_error pres)
      (y\<lparr>sy_performance := inst, sy_cache := cache_after (sy_cache y) pres\<rparr>)"
| topology:
    "ExportTopologyMetrics (an_order a) (sy_service y) (an_found a) (an_elapsed a) (sy_topology y) tres calls inst \<Longrightarrow>
    export_step ratio Topology_kind a y (export_error tres) (y\<lparr>sy_topology := inst\<rparr>)"

inductive_cases export_stepE: "export_step ratio k a y err z"

inductive system_step :: "float64 \<Rightarrow> system \<Rightarrow> system \<Rightarrow> bool" for ratio where
  world_changes: "world_step (sy_world y) w \<Longrightarrow> system_step ratio y (y\<lparr>sy_world := w\<rparr>)"
| exporting: "export_step ratio k a y err z \<Longrightarrow> system_step ratio y z"

inductive_cases system_stepE: "system_step ratio y z"

lemmas export_defs = ExportCapacityMetrics_def ExportPerformanceMetrics_def ExportTopologyMetrics_def

subsection \<open>Every export comes to an end\<close>

definition system_ready :: "system \<Rightarrow> bool" where
  "system_ready y \<longleftrightarrow> world_ready (sy_world y) \<and> pred_option base_ready (sy_capacity y) \<and>
     pred_option base_ready (sy_performance y) \<and> pred_option base_ready (sy_topology y)"

lemma collector_base_ready:
  assumes "world_ready w" and "pred_option base_ready inst"
  shows "base_ready (collector_base (w_service w) inst)"
proof (cases inst)
  case None
  then show ?thesis
    using world_ready_base [OF assms(1)] assms(1)
    by (simp add: collector_base_def base_ready_def world_ready_def created_base_def)
      (simp add: NewBaseMetrics_def service_view_of_def base_ok_def)
qed (use assms(2) in \<open>simp add: collector_base_def\<close>)

lemma exported_base_ready:
  "world_ready w \<Longrightarrow> pred_option base_ready inst \<Longrightarrow>
   service_export collect ty ord (w_service w) found t inst res calls inst' \<Longrightarrow> pred_option base_ready inst'"
  by (simp add: service_export_iff collector_base_ready)

lemma system_step_ready: "system_ready y \<Longrightarrow> system_step ratio y z \<Longrightarrow> system_ready z"
  by (erule system_stepE; (erule export_stepE)?)
    (auto simp: system_ready_def export_defs sy_service_def intro: world_step_ready exported_base_ready)

definition started :: "system \<Rightarrow> bool" where
  "started y \<longleftrightarrow> (\<exists>w. configured_world w \<and> y = new_system w)"

interpretation system_life: invariant_system started "system_step ratio" system_ready for ratio
proof unfold_locales
  show "started y \<Longrightarrow> system_ready y" for y
    by (auto simp: started_def system_ready_def new_system_def configured_world_ready)
qed (rule system_step_ready)

subsection \<open>What a collector has copied stays\<close>

lemma capacity_frozen:
  "(system_step ratio)\<^sup>*\<^sup>* y z \<Longrightarrow> sy_capacity y = Some b \<Longrightarrow> sy_capacity z = Some b"
  by (induction rule: rtranclp_induct)
    (auto elim!: system_stepE export_stepE simp: export_defs service_export_iff collector_base_def)

lemma client_finder [simp]: "GetPowerMaxClient (m\<lparr>bm_VolumeFinder := f\<rparr>) a = GetPowerMaxClient m a"
  by (simp add: GetPowerMaxClient_def)

lemma volume_capacity_finder: "volume_capacity (m\<lparr>bm_VolumeFinder := f\<rparr>) = volume_capacity m"
  by (intro ext) (simp add: volume_capacity_def split: option.split)

text \<open>The records that a successful capacity export has gathered, and the calls it has made from them.\<close>

lemma capacity_export_gathered:
  assumes "ExportCapacityMetrics ord s (Inr pvs) t inst (Inr (calls, ids)) obs inst'"
    and "\<not> list_all (\<lambda>v. handle_array_id (vi_VolumeHandle v) = None) pvs"
  obtains rs where "mset rs = mset (List.map_filter (volume_capacity (collector_base s inst)) pvs)"
    and "dash_free rs" and "(\<exists>rec. pushCapacityMetrics rec rs (calls, ids)) \<or> rs = [] \<and> calls = []"
proof -
  let ?b = "(collector_base s inst)\<lparr>bm_VolumeFinder := \<lambda>_. Inr pvs\<rparr>"
  have "capacity_Collect ?b (Inr (calls, ids))"
    using assms(1) unfolding ExportCapacityMetrics_def by (rule capacity_collector.service_export_Inr)
  then obtain rs where g: "gathers_capacity ?b pvs rs" and
    push: "(\<exists>rec. pushCapacityMetrics rec rs (calls, ids)) \<or> rs = [] \<and> calls = []"
    by (auto simp: capacity_Collect_iff)
  have "mset rs = mset (List.map_filter (volume_capacity (collector_base s inst)) pvs)"
    using capacity_out [OF g] assms(2) by (simp add: volume_capacity_finder)
  then show ?thesis using dash_free_gathered [OF g] push by (rule that)
qed

lemma collected_arrays:
  assumes "ExportCapacityMetrics ord s found t inst (Inr (calls, ids)) obs inst'" and "(p, ls, r) \<in> set calls"
  shows "cr_ArrayID r = [] \<or> (\<exists>c. GetPowerMaxClient (collector_base s inst) (cr_ArrayID r) = Inr (Some c))"
proof -
  have "capacity_Collect ((collector_base s inst)\<lparr>bm_VolumeFinder := \<lambda>_. found\<rparr>) (Inr (calls, ids))"
    using assms(1) unfolding ExportCapacityMetrics_def by (rule capacity_collector.service_export_Inr)
  then obtain pvs arrivals rec where
    g: "gathers_capacity ((collector_base s inst)\<lparr>bm_VolumeFinder := \<lambda>_. found\<rparr>) pvs arrivals"
    and push: "pushCapacityMetrics rec arrivals (calls, ids)"
    using assms(2) by (auto simp: capacity_Collect_iff)
  obtain q where q: "q \<in> set arrivals" "cr_ArrayID q = cr_ArrayID r"
    using pushed_arrays [OF push assms(2)] by auto
  show ?thesis using gathered_arrays [OF g q(1)] unfolding q(2) by simp
qed

lemma ready_capacity_export:
  assumes "base_ready (collector_base s inst)" and "bm_PowerMaxClients (collector_base s inst) \<noteq> None"
  shows "\<exists>calls ids obs inst'. ExportCapacityMetrics ord s (Inr pvs) t inst (Inr (calls, ids)) obs inst'"
proof -
  obtain res obs inst' where e: "ExportCapacityMetrics ord s (Inr pvs) t inst res obs inst'"
    using capacity_collector.service_export_outcomes [OF assms(1)] unfolding ExportCapacityMetrics_def by blast
  moreover have "\<exists>x. res = Inr x"
    using capacity_collector.service_export_outcomes [OF assms(1)] assms(2) e
    unfolding ExportCapacityMetrics_def by blast
  ultimately show ?thesis by auto
qed

lemma sample_collector_base: "collector_base sample_service None = sample_base"
  by (simp add: collector_base_def sample_service_base)

lemma sample_export:
  "\<exists>calls ids obs inst. ExportCapacityMetrics (\<lambda>m. m) sample_service (Inr [sample_volume]) 0 None (Inr (calls, ids)) obs inst"
proof -
  have "base_ready (collector_base sample_service None :: base_metrics)"
    unfolding sample_collector_base base_ready_def using sample_base_ok sample_base_limit by (simp add: sample_base_def)
  then show ?thesis
    by (rule ready_capacity_export) (simp add: sample_collector_base, simp add: sample_base_def)
qed

lemma sample_named: "\<not> list_all (\<lambda>v. handle_array_id (vi_VolumeHandle v) = None) [sample_volume]"
  by (simp add: sample_handle)

subsection \<open>The main loop drives the exports\<close>

text \<open>
  A schedule of changes and turns, lived through: what the environment answers in a turn is part of the schedule. A turn
  performs the actions that \<open>run_turn\<close> decides on, one after the other, and the loop goes on with the variables the turn
  leaves. The exports and the liveness probe may panic, which ends the program; the actions on tickers have no part in it.
\<close>

record environment =
  en_export :: "kind \<Rightarrow> answers"
  en_probe :: "client_map \<Rightarrow> client_map"  \<comment> \<open>the order in which the probe ranges over the clients\<close>

fun panic_of :: "error option \<Rightarrow> string option" where
  "panic_of (Some (Panic msg)) = Some msg"
| "panic_of _ = None"

fun acts_outside :: "action \<Rightarrow> bool" where
  "acts_outside (Export k) = True"
| "acts_outside Probe = True"
| "acts_outside _ = False"

definition probe_panic :: "environment \<Rightarrow> system \<Rightarrow> string option" where
  "probe_panic env y =
     (case fst (validatePowerMaxArrays (en_probe env) (sy_service y)) of Inl err \<Rightarrow> panic_of (Some err) | Inr _ \<Rightarrow> None)"

inductive performs :: "float64 \<Rightarrow> environment \<Rightarrow> action list \<Rightarrow> system \<Rightarrow> string option \<Rightarrow> system \<Rightarrow> bool"
  for ratio env where
  done_all: "performs ratio env [] y None y"
| export: "export_step ratio k (en_export env k) y err x \<Longrightarrow> panic_of err = None \<Longrightarrow> performs ratio env acts x p z \<Longrightarrow>
    performs ratio env (Export k # acts) y p z"
| export_panics: "export_step ratio k (en_export env k) y err z \<Longrightarrow> panic_of err = Some msg \<Longrightarrow>
    performs ratio env (Export k # acts) y (Some msg) z"
| probe: "probe_panic env y = None \<Longrightarrow> performs ratio env acts y p z \<Longrightarrow> performs ratio env (Probe # acts) y p z"
| probe_panics: "probe_panic env y = Some msg \<Longrightarrow> performs ratio env (Probe # acts) y (Some msg) y"
| ticker: "\<not> acts_outside act \<Longrightarrow> performs ratio env acts y p z \<Longrightarrow> performs ratio env (act # acts) y p z"

inductive lives ::
  "float64 \<Rightarrow> loop_state \<Rightarrow> system \<Rightarrow> (moment \<times> environment) list \<Rightarrow> system \<Rightarrow> turn_end \<Rightarrow> bool" for ratio where
  waiting: "lives ratio st y [] y (Running st)"
| change: "lives ratio st (y\<lparr>sy_world := apply_change ch (sy_world y)\<rparr>) sched z final \<Longrightarrow>
    lives ratio st y ((Change ch, env) # sched) z final"
| turn: "run_turn (w_config (sy_world y)) e st = (acts, Running st') \<Longrightarrow>
    performs ratio env acts y None x \<Longrightarrow> lives ratio st' x sched z final \<Longrightarrow>
    lives ratio st y ((Turn e, env) # sched) z final"
| last: "run_turn (w_config (sy_world y)) e st = (acts, final) \<Longrightarrow> (\<And>st'. final \<noteq> Running st') \<Longrightarrow>
    performs ratio env acts y None z \<Longrightarrow> lives ratio st y ((Turn e, env) # sched) z final"
| panics: "run_turn (w_config (sy_world y)) e st = (acts, end) \<Longrightarrow> performs ratio env acts y (Some msg) z \<Longrightarrow>
    lives ratio st y ((Turn e, env) # sched) z (Panicked msg)"

fun honest_moment :: "moment \<Rightarrow> bool" where
  "honest_moment (Change (Config_file get arrays)) = connection arrays"
| "honest_moment (Change (Secret arrays)) = connection arrays"
| "honest_moment (Turn e) = True"

text \<open>The probe ranges over the clients in some order; nothing is asked of the other answers but that the API server does not
  answer with a panic.\<close>

definition honest_environment :: "environment \<Rightarrow> bool" where
  "honest_environment env \<longleftrightarrow> (\<forall>m. iteration_of m (en_probe env m)) \<and>
     (\<forall>k msg. an_found (en_export env k) \<noteq> Inl (Panic msg))"

lemma honest_step: "honest_moment (Change ch) \<Longrightarrow> world_step w (apply_change ch w)"
  by (cases ch) (auto intro: world_step.config_file world_step.secret simp del: apply_change.simps)

lemma export_step_exists:
  assumes "system_ready y"
  shows "\<exists>err z. export_step ratio k a y err z"
proof -
  have r: "world_ready (sy_world y)" "pred_option base_ready (sy_capacity y)"
    "pred_option base_ready (sy_performance y)" "pred_option base_ready (sy_topology y)"
    using assms by (simp_all add: system_ready_def)
  note ready = collector_base_ready [OF r(1), folded sy_service_def]
  obtain cres ccalls cinst where c:
    "ExportCapacityMetrics (an_order a) (sy_service y) (an_found a) (an_elapsed a) (sy_capacity y) cres ccalls cinst"
    using capacity_collector.service_export_outcomes [OF ready [OF r(2)]] unfolding export_defs by blast
  obtain pres pcalls pinst where p:
    "ExportPerformanceMetrics ratio (an_clock a) (sy_cache y) (an_order a) (sy_service y) (an_found a) (an_elapsed a)
       (sy_performance y) pres pcalls pinst"
    using performance_collector.service_export_outcomes [OF ready [OF r(3)]] unfolding export_defs by blast
  obtain tres tcalls tinst where t:
    "ExportTopologyMetrics (an_order a) (sy_service y) (an_found a) (an_elapsed a) (sy_topology y) tres tcalls tinst"
    using topology_collector.service_export_outcomes [OF ready [OF r(4)]] unfolding export_defs by blast
  show ?thesis
    using export_step.capacity [OF c, of ratio] export_step.performance [OF p] export_step.topology [OF t, of ratio]
    by (cases k) blast+
qed

lemma panic_of_Some: "panic_of err = Some msg \<longleftrightarrow> err = Some (Panic msg)"
  by (cases err rule: panic_of.cases) auto

lemma export_error_panic: "export_error res = Some (Panic msg) \<longleftrightarrow> res = Inl (Panic msg)"
  by (simp add: export_error_def split: sum.split)

lemma export_step_no_panic:
  assumes "system_ready y" and "\<And>m. an_found a \<noteq> Inl (Panic m)" and "export_step ratio k a y err z"
  shows "panic_of err = None"
proof -
  have r: "world_ready (sy_world y)" "pred_option base_ready (sy_capacity y)"
    "pred_option base_ready (sy_performance y)" "pred_option base_ready (sy_topology y)"
    using assms(1) by (simp_all add: system_ready_def)
  note ready = collector_base_ready [OF r(1), folded sy_service_def]
  have "panic_of err \<noteq> Some msg" for msg
    using assms(3) unfolding panic_of_Some
  proof cases
    case capacity
    then show "err \<noteq> Some (Panic msg)" unfolding export_defs capacity export_error_panic
      using capacity_collector.service_export_no_panic [OF ready [OF r(2)] assms(2)] by blast
  next
    case performance
    then show "err \<noteq> Some (Panic msg)" unfolding export_defs performance export_error_panic
      using performance_collector.service_export_no_panic [OF ready [OF r(3)] assms(2)] by blast
  next
    case topology
    then show "err \<noteq> Some (Panic msg)" unfolding export_defs topology export_error_panic
      using topology_collector.service_export_no_panic [OF ready [OF r(4)] assms(2)] by blast
  qed
  then show ?thesis by (cases "panic_of err") auto
qed

lemma export_step_ready: "system_ready y \<Longrightarrow> export_step ratio k a y err z \<Longrightarrow> system_ready z"
  by (blast intro: system_step_ready system_step.exporting)

lemma export_step_world: "export_step ratio k a y err z \<Longrightarrow> sy_world z = sy_world y"
  by (erule export_stepE) simp_all

text \<open>The probe calls a client of every array, and every array of a ready service has one.\<close>

lemma probe_list_ok:
  "list_all (\<lambda>a. pa_Client a \<noteq> None) as \<Longrightarrow> \<exists>bs. probe_list as = Inr bs"
  by (induction as) (auto simp: probe_array_def split: sum.split)

lemma probe_ok:
  assumes "world_ready (sy_world y)" and "\<And>m. iteration_of m (en_probe env m)"
  shows "probe_panic env y = None"
proof (cases "ps_PowerMaxClients (sy_service y)")
  case None
  then show ?thesis
    by (simp add: probe_panic_def validatePowerMaxArrays_def GetPowerMaxClients_def maps_Clone_def)
next
  case (Some cm)
  then have "healthy_clients cm" using assms(1) by (simp add: world_ready_def sy_service_def)
  then have "list_all (\<lambda>a. pa_Client a \<noteq> None) (concat (map snd (en_probe env cm)))"
    using iteration_of_set [OF assms(2), of cm] live_entry_client
    by (fastforce simp: healthy_clients_def list_all_iff)
  then obtain bs where "probe_list (concat (map snd (en_probe env cm))) = Inr bs" using probe_list_ok by blast
  with Some show ?thesis
    by (simp add: probe_panic_def validatePowerMaxArrays_def GetPowerMaxClients_def maps_Clone_def)
qed

lemma performs_exists:
  "system_ready y \<Longrightarrow> honest_environment env \<Longrightarrow> \<exists>z. performs ratio env acts y None z"
proof (induction acts arbitrary: y)
  case Nil
  then show ?case by (blast intro: performs.done_all)
next
  case (Cons act acts)
  show ?case
  proof (cases act)
    case (Export k)
    obtain err x where x: "export_step ratio k (en_export env k) y err x" using export_step_exists [OF Cons.prems(1)] by blast
    then have "system_ready x" using Cons.prems(1) export_step_ready by blast
    then obtain z where "performs ratio env acts x None z" using Cons.IH Cons.prems(2) by blast
    moreover have "panic_of err = None"
      using export_step_no_panic [OF Cons.prems(1) _ x] Cons.prems(2) by (simp add: honest_environment_def)
    ultimately show ?thesis using x Export by (blast intro: performs.export)
  next
    case Probe
    have "probe_panic env y = None"
      using Cons.prems by (intro probe_ok) (simp_all add: system_ready_def honest_environment_def)
    with Probe Cons.IH [OF Cons.prems] show ?thesis by (blast intro: performs.probe)
  qed (use Cons.IH [OF Cons.prems] performs.ticker [of act ratio env acts y None] in auto)
qed

lemma performs_keeps:
  "performs ratio env acts y p z \<Longrightarrow> system_ready y \<Longrightarrow> honest_environment env \<Longrightarrow>
     p = None \<and> system_ready z \<and> sy_world z = sy_world y"
proof (induction rule: performs.induct)
  case (export k y err x acts p z)
  then show ?case using export_step_ready [OF export(5,1)] export_step_world [OF export(1)] by simp
next
  case (export_panics k y err z msg acts)
  have "panic_of err = None"
    using export_step_no_panic [OF export_panics(3) _ export_panics(1)] export_panics(4) by (simp add: honest_environment_def)
  with export_panics(2) show ?case by simp
next
  case (probe_panics y msg acts)
  have "probe_panic env y = None"
    using probe_panics(2,3) by (intro probe_ok) (simp_all add: system_ready_def honest_environment_def)
  with probe_panics(1) show ?case by simp
qed simp_all

lemma lives_exists:
  "system_ready y \<Longrightarrow> list_all (\<lambda>(mo, env). honest_moment mo \<and> honest_environment env) sched \<Longrightarrow>
     \<exists>z. lives ratio st y sched z (snd (run_loop (turns_of (sy_world y) (map fst sched)) st))"
proof (induction sched arbitrary: y st)
  case Nil
  then show ?case by (auto intro: lives.waiting)
next
  case (Cons me sched)
  obtain mo env where me: "me = (mo, env)" by (cases me)
  have honest: "honest_moment mo" "honest_environment env" using Cons.prems(2) by (simp_all add: me)
  show ?case
  proof (cases mo)
    case (Change ch)
    let ?y = "y\<lparr>sy_world := apply_change ch (sy_world y)\<rparr>"
    have "world_step (sy_world y) (apply_change ch (sy_world y))"
      using honest(1) Change by (intro honest_step) simp
    then have "system_ready ?y" using Cons.prems(1) by (blast intro: system_step_ready system_step.world_changes)
    then obtain z where "lives ratio st ?y sched z (snd (run_loop (turns_of (sy_world ?y) (map fst sched)) st))"
      using Cons.IH Cons.prems(2) by fastforce
    then show ?thesis using Change me by (auto intro: lives.change)
  next
    case (Turn e)
    obtain acts final where t: "run_turn (w_config (sy_world y)) e st = (acts, final)" by fastforce
    obtain x where x: "performs ratio env acts y None x" using performs_exists [OF Cons.prems(1) honest(2)] by blast
    show ?thesis
    proof (cases "\<exists>st'. final = Running st'")
      case True
      then obtain st' where st': "final = Running st'" by blast
      have "system_ready x" "sy_world x = sy_world y" using performs_keeps [OF x Cons.prems(1) honest(2)] by simp_all
      then obtain z where "lives ratio st' x sched z (snd (run_loop (turns_of (sy_world y) (map fst sched)) st'))"
        using Cons.IH Cons.prems(2) by fastforce
      then show ?thesis using x t st' Turn me by (auto simp: case_prod_beta Let_def intro: lives.turn)
    next
      case False
      then have "lives ratio st y ((Turn e, env) # sched) x final" using x t by (blast intro: lives.last)
      then show ?thesis using t Turn False me by (cases final) auto
    qed
  qed
qed

lemma lives_final:
  "lives ratio st y sched z final \<Longrightarrow> system_ready y \<Longrightarrow>
     list_all (\<lambda>(mo, env). honest_moment mo \<and> honest_environment env) sched \<Longrightarrow>
     system_ready z \<and> final = snd (run_loop (turns_of (sy_world y) (map fst sched)) st)"
proof (induction rule: lives.induct)
  case (change st ch y sched z final env)
  have "world_step (sy_world y) (apply_change ch (sy_world y))"
    using change(4) by (intro honest_step) simp
  then have "system_ready (y\<lparr>sy_world := apply_change ch (sy_world y)\<rparr>)"
    using change(3) by (blast intro: system_step_ready system_step.world_changes)
  then show ?case using change(2,4) by simp
next
  case (turn y e st acts st' env x sched z final)
  have "system_ready x" "sy_world x = sy_world y" using performs_keeps [OF turn(2,5)] turn(6) by simp_all
  with turn show ?case by (simp add: case_prod_beta Let_def)
next
  case (last y e st acts final env z sched)
  then show ?case using performs_keeps [OF last(3,4)] by (cases final) auto
next
  case (panics y e st acts final env msg z sched)
  then show ?case using performs_keeps [OF panics(2,3)] by simp
qed simp

end
