(* ===== verification/Overlap.thy ===== *)
theory Overlap
  imports System
begin

section \<open>Changes that overlap with exports and with each other\<close>

text \<open>
  The theories \<open>Program\<close> and \<open>System\<close> take a change as one step. In the program the watcher of the configuration file
  and the informer of the secrets run in goroutines of their own, each of which handles one change after the other: the
  assignments of \<open>onChangeUpdate\<close> happen one by one, a change of the file and one of a secret may be under way at
  the same time, and an export reads the service at different moments. Here every assignment and every read is a step of its
  own. The arrays that a change sets are those it got when it was started.
\<close>

datatype update =
    Set_clients "client_map result"
  | Set_volume_drivers "string \<Rightarrow> string"
  | Set_class_drivers "string \<Rightarrow> string"
  | Set_enabled kind "string \<Rightarrow> string"
  | Set_address "string \<Rightarrow> string"
  | Set_exporter_address "string \<Rightarrow> string"
  | Set_interval kind "string \<Rightarrow> string"
  | Set_limit "string \<Rightarrow> string"

text \<open>An assignment gives one field the value that the update function computes for it.\<close>

fun set_enabled :: "kind \<Rightarrow> config \<Rightarrow> config \<Rightarrow> config" where
  "set_enabled Capacity_kind new c = c\<lparr>cfg_CapacityMetricsEnabled := cfg_CapacityMetricsEnabled new\<rparr>"
| "set_enabled Performance_kind new c = c\<lparr>cfg_PerformanceMetricsEnabled := cfg_PerformanceMetricsEnabled new\<rparr>"
| "set_enabled Topology_kind new c = c\<lparr>cfg_TopologyMetricsEnabled := cfg_TopologyMetricsEnabled new\<rparr>"

fun set_interval :: "kind \<Rightarrow> config \<Rightarrow> config \<Rightarrow> config" where
  "set_interval Capacity_kind new c = c\<lparr>cfg_CapacityTickInterval := cfg_CapacityTickInterval new\<rparr>"
| "set_interval Performance_kind new c = c\<lparr>cfg_PerformanceTickInterval := cfg_PerformanceTickInterval new\<rparr>"
| "set_interval Topology_kind new c = c\<lparr>cfg_TopologyMetricsTickInterval := cfg_TopologyMetricsTickInterval new\<rparr>"

fun apply_update :: "update \<Rightarrow> world \<Rightarrow> world" where
  "apply_update (Set_clients arrays) w = w\<lparr>w_service := updatePowerMaxArrays arrays (w_service w)\<rparr>"
| "apply_update (Set_volume_drivers get) w =
     w\<lparr>w_volume_finder := fst (updateProvisionerNames get (w_volume_finder w, w_class_finder w))\<rparr>"
| "apply_update (Set_class_drivers get) w =
     w\<lparr>w_class_finder := snd (updateProvisionerNames get (w_volume_finder w, w_class_finder w))\<rparr>"
| "apply_update (Set_enabled k get) w =
     w\<lparr>w_config := set_enabled k (updateMetricsEnabled get (w_config w)) (w_config w)\<rparr>"
| "apply_update (Set_address get) w =
     w\<lparr>w_config := fst (updateCollectorAddress get (w_config w, w_exporter_addr w))\<rparr>"
| "apply_update (Set_exporter_address get) w =
     w\<lparr>w_exporter_addr := snd (updateCollectorAddress get (w_config w, w_exporter_addr w))\<rparr>"
| "apply_update (Set_interval k get) w =
     w\<lparr>w_config := set_interval k (updateTickIntervals get (w_config w)) (w_config w)\<rparr>"
| "apply_update (Set_limit get) w = w\<lparr>w_service := updateMaxConnections get (w_service w)\<rparr>"

fun updates_of :: "change \<Rightarrow> update list" where
  "updates_of (Config_file get arrays) =
     [Set_clients arrays, Set_volume_drivers get, Set_class_drivers get,
      Set_enabled Capacity_kind get, Set_enabled Performance_kind get, Set_enabled Topology_kind get,
      Set_address get, Set_exporter_address get,
      Set_interval Capacity_kind get, Set_interval Performance_kind get, Set_interval Topology_kind get,
      Set_limit get]"
| "updates_of (Secret arrays) = [Set_clients arrays]"

text \<open>A change that nothing overlaps with is the step that \<open>Program\<close> takes.\<close>

lemma updates_of_change: "foldl (\<lambda>w u. apply_update u w) w (updates_of ch) = apply_change ch w"
  by (cases ch)
    (simp_all add: onChangeUpdate_def updatePowerMaxConnection_def Let_def UpdatePowerMaxArraysOnSecretChanged_def
      updateProvisionerNames_def updateMetricsEnabled_def updateCollectorAddress_def updateTickIntervals_def)

fun honest_update :: "update \<Rightarrow> bool" where
  "honest_update (Set_clients arrays) = connection arrays"
| "honest_update _ = True"

fun honest_change :: "change \<Rightarrow> bool" where
  "honest_change (Config_file get arrays) = connection arrays"
| "honest_change (Secret arrays) = connection arrays"

lemma honest_updates: "honest_change ch \<Longrightarrow> list_all honest_update (updates_of ch)"
  by (cases ch) simp_all

lemma update_ready: "world_ready w \<Longrightarrow> honest_update u \<Longrightarrow> world_ready (apply_update u w)"
  by (cases u)
    (auto simp: world_ready_def world_update updateMaxConnections_pos connection_healthy Let_def
      split: sum.splits option.splits)

subsection \<open>An export, read by read\<close>

text \<open>
  \<open>NewBaseMetrics\<close> calls the getters of the service in the order of the fields; a collector that exists already is used
  as it is. After the collection the self-metrics are recorded for the service as it is then. \<open>a\<close> is what the environment
  answers, \<open>collect\<close> the collection (that of the performance collector depends on its cache and on the clock).
\<close>

datatype progress =
    Resting
  | Found_finder "unit \<Rightarrow> volume_info list result"
  | Found_clients "unit \<Rightarrow> volume_info list result" "client_map option"
  | Found_recorder "unit \<Rightarrow> volume_info list result" "client_map option" "metrics_recorder option"
  | Exporting base_metrics
  | Exported "error option"

text \<open>The goroutines that handle changes.\<close>

datatype handler = Config_watcher | Secret_informer

fun handler_of :: "change \<Rightarrow> handler" where
  "handler_of (Config_file get arrays) = Config_watcher"
| "handler_of (Secret arrays) = Secret_informer"

record live =
  lv_world :: world
  lv_changes :: "handler \<Rightarrow> update list"  \<comment> \<open>what the change under way has still to do\<close>
  lv_inst :: "base_metrics option"
  lv_export :: progress
  lv_reports :: "obs_call list list"

abbreviation lv_service :: "live \<Rightarrow> powermax_service" where
  "lv_service l \<equiv> w_service (lv_world l)"

definition new_base ::
  "(unit \<Rightarrow> volume_info list result) \<Rightarrow> client_map option \<Rightarrow> metrics_recorder option \<Rightarrow> int \<Rightarrow> base_metrics" where
  "new_base finder clients recorder limit =
     created_base \<lparr>sv_VolumeFinder = finder, sv_PowerMaxClients = clients, sv_MetricsRecorder = recorder,
       sv_MaxPowerMaxConnections = limit\<rparr>"

inductive export_move ::
  "(base_metrics \<Rightarrow> 'o result \<Rightarrow> bool) \<Rightarrow> string \<Rightarrow> answers \<Rightarrow> live \<Rightarrow> live \<Rightarrow> bool"
  for collect typeName a where
  reuse: "lv_export l = Resting \<Longrightarrow> lv_inst l = Some b \<Longrightarrow>
    export_move collect typeName a l (l\<lparr>lv_export := Exporting b\<rparr>)"
| read_finder: "lv_export l = Resting \<Longrightarrow> lv_inst l = None \<Longrightarrow>
    export_move collect typeName a l (l\<lparr>lv_export := Found_finder (ps_VolumeFinder (lv_service l))\<rparr>)"
| read_clients: "lv_export l = Found_finder f \<Longrightarrow>
    export_move collect typeName a l (l\<lparr>lv_export := Found_clients f (GetPowerMaxClients (lv_service l))\<rparr>)"
| read_recorder: "lv_export l = Found_clients f cm \<Longrightarrow>
    export_move collect typeName a l (l\<lparr>lv_export := Found_recorder f cm (ps_MetricsRecorder (lv_service l))\<rparr>)"
| read_limit: "lv_export l = Found_recorder f cm r \<Longrightarrow>
    b = new_base f cm r (ps_MaxPowerMaxConnections (lv_service l)) \<Longrightarrow>
    export_move collect typeName a l (l\<lparr>lv_inst := Some b, lv_export := Exporting b\<rparr>)"
| collecting: "lv_export l = Exporting b \<Longrightarrow>
    exports collect typeName (b\<lparr>bm_VolumeFinder := \<lambda>_. an_found a\<rparr>) res \<Longrightarrow>
    export_move collect typeName a l (l\<lparr>lv_export := Exported (export_error res)\<rparr>)"
| report: "lv_export l = Exported err \<Longrightarrow>
    export_move collect typeName a l (l\<lparr>lv_export := Resting,
      lv_reports := lv_reports l @ [recordObsMetrics (an_order a) (an_elapsed a) err (lv_service l)]\<rparr>)"

inductive_cases export_moveE: "export_move collect typeName a l l'"

text \<open>
  What can happen without a new change: an assignment of a change under way, the start of the self-metrics server, and a
  move of the export with one of the possible collections and some answers.
\<close>

inductive settle_step ::
  "(base_metrics \<Rightarrow> 'o result \<Rightarrow> bool) set \<Rightarrow> string \<Rightarrow> live \<Rightarrow> live \<Rightarrow> bool" for collects typeName where
  update: "lv_changes l h = u # us \<Longrightarrow> settle_step collects typeName l
    (l\<lparr>lv_world := apply_update u (lv_world l), lv_changes := (lv_changes l)(h := us)\<rparr>)"
| metrics_server:
    "settle_step collects typeName l (l\<lparr>lv_world := (lv_world l)\<lparr>w_service :=
       (lv_service l)\<lparr>ps_ObsInstrumenter := Some (Some ())\<rparr>\<rparr>\<rparr>)"
| export: "collect \<in> collects \<Longrightarrow> \<forall>m. iteration_of m (an_order a m) \<Longrightarrow> export_move collect typeName a l l' \<Longrightarrow>
    settle_step collects typeName l l'"

inductive_cases settle_stepE: "settle_step collects typeName l l'"

text \<open>A change begins when its handler has none under way.\<close>

inductive live_step ::
  "(base_metrics \<Rightarrow> 'o result \<Rightarrow> bool) set \<Rightarrow> string \<Rightarrow> live \<Rightarrow> live \<Rightarrow> bool" for collects typeName where
  start_change: "honest_change ch \<Longrightarrow> lv_changes l (handler_of ch) = [] \<Longrightarrow>
    live_step collects typeName l (l\<lparr>lv_changes := (lv_changes l)(handler_of ch := updates_of ch)\<rparr>)"
| settle: "settle_step collects typeName l l' \<Longrightarrow> live_step collects typeName l l'"

inductive_cases live_stepE: "live_step collects typeName l l'"

definition new_live :: "world \<Rightarrow> live" where
  "new_live w = \<lparr>lv_world = w, lv_changes = (\<lambda>_. []), lv_inst = None, lv_export = Resting, lv_reports = []\<rparr>"

subsection \<open>Whatever overlaps, the service and the collector are ready\<close>

definition clients_fine :: "client_map option \<Rightarrow> bool" where
  "clients_fine cm \<longleftrightarrow> (case cm of None \<Rightarrow> True | Some m \<Rightarrow> clients_ok m)"

fun progress_ready :: "progress \<Rightarrow> bool" where
  "progress_ready (Found_clients f cm) = clients_fine cm"
| "progress_ready (Found_recorder f cm r) = (clients_fine cm \<and> r \<noteq> None)"
| "progress_ready (Exporting b) = base_ready b"
| "progress_ready _ = True"

definition live_ready :: "live \<Rightarrow> bool" where
  "live_ready l \<longleftrightarrow> world_ready (lv_world l) \<and> (\<forall>h. list_all honest_update (lv_changes l h)) \<and>
     pred_option base_ready (lv_inst l) \<and> progress_ready (lv_export l)"

lemma clients_fine_read: "world_ready w \<Longrightarrow> clients_fine (GetPowerMaxClients (w_service w))"
  using world_ready_base [of w]
  by (simp add: clients_fine_def base_ok_def NewBaseMetrics_def service_view_of_def)

lemma base_ready_new:
  "clients_fine cm \<Longrightarrow> r \<noteq> None \<Longrightarrow> 0 < limit \<Longrightarrow> base_ready (new_base f cm r limit)"
  by (simp add: base_ready_def new_base_def created_base_def NewBaseMetrics_def base_ok_def clients_fine_def)

lemma world_ready_parts:
  "world_ready w \<Longrightarrow> ps_MetricsRecorder (w_service w) \<noteq> None"
  "world_ready w \<Longrightarrow> 0 < ps_MaxPowerMaxConnections (w_service w)"
  by (simp_all add: world_ready_def)

lemma export_move_ready: "live_ready l \<Longrightarrow> export_move collect ty a l l' \<Longrightarrow> live_ready l'"
  by (erule export_moveE) (auto simp: live_ready_def clients_fine_read world_ready_parts base_ready_new)

lemma settle_step_ready: "live_ready l \<Longrightarrow> settle_step collects ty l l' \<Longrightarrow> live_ready l'"
proof (erule settle_stepE)
  fix h u us assume l: "live_ready l" and u: "lv_changes l h = u # us"
    and l': "l' = l\<lparr>lv_world := apply_update u (lv_world l), lv_changes := (lv_changes l)(h := us)\<rparr>"
  have "list_all honest_update (u # us)" using l unfolding live_ready_def u [symmetric] by blast
  with l show "live_ready l'" by (simp add: live_ready_def update_ready l')
next
  assume "live_ready l" and "l' = l\<lparr>lv_world := (lv_world l)\<lparr>w_service := (lv_service l)\<lparr>ps_ObsInstrumenter := Some (Some ())\<rparr>\<rparr>\<rparr>"
  then show "live_ready l'" by (simp add: live_ready_def world_ready_def)
qed (rule export_move_ready)

lemma live_step_ready: "live_ready l \<Longrightarrow> live_step collects ty l l' \<Longrightarrow> live_ready l'"
  by (erule live_stepE) (auto simp: settle_step_ready, simp add: live_ready_def honest_updates)

interpretation overlapping: invariant_system
  "\<lambda>l. \<exists>w. configured_world w \<and> l = new_live w" "live_step collects ty" live_ready
  for collects ty
proof unfold_locales
  show "\<exists>w. configured_world w \<and> l = new_live w \<Longrightarrow> live_ready l" for l
    by (auto simp: live_ready_def new_live_def configured_world_ready)
qed (rule live_step_ready)

subsection \<open>Every export returns\<close>

text \<open>The export goes on alone, with these answers and no others, until its self-metrics are recorded.\<close>

definition can_finish :: "(base_metrics \<Rightarrow> 'o result \<Rightarrow> bool) \<Rightarrow> string \<Rightarrow> answers \<Rightarrow> live \<Rightarrow> bool" where
  "can_finish collect typeName a l \<longleftrightarrow>
     (\<exists>l'. (export_move collect typeName a)\<^sup>*\<^sup>* l l' \<and> lv_export l' = Resting \<and>
        length (lv_reports l') = Suc (length (lv_reports l)))"

lemma can_finish_step:
  "export_move collect ty a l l' \<Longrightarrow> can_finish collect ty a l' \<Longrightarrow> lv_reports l' = lv_reports l \<Longrightarrow>
     can_finish collect ty a l"
  by (auto simp: can_finish_def intro: converse_rtranclp_into_rtranclp)

lemma finish_report:
  assumes "lv_export l = Exported err"
  shows "can_finish collect ty a l"
  unfolding can_finish_def
  by (intro exI conjI, rule r_into_rtranclp, rule export_move.report [OF assms]) simp_all

context metrics_collector
begin

lemma finish_collect:
  assumes "lv_export l = Exporting b" and "base_ready b"
  shows "can_finish collect ty a l"
proof -
  let ?b = "b\<lparr>bm_VolumeFinder := \<lambda>_. an_found a\<rparr>"
  have "base_ok ?b" "0 < bm_MaxPowerMaxConnections ?b" using assms(2) by (simp_all add: base_ready_def base_ok_def)
  then obtain res where "exports collect ty ?b res" using export_total by blast
  with assms(1) have "export_move collect ty a l (l\<lparr>lv_export := Exported (export_error res)\<rparr>)"
    by (rule export_move.collecting)
  then show ?thesis by (rule can_finish_step) (auto intro: finish_report)
qed

lemma finish_new:
  assumes "live_ready l" and "lv_export l = Found_recorder f cm r"
  shows "can_finish collect ty a l"
proof -
  let ?b = "new_base f cm r (ps_MaxPowerMaxConnections (lv_service l))"
  have "base_ready ?b" using assms by (auto simp: live_ready_def world_ready_parts intro: base_ready_new)
  then have "can_finish collect ty a (l\<lparr>lv_inst := Some ?b, lv_export := Exporting ?b\<rparr>)"
    by (intro finish_collect) simp_all
  then show ?thesis by (rule can_finish_step [OF export_move.read_limit [OF assms(2) refl]]) simp
qed

lemma finish_recorder:
  assumes "live_ready l" and "lv_export l = Found_clients f cm"
  shows "can_finish collect ty a l"
  by (rule can_finish_step [OF export_move.read_recorder [OF assms(2)]])
    (rule finish_new [OF export_move_ready [OF assms(1) export_move.read_recorder [OF assms(2)]]], simp_all)

lemma finish_clients:
  assumes "live_ready l" and "lv_export l = Found_finder f"
  shows "can_finish collect ty a l"
  by (rule can_finish_step [OF export_move.read_clients [OF assms(2)]])
    (rule finish_recorder [OF export_move_ready [OF assms(1) export_move.read_clients [OF assms(2)]]], simp_all)

lemma finish_any:
  assumes "live_ready l"
  shows "can_finish collect ty a l"
proof (cases "lv_export l")
  case Resting
  show ?thesis
  proof (cases "lv_inst l")
    case None
    note o = export_move.read_finder [OF Resting None]
    show ?thesis by (rule can_finish_step [OF o]) (rule finish_clients [OF export_move_ready [OF assms o]], simp_all)
  next
    case (Some b)
    have "base_ready b" using assms Some by (simp add: live_ready_def)
    then show ?thesis by (intro can_finish_step [OF export_move.reuse [OF Resting Some]] finish_collect) simp_all
  qed
qed (use assms in \<open>auto simp: live_ready_def intro: finish_report finish_collect finish_new finish_recorder finish_clients\<close>)

lemma reached_finish:
  fixes collects :: "(base_metrics \<Rightarrow> 'o result \<Rightarrow> bool) set"
  assumes "configured_world w0" and "(live_step collects ty)\<^sup>*\<^sup>* (new_live w0) l"
  shows "can_finish collect ty' a l"
  by (rule finish_any, rule overlapping.reachable_inv [OF _ assms(2)]) (use assms(1) in blast)

end

text \<open>An export that no change overlaps with is the one that the service's functions describe.\<close>

lemma uninterrupted_export:
  assumes "lv_export l = Resting"
    and "service_export collect ty (an_order a) (lv_service l) (an_found a) (an_elapsed a) (lv_inst l) res calls inst'"
  shows "(export_move collect ty a)\<^sup>*\<^sup>* l (l\<lparr>lv_inst := inst', lv_reports := lv_reports l @ [calls]\<rparr>)"
proof -
  let ?s = "lv_service l" and ?b = "collector_base (lv_service l) (lv_inst l)"
  have e: "inst' = Some ?b" "exports collect ty (?b\<lparr>bm_VolumeFinder := \<lambda>_. an_found a\<rparr>) res"
    "calls = recordObsMetrics (an_order a) (an_elapsed a) (export_error res) ?s"
    using assms(2) by (simp_all add: service_export_iff)
  let ?x = "l\<lparr>lv_inst := Some ?b, lv_export := Exporting ?b\<rparr>"
  let ?y = "?x\<lparr>lv_export := Exported (export_error res)\<rparr>"
  have start: "(export_move collect ty a)\<^sup>*\<^sup>* l ?x"
  proof (cases "lv_inst l")
    case (Some b)
    moreover have "l\<lparr>lv_export := Exporting b\<rparr> = ?x"
      using Some by (intro live.equality) (simp_all add: collector_base_def)
    ultimately show ?thesis using export_move.reuse [OF assms(1) Some, of collect ty a] by (simp add: r_into_rtranclp)
  next
    case None
    let ?f = "ps_VolumeFinder ?s" and ?cm = "GetPowerMaxClients ?s" and ?r = "ps_MetricsRecorder ?s"
    let ?l1 = "l\<lparr>lv_export := Found_finder ?f\<rparr>" and ?l2 = "l\<lparr>lv_export := Found_clients ?f ?cm\<rparr>"
    let ?l3 = "l\<lparr>lv_export := Found_recorder ?f ?cm ?r\<rparr>"
    have b: "?b = new_base ?f ?cm ?r (ps_MaxPowerMaxConnections ?s)"
      using None by (simp add: collector_base_def new_base_def service_view_of_def)
    have "export_move collect ty a l ?l1" by (rule export_move.read_finder [OF assms(1) None])
    moreover have "export_move collect ty a ?l1 ?l2" using export_move.read_clients [of ?l1 ?f collect ty a] by simp
    moreover have "export_move collect ty a ?l2 ?l3" using export_move.read_recorder [of ?l2 ?f ?cm collect ty a] by simp
    moreover have "export_move collect ty a ?l3 ?x"
      using export_move.read_limit [of ?l3 ?f ?cm ?r ?b collect ty a] b by simp
    ultimately show ?thesis by (meson converse_rtranclp_into_rtranclp rtranclp.rtrancl_refl)
  qed
  have "export_move collect ty a ?x ?y" using export_move.collecting [of ?x ?b collect ty a res] e(2) by simp
  moreover have "export_move collect ty a ?y (?y\<lparr>lv_export := Resting, lv_reports := lv_reports ?y @ [calls]\<rparr>)"
    using export_move.report [of ?y "export_error res" collect ty a] e(3) by simp
  moreover have "?y\<lparr>lv_export := Resting, lv_reports := lv_reports ?y @ [calls]\<rparr> =
      l\<lparr>lv_inst := inst', lv_reports := lv_reports l @ [calls]\<rparr>"
    by (rule live.equality) (simp_all add: e(1) assms(1))
  ultimately show ?thesis using start by (metis rtranclp.rtrancl_into_rtrancl)
qed

text \<open>A secret has changed and its arrays are not set yet, while an export reads the service.\<close>

definition amid :: live where
  "amid = (new_live sample_world)\<lparr>
     lv_changes := (\<lambda>_. [])(Secret_informer := [Set_clients (Inr [(''0257'', [sample_array])])]),
     lv_export := Found_finder (ps_VolumeFinder (w_service sample_world))\<rparr>"

definition meanwhile_answers :: answers where
  "meanwhile_answers = \<lparr>an_found = Inr [sample_volume], an_clock = (\<lambda>_. (0, 0)), an_elapsed = 0, an_order = (\<lambda>m. m)\<rparr>"

lemma amid_reached:
  assumes "collect \<in> collects"
  shows "(live_step collects ty)\<^sup>*\<^sup>* (new_live sample_world) amid"
proof -
  let ?l = "(new_live sample_world)\<lparr>lv_changes := (\<lambda>_. [])(Secret_informer := [Set_clients (Inr [(''0257'', [sample_array])])])\<rparr>"
  have "live_step collects ty (new_live sample_world) ?l"
    using live_step.start_change [of "Secret (Inr [(''0257'', [sample_array])])" "new_live sample_world" collects ty]
      sample_connection by (simp add: new_live_def)
  moreover have "export_move collect ty meanwhile_answers ?l amid"
    using export_move.read_finder [of ?l collect ty meanwhile_answers] by (simp add: amid_def new_live_def)
  then have "live_step collects ty ?l amid"
    using assms by (intro live_step.settle settle_step.export [of collect]) (simp_all add: meanwhile_answers_def iteration_of_refl)
  ultimately show ?thesis by (meson converse_rtranclp_into_rtranclp rtranclp.rtrancl_refl)
qed

text \<open>
  C6. Exports come to an end under any overlap and whatever they are answered: in every state that the program can reach after
  \<open>configure\<close>, with changes of the configuration and of the secrets under way, interleaved assignment by assignment with the reads of
  an export, the export can go on, without any change moving, until its self-metrics are recorded. This holds for each kind of export, at
  whatever point of it, and for any listing of the volumes, clock, cache and order of the clients that it meets from there: no limit
  read in the middle of a change blocks the collection and no client read there is missing.
\<close>

theorem overlapped_exports_return:
  assumes "connection arrays"
    and "configure getenv get (init :: string \<Rightarrow> unit option \<times> error option) k8sUtils arrays recorder finder = Inr w0"
  shows "((live_step {capacity_Collect} ct)\<^sup>*\<^sup>* (new_live w0) xl \<longrightarrow> can_finish capacity_Collect ct a xl) \<and>
    ((live_step {performance_Collect ratio clock cache | clock cache. True} pt)\<^sup>*\<^sup>* (new_live w0) yl \<longrightarrow>
       can_finish (performance_Collect ratio clock cache) pt a yl) \<and>
    ((live_step {topology_Collect} tt)\<^sup>*\<^sup>* (new_live w0) zl \<longrightarrow> can_finish topology_Collect tt a zl)"
proof -
  have w0: "configured_world w0" using assms by (rule configured_worldI)
  show ?thesis
    using capacity_collector.reached_finish [OF w0] performance_collector.reached_finish [OF w0]
      topology_collector.reached_finish [OF w0] by blast
qed

theorem overlapped_exports_return_witness:
  "lv_changes amid Secret_informer \<noteq> [] \<and> can_finish capacity_Collect ''*metric.CapacityMetrics'' meanwhile_answers amid \<and>
   can_finish topology_Collect ''*metric.TopologyMetrics'' meanwhile_answers amid"
proof -
  have "lv_changes amid Secret_informer \<noteq> []" by (simp add: amid_def)
  then show ?thesis
    using overlapped_exports_return [OF sample_connection sample_configure, of "''*metric.CapacityMetrics''" amid meanwhile_answers
      f64_zero "''*metric.PerformanceMetrics''" amid "\<lambda>_. (0, 0)" None "''*metric.TopologyMetrics''" amid]
      amid_reached [of capacity_Collect "{capacity_Collect}" "''*metric.CapacityMetrics''"]
      amid_reached [of topology_Collect "{topology_Collect}" "''*metric.TopologyMetrics''"] by blast
qed

text \<open>
  C7. The service is ready in the middle of a change, too: whatever changes are under way and however far each of them is, it has its
  recorder, a positive connection limit and, if it has clients, only active ones that accepted their credentials; and a
  collector made from reads at different moments has these as well, so that no export panics on a missing client.
\<close>

theorem ready_amid_changes:
  assumes "connection arrays"
    and "configure getenv get (init :: string \<Rightarrow> unit option \<times> error option) k8sUtils arrays recorder finder = Inr w0"
    and "(live_step collects ty)\<^sup>*\<^sup>* (new_live w0) l"
  shows "ps_MetricsRecorder (lv_service l) \<noteq> None \<and> 0 < ps_MaxPowerMaxConnections (lv_service l) \<and>
    (case ps_PowerMaxClients (lv_service l) of
       None \<Rightarrow> True
     | Some cm \<Rightarrow> distinct (map fst cm) \<and> list_all (\<lambda>(a, as). as \<noteq> [] \<and> list_all live_entry as) cm) \<and>
    (\<forall>b. lv_inst l = Some b \<longrightarrow> bm_MetricsRecorder b \<noteq> None \<and> 0 < bm_MaxPowerMaxConnections b \<and>
       (\<forall>a. GetPowerMaxClient b a \<noteq> Inr None))"
proof -
  have "configured_world w0" using assms(1,2) by (rule configured_worldI)
  then have "live_ready l" using assms(3) by (blast intro: overlapping.reachable_inv)
  then show ?thesis
    by (auto simp: live_ready_def world_ready_def healthy_clients_def base_ready_def GetPowerMaxClient_never_nil
        split: option.splits)
qed

theorem ready_amid_changes_witness: "0 < ps_MaxPowerMaxConnections (lv_service amid)"
  using ready_amid_changes [OF sample_connection sample_configure
      amid_reached [of capacity_Collect "{capacity_Collect}" "[]"]] by blast

lemma unreachable_connection: "connection (Inr [])"
proof -
  have "Inr [] = GetPowerMaxArrays True [] (Inl (Err [])) (Inr sample_config) (\<lambda>_. Inl (Err ''unreachable'')) (\<lambda>m. m)"
    by (simp add: GetPowerMaxArrays_def getPowerMaxArrays_def arrays_of_config_def sample_config_def
        array_entries_def endpoint_entry_def sample_url_def connect_array_def zero_powermax_array_def Let_def)
  then show ?thesis unfolding connection_def by (intro exI conjI) (rule allI, rule iteration_of_refl)
qed

text \<open>The assignments other than that of the clients leave them alone.\<close>

fun sets_clients :: "update \<Rightarrow> bool" where
  "sets_clients (Set_clients arrays) = True"
| "sets_clients _ = False"

definition clients_settled :: "client_map \<Rightarrow> live \<Rightarrow> bool" where
  "clients_settled cm l \<longleftrightarrow> ps_PowerMaxClients (lv_service l) = Some cm \<and>
     (\<forall>h. list_all (\<lambda>u. \<not> sets_clients u) (lv_changes l h))"

lemma update_clients: "\<not> sets_clients u \<Longrightarrow> ps_PowerMaxClients (w_service (apply_update u w)) = ps_PowerMaxClients (w_service w)"
  by (cases u) (simp_all add: updateMaxConnections_keeps)

lemma settled_step: "clients_settled cm l \<Longrightarrow> settle_step collects ty l l' \<Longrightarrow> clients_settled cm l'"
proof (erule settle_stepE)
  fix h u us assume l: "clients_settled cm l" and u: "lv_changes l h = u # us"
    and l': "l' = l\<lparr>lv_world := apply_update u (lv_world l), lv_changes := (lv_changes l)(h := us)\<rparr>"
  have "list_all (\<lambda>u. \<not> sets_clients u) (u # us)" using l unfolding clients_settled_def u [symmetric] by blast
  with l show "clients_settled cm l'" by (simp add: clients_settled_def update_clients l')
qed (auto simp: clients_settled_def elim: export_moveE)

lemma settled_run: "(settle_step collects ty)\<^sup>*\<^sup>* l l' \<Longrightarrow> clients_settled cm l \<Longrightarrow> clients_settled cm l'"
  by (induction rule: rtranclp_induct) (auto intro: settled_step)

text \<open>
  C33. A reload of the configuration file can undo a later change of a secret for good. From any state in which no change is under way: the
  watcher begins a reload that gets the arrays \<open>old\<close>; then a secret changes, and its handler gets and sets the newer arrays \<open>new\<close>; then
  the watcher goes on and sets \<open>old\<close>. From there, as long as no further change begins, the service keeps \<open>old\<close> in every
  continuation, whatever the reload has still to assign and whatever is exported meanwhile.
\<close>

theorem stale_connection_wins:
  assumes "connection (Inr old)" and "connection (Inr new)" and "\<forall>h. lv_changes l h = []"
  shows "\<exists>l1 l2 l3 l4. live_step collects ty l l1 \<and> lv_changes l1 Config_watcher = updates_of (Config_file get (Inr old)) \<and>
    live_step collects ty l1 l2 \<and> lv_changes l2 Secret_informer = updates_of (Secret (Inr new)) \<and>
    live_step collects ty l2 l3 \<and> lv_changes l3 Secret_informer = [] \<and>
      ps_PowerMaxClients (lv_service l3) = Some (copy_clients [] new) \<and>
    live_step collects ty l3 l4 \<and> ps_PowerMaxClients (lv_service l4) = Some (copy_clients [] old) \<and>
    (\<forall>l5. (settle_step collects ty)\<^sup>*\<^sup>* l4 l5 \<longrightarrow> ps_PowerMaxClients (lv_service l5) = Some (copy_clients [] old))"
proof -
  let ?o = "Set_clients (Inr old)" and ?n = "Set_clients (Inr new)"
  let ?f = "Config_file get (Inr old)" and ?s = "Secret (Inr new)"
  let ?l1 = "l\<lparr>lv_changes := (lv_changes l)(Config_watcher := updates_of ?f)\<rparr>"
  let ?l2 = "?l1\<lparr>lv_changes := (lv_changes ?l1)(Secret_informer := [?n])\<rparr>"
  let ?l3 = "?l2\<lparr>lv_world := apply_update ?n (lv_world ?l2), lv_changes := (lv_changes ?l2)(Secret_informer := [])\<rparr>"
  let ?l4 = "?l3\<lparr>lv_world := apply_update ?o (lv_world ?l3),
    lv_changes := (lv_changes ?l3)(Config_watcher := tl (updates_of ?f))\<rparr>"
  have s1: "live_step collects ty l ?l1"
    using live_step.start_change [of ?f l collects ty] assms(1,3) by simp
  have s2: "live_step collects ty ?l1 ?l2"
    using live_step.start_change [of ?s ?l1 collects ty] assms(2,3) by simp
  have s3: "live_step collects ty ?l2 ?l3"
    by (rule live_step.settle, rule settle_step.update) simp
  have s4: "live_step collects ty ?l3 ?l4"
    by (rule live_step.settle, rule settle_step.update) simp
  have "lv_changes ?l4 h = (if h = Config_watcher then tl (updates_of ?f) else [])" for h
    using assms(3) by (cases h) simp_all
  then have "clients_settled (copy_clients [] old) ?l4"
    by (simp add: clients_settled_def world_update)
  then have after: "\<forall>l5. (settle_step collects ty)\<^sup>*\<^sup>* ?l4 l5 \<longrightarrow> ps_PowerMaxClients (lv_service l5) = Some (copy_clients [] old)"
    using settled_run clients_settled_def by blast
  show ?thesis
    by (rule exI [of _ ?l1], rule exI [of _ ?l2], rule exI [of _ ?l3], rule exI [of _ ?l4], intro conjI s1 s2 s3 s4 after)
      (simp_all add: world_update)
qed

theorem stale_connection_wins_witness:
  "\<exists>l l'. live_step {capacity_Collect} [] l l' \<and> ps_PowerMaxClients (lv_service l) = Some [(''0257'', [sample_array])] \<and>
     (\<forall>l5. (settle_step {capacity_Collect} [])\<^sup>*\<^sup>* l' l5 \<longrightarrow> ps_PowerMaxClients (lv_service l5) = Some [])"
proof -
  have "\<forall>h. lv_changes (new_live sample_world) h = []" by (simp add: new_live_def)
  from stale_connection_wins [OF unreachable_connection sample_connection this, of "{capacity_Collect}" "[]"]
  obtain l l' where "live_step {capacity_Collect} [] l l'"
    "ps_PowerMaxClients (lv_service l) = Some (copy_clients [] [(''0257'', [sample_array])])"
    "\<forall>l5. (settle_step {capacity_Collect} [])\<^sup>*\<^sup>* l' l5 \<longrightarrow> ps_PowerMaxClients (lv_service l5) = Some (copy_clients [] [])"
    by blast
  then show ?thesis by (intro exI [of _ l] exI [of _ l']) simp
qed

end
