(* ===== verification/Reloads.thy ===== *)
theory Reloads
  imports Overlap
begin

section \<open>The main loop amid reloads\<close>

text \<open>
  The fields of \<open>Config\<close> are assigned one by one and without the lock that \<open>GetTickIntervals\<close> takes, so a turn of the main loop
  may read them in the middle of a reload, each at another moment. The theory \<open>Overlap\<close> has the assignments;
  here are the turns that read what it leaves.
\<close>

text \<open>The setting of a kind, and the updates that cannot make an interval non-positive.\<close>

fun frequency_key :: "kind \<Rightarrow> string" where
  "frequency_key Capacity_kind = ''POWERMAX_CAPACITY_POLL_FREQUENCY''"
| "frequency_key Performance_kind = ''POWERMAX_PERFORMANCE_POLL_FREQUENCY''"
| "frequency_key Topology_kind = ''POWERMAX_TOPOLOGY_METRICS_POLL_FREQUENCY''"

fun safe_update :: "update \<Rightarrow> bool" where
  "safe_update (Set_interval k get) = safe_setting (get (frequency_key k))"
| "safe_update _ = True"

text \<open>A step after which every change under way is safe.\<close>

definition safe_step ::
  "(base_metrics \<Rightarrow> 'o result \<Rightarrow> bool) set \<Rightarrow> string \<Rightarrow> live \<Rightarrow> live \<Rightarrow> bool" where
  "safe_step collects typeName l l' \<longleftrightarrow>
     live_step collects typeName l l' \<and> (\<forall>h. list_all safe_update (lv_changes l' h))"

definition intervals_safe :: "live \<Rightarrow> bool" where
  "intervals_safe l \<longleftrightarrow> positive_intervals (w_config (lv_world l)) \<and> (\<forall>h. list_all safe_update (lv_changes l h))"

lemma set_enabled_intervals [simp]:
  "cfg_CapacityTickInterval (set_enabled k new c) = cfg_CapacityTickInterval c"
  "cfg_PerformanceTickInterval (set_enabled k new c) = cfg_PerformanceTickInterval c"
  "cfg_TopologyMetricsTickInterval (set_enabled k new c) = cfg_TopologyMetricsTickInterval c"
  by (cases k; simp)+

lemma address_intervals [simp]:
  "cfg_CapacityTickInterval (fst (updateCollectorAddress get ce)) = cfg_CapacityTickInterval (fst ce)"
  "cfg_PerformanceTickInterval (fst (updateCollectorAddress get ce)) = cfg_PerformanceTickInterval (fst ce)"
  "cfg_TopologyMetricsTickInterval (fst (updateCollectorAddress get ce)) = cfg_TopologyMetricsTickInterval (fst ce)"
  by (simp_all add: updateCollectorAddress_def Let_def)

lemma update_positive:
  assumes "positive_intervals (w_config w)" and "safe_update u"
  shows "positive_intervals (w_config (apply_update u w))"
proof (cases u)
  case (Set_interval k get)
  then show ?thesis
    using assms by (cases k) (auto simp: positive_intervals_def updateTickIntervals_def safe_setting_positive)
qed (use assms(1) in \<open>simp_all add: positive_intervals_def\<close>)

lemma settle_intervals:
  assumes "intervals_safe l" and "settle_step collects ty l l'"
  shows "positive_intervals (w_config (lv_world l'))"
  using assms(2)
proof (cases rule: settle_step.cases)
  case (update h u us)
  have "list_all safe_update (u # us)" using assms(1) unfolding intervals_safe_def update(2) [symmetric] by blast
  with assms(1) show ?thesis by (simp add: intervals_safe_def update update_positive)
next
  case (export collect a)
  then show ?thesis using assms(1) by (auto simp: intervals_safe_def elim: export_moveE)
qed (use assms(1) in \<open>simp add: intervals_safe_def\<close>)

lemma safe_step_intervals: "intervals_safe l \<Longrightarrow> safe_step collects ty l l' \<Longrightarrow> intervals_safe l'"
  unfolding safe_step_def
  by (elim conjE, erule live_stepE) (auto simp: settle_intervals intervals_safe_def)

interpretation safe_reloads: invariant_system
  "\<lambda>l. \<exists>w. positive_intervals (w_config w) \<and> l = new_live w" "safe_step collects ty" intervals_safe
  for collects ty
proof unfold_locales
  show "\<exists>w. positive_intervals (w_config w) \<and> l = new_live w \<Longrightarrow> intervals_safe l" for l
    by (auto simp: intervals_safe_def new_live_def)
qed (rule safe_step_intervals)

text \<open>A handler can go on with its change by any number of updates.\<close>

lemma updates_run:
  "lv_changes l h = us @ vs \<Longrightarrow> \<forall>h. list_all safe_update (lv_changes l h) \<Longrightarrow>
   (safe_step collects ty)\<^sup>*\<^sup>* l
     (l\<lparr>lv_world := foldl (\<lambda>w u. apply_update u w) (lv_world l) us, lv_changes := (lv_changes l)(h := vs)\<rparr>)"
proof (induction us arbitrary: l)
  case Nil
  then have "l\<lparr>lv_world := lv_world l, lv_changes := (lv_changes l)(h := vs)\<rparr> = l" by (intro live.equality) auto
  then show ?case by (simp only: foldl_Nil rtranclp.rtrancl_refl)
next
  case (Cons u us)
  let ?l = "l\<lparr>lv_world := apply_update u (lv_world l), lv_changes := (lv_changes l)(h := us @ vs)\<rparr>"
  have "live_step collects ty l ?l" using Cons.prems(1) by (intro live_step.settle settle_step.update) simp
  moreover have safe: "\<forall>h. list_all safe_update (lv_changes ?l h)"
    using Cons.prems(2) spec [OF Cons.prems(2), of h] unfolding Cons.prems(1) by simp
  ultimately have "safe_step collects ty l ?l" by (simp add: safe_step_def)
  moreover have "(safe_step collects ty)\<^sup>*\<^sup>* ?l
      (?l\<lparr>lv_world := foldl (\<lambda>w u. apply_update u w) (lv_world ?l) us, lv_changes := (lv_changes ?l)(h := vs)\<rparr>)"
    by (rule Cons.IH [OF _ safe]) simp
  moreover have "?l\<lparr>lv_world := foldl (\<lambda>w u. apply_update u w) (lv_world ?l) us, lv_changes := (lv_changes ?l)(h := vs)\<rparr> =
      l\<lparr>lv_world := foldl (\<lambda>w u. apply_update u w) (lv_world l) (u # us), lv_changes := (lv_changes l)(h := vs)\<rparr>"
    by (intro live.equality) simp_all
  ultimately show ?case by (simp only: converse_rtranclp_into_rtranclp)
qed

lemma change_runs:
  assumes "honest_change ch" and "list_all safe_update (updates_of ch)"
  shows "(safe_step collects ty)\<^sup>*\<^sup>* (new_live w) ((new_live w)\<lparr>lv_world := apply_change ch w\<rparr>)"
proof -
  let ?h = "handler_of ch"
  let ?l = "(new_live w)\<lparr>lv_changes := (\<lambda>_. [])(?h := updates_of ch)\<rparr>"
  have "live_step collects ty (new_live w) ?l"
    using live_step.start_change [OF assms(1), of "new_live w" collects ty] by (simp add: new_live_def)
  then have "safe_step collects ty (new_live w) ?l" using assms(2) by (simp add: safe_step_def)
  moreover have "(safe_step collects ty)\<^sup>*\<^sup>* ?l
      (?l\<lparr>lv_world := foldl (\<lambda>w u. apply_update u w) (lv_world ?l) (updates_of ch), lv_changes := (lv_changes ?l)(?h := [])\<rparr>)"
    by (rule updates_run) (use assms(2) in simp_all)
  ultimately show ?thesis by (simp add: converse_rtranclp_into_rtranclp updates_of_change new_live_def fun_upd_idem)
qed

text \<open>A configuration as a turn may read it: each interval as it was in some state that satisfies \<open>R\<close>.\<close>

definition read_from :: "(live \<Rightarrow> bool) \<Rightarrow> config \<Rightarrow> bool" where
  "read_from R c \<longleftrightarrow>
     (\<exists>l. R l \<and> cfg_CapacityTickInterval c = cfg_CapacityTickInterval (w_config (lv_world l))) \<and>
     (\<exists>l. R l \<and> cfg_PerformanceTickInterval c = cfg_PerformanceTickInterval (w_config (lv_world l))) \<and>
     (\<exists>l. R l \<and> cfg_TopologyMetricsTickInterval c = cfg_TopologyMetricsTickInterval (w_config (lv_world l)))"

lemma read_positive:
  assumes "positive_intervals (w_config w0)" and "read_from (\<lambda>l. (safe_step collects ty)\<^sup>*\<^sup>* (new_live w0) l) c"
  shows "positive_intervals c"
proof -
  have pos: "positive_intervals (w_config (lv_world l))" if "(safe_step collects ty)\<^sup>*\<^sup>* (new_live w0) l" for l
    using safe_reloads.reachable_inv [OF exI [of _ w0] that] assms(1) by (simp add: intervals_safe_def)
  then show ?thesis using assms(2) unfolding read_from_def positive_intervals_def by metis
qed

text \<open>
  C35. Reloads cannot make the main loop panic in the middle of an update either: with settings at the start that
  pass the validation and any number of changes whose frequencies are malformed or positive numbers of seconds that fit, a change of the
  file and one of a secret may be under way at once, interleaved assignment by assignment, and a turn may read each interval at another
  moment; no turn of any run panics on an interval, and the error and cancellation results of \<open>Run\<close> are those of its events alone.
\<close>

theorem overlapping_reloads_never_panic:
  assumes "run_start (Some (w_config w0)) = Running st"
    and "\<forall>(c, e)\<in>set turns. read_from (\<lambda>l. (safe_step collects ty)\<^sup>*\<^sup>* (new_live w0) l) c"
  shows "(\<forall>msg. snd (run (Some (w_config w0)) turns) \<noteq> Panicked msg) \<and>
    (case run_result False (map snd turns) of
       Some r \<Rightarrow> snd (run (Some (w_config w0)) turns) = Returned r
     | None \<Rightarrow> \<exists>st'. snd (run (Some (w_config w0)) turns) = Running st')"
proof -
  have "positive_intervals (w_config w0)"
    using run_start_Running [OF assms(1)] by (auto intro!: valid_positive simp: ValidateConfig_iff)
  then have "list_all (\<lambda>(c, e). positive_intervals c) turns"
    using assms(2) read_positive by (fastforce simp: list_all_iff)
  with assms(1) have "case run_result False (map snd turns) of
       Some r \<Rightarrow> snd (run (Some (w_config w0)) turns) = Returned r
     | None \<Rightarrow> \<exists>st'. snd (run (Some (w_config w0)) turns) = Running st'"
    by (rule run_ends_with)
  then show ?thesis by (auto split: option.splits)
qed

text \<open>A reload of the capacity frequency, read half-way: the other intervals are still those of the start.\<close>

definition half_minute :: "string \<Rightarrow> string" where
  "half_minute k = (if k = ''POWERMAX_CAPACITY_POLL_FREQUENCY'' then ''30'' else [])"

theorem overlapping_reloads_never_panic_witness:
  "let c = (w_config sample_world)\<lparr>cfg_CapacityTickInterval := 30 * second\<rparr>
   in snd (run (Some (w_config sample_world)) [(c, Liveness_tick)]) \<noteq> Panicked ''non-positive interval for NewTicker''"
proof -
  let ?ch = "Config_file half_minute (Inr [(''0257'', [sample_array])])"
  let ?c = "(w_config sample_world)\<lparr>cfg_CapacityTickInterval := 30 * second\<rparr>"
  let ?R = "\<lambda>l. (safe_step ({} :: (base_metrics \<Rightarrow> unit result \<Rightarrow> bool) set) [])\<^sup>*\<^sup>* (new_live sample_world) l"
  let ?l = "(new_live sample_world)\<lparr>lv_world := apply_change ?ch sample_world\<rparr>"
  have atoi: "Atoi ''30'' = Inr 30" "Atoi [] = Inl (Err ''invalid syntax'')"
    by (simp_all add: Atoi_def is_digit_def digits_val_def in_int64_def)
  then have "list_all safe_update (updates_of ?ch)" by (simp add: safe_setting_def half_minute_def)
  then have l: "?R ?l" using sample_connection by (intro change_runs) simp_all
  have "cfg_CapacityTickInterval (w_config (lv_world ?l)) = 30 * second"
    by (simp add: onChangeUpdate_intervals half_minute_def tick_interval_def atoi)
  then have "\<exists>l. ?R l \<and> cfg_CapacityTickInterval ?c = cfg_CapacityTickInterval (w_config (lv_world l))"
    using l by (intro exI [of _ ?l]) simp
  moreover have "\<exists>l. ?R l \<and> cfg_PerformanceTickInterval ?c = cfg_PerformanceTickInterval (w_config (lv_world l))"
    and "\<exists>l. ?R l \<and> cfg_TopologyMetricsTickInterval ?c = cfg_TopologyMetricsTickInterval (w_config (lv_world l))"
    by (intro exI [of _ "new_live sample_world"] conjI; simp add: new_live_def)+
  ultimately have "read_from ?R ?c" unfolding read_from_def by (intro conjI)
  then show ?thesis
    using overlapping_reloads_never_panic [OF sample_start, of "[(?c, Liveness_tick)]" "{} :: (base_metrics \<Rightarrow> unit result \<Rightarrow> bool) set" "[]"] by (simp add: Let_def)
qed

end
