(* ===== verification/Observations.thy ===== *)
theory Observations
  imports System Recorder
begin

section \<open>From the recorder's calls to what is observed\<close>

text \<open>
  The recorder that \<open>configure\<close> installs is \<open>MetricsRecorderWrapper\<close>: each call of \<open>RecordNumericMetrics\<close>
  observes three values in every collection cycle until it is woken. This theory follows the calls of a
  capacity export to the observations that the OpenTelemetry reader gets from them.
\<close>

text \<open>A meter whose instruments can be created, have a name each, and take callbacks.\<close>

definition working_meter :: "'i meter \<Rightarrow> (string \<Rightarrow> 'i) \<Rightarrow> bool" where
  "working_meter meter c \<longleftrightarrow> (\<forall>n. Float64ObservableUpDownCounter meter n = Inr (c n)) \<and>
     (\<forall>is. RegisterCallback meter is = Inr ()) \<and> inj c"

definition call_observations :: "'i meter \<Rightarrow> nat \<Rightarrow> capacity_call \<Rightarrow> 'i observation list" where
  "call_observations meter cycles call =
     (case call of (p, ls, r) \<Rightarrow>
        (case mrw_RecordNumericMetrics meter cycles p ls r of Some (Inr obs) \<Rightarrow> obs | _ \<Rightarrow> []))"

definition three_observations :: "(string \<Rightarrow> 'i) \<Rightarrow> string \<Rightarrow> label list \<Rightarrow> capacity_record \<Rightarrow> 'i observation list" where
  "three_observations c prefix ls r =
     [(Some (c (prefix @ ''total_capacity_gigabytes'')), cr_Total r, ls),
      (Some (c (prefix @ ''used_capacity_gigabytes'')), cr_Used r, ls),
      (Some (c (prefix @ ''used_capacity_percentage'')), f64_div (f64_mul (cr_Used r) (f64_of_int 100)) (cr_Total r), ls)]"

lemma call_observations_eq:
  assumes "working_meter meter c"
  shows "call_observations meter cycles (p, ls, r) = concat (replicate cycles (three_observations c p ls r))"
proof (cases cycles)
  case 0
  then show ?thesis
    using conjunct2 [OF numeric_observations [of meter c cycles p ls r]] assms
    by (simp add: call_observations_def working_meter_def)
next
  case (Suc n)
  then show ?thesis
    using conjunct1 [OF numeric_observations [of meter c n p ls r]] assms
    by (simp add: call_observations_def working_meter_def three_observations_def)
qed

text \<open>The instruments of the five families are pairwise different.\<close>

definition array_instruments :: "(string \<Rightarrow> 'i) \<Rightarrow> 'i option list" where
  "array_instruments c = map (\<lambda>n. Some (c (''powermax_array_'' @ n))) capacity_instruments"

lemma other_family:
  assumes "inj c" and "p \<in> set (map fst capacity_schema)" and "p \<noteq> ''powermax_array_''"
  shows "filter (\<lambda>(i, v, ls). i \<in> set (array_instruments c) \<and> P ls) (three_observations c p ls r) = []"
  using assms(2,3)
  by (auto simp: capacity_schema_def array_instruments_def capacity_instruments_def three_observations_def
      inj_eq [OF assms(1)])

lemma own_family:
  "filter (\<lambda>(i, v, ls). i \<in> set (array_instruments c) \<and> P ls) (three_observations c ''powermax_array_'' ls r) =
     (if P ls then three_observations c ''powermax_array_'' ls r else [])"
  by (simp add: array_instruments_def capacity_instruments_def three_observations_def)

lemma filter_concat_replicate: "filter P (concat (replicate n xs)) = concat (replicate n (filter P xs))"
  by (induction n) simp_all

lemma pushed_shape:
  assumes "pushCapacityMetrics rec rs (calls, ids)" and "(p, ls, r) \<in> set calls"
  shows "p \<in> set (map fst capacity_schema)" and "p = ''powermax_array_'' \<Longrightarrow> ls = array_labels r"
proof -
  obtain tasks where t: "push_tasks (capacity_sums_of rs) tasks" and c: "mset calls = mset (map fst tasks)"
    using assms(1) by (auto simp: pushCapacityMetrics_def)
  then obtain i where i: "((p, ls, r), i) \<in> set tasks" using assms(2) mset_eq_setD [OF c] by force
  show "p \<in> set (map fst capacity_schema)"
    using t i by (auto simp: push_tasks_def level_tasks_def capacity_schema_def)
  show "p = ''powermax_array_'' \<Longrightarrow> ls = array_labels r"
    using t i by (auto simp: push_tasks_def level_tasks_def)
qed

lemma array_observations:
  assumes "working_meter meter c"
    and "\<And>p ls r. (p, ls, r) \<in> set calls \<Longrightarrow>
      p \<in> set (map fst capacity_schema) \<and> (p = ''powermax_array_'' \<longrightarrow> ls = array_labels r)"
  shows "filter (\<lambda>(i, v, ls). i \<in> set (array_instruments c) \<and> (''ArrayID'', a) \<in> set ls)
      (concat (map (call_observations meter cycles) calls)) =
    concat (map (\<lambda>(p, ls, r). concat (replicate cycles (three_observations c p ls r)))
      (calls_for ''powermax_array_'' (\<lambda>r. cr_ArrayID r = a) calls))"
  using assms(2)
proof (induction calls)
  case Nil
  then show ?case by (simp add: calls_for_def)
next
  case (Cons call calls)
  obtain p ls r where call: "call = (p, ls, r)" by (cases call)
  have shape: "p \<in> set (map fst capacity_schema)" "p = ''powermax_array_'' \<Longrightarrow> ls = array_labels r"
    using Cons.prems [of p ls r] by (simp_all add: call)
  have inj: "inj c" using assms(1) by (simp add: working_meter_def)
  have rest: "filter (\<lambda>(i, v, ls). i \<in> set (array_instruments c) \<and> (''ArrayID'', a) \<in> set ls)
      (concat (map (call_observations meter cycles) calls)) =
    concat (map (\<lambda>(p, ls, r). concat (replicate cycles (three_observations c p ls r)))
      (calls_for ''powermax_array_'' (\<lambda>r. cr_ArrayID r = a) calls))"
    by (rule Cons.IH) (use Cons.prems in auto)
  have mine: "filter (\<lambda>(i, v, ls). i \<in> set (array_instruments c) \<and> (''ArrayID'', a) \<in> set ls)
      (call_observations meter cycles call) =
    (if p = ''powermax_array_'' \<and> cr_ArrayID r = a then concat (replicate cycles (three_observations c p ls r)) else [])"
  proof (cases "p = ''powermax_array_''")
    case True
    then show ?thesis
      using shape(2) own_family [of c "\<lambda>ls. (''ArrayID'', a) \<in> set ls" ls r]
      by (auto simp: call call_observations_eq [OF assms(1)] filter_concat_replicate array_labels_def)
  next
    case False
    then show ?thesis
      using other_family [OF inj shape(1) False, of "\<lambda>ls. (''ArrayID'', a) \<in> set ls" ls r]
      by (simp add: call call_observations_eq [OF assms(1)] filter_concat_replicate)
  qed
  show ?case using rest mine by (simp add: calls_for_def call)
qed

text \<open>
  C4. What the reader sees of an array, from the volumes and the arrays' answers to the observed values: in every
  collection cycle the three instruments of the array family give, for the array's label, the sum of
  the totals and of the used capacities of the volumes' own records and the percentage of these sums, once; and
  nothing when no volume has a record. Some handle names an array, and the meter can create the instruments.
\<close>

theorem array_observed:
  assumes "ExportCapacityMetrics ord s (Inr pvs) t inst (Inr (calls, ids)) obs inst'"
    and "\<not> list_all (\<lambda>v. handle_array_id (vi_VolumeHandle v) = None) pvs" and "CHR ''-'' \<notin> set a"
    and "working_meter meter c"
  shows "\<exists>rs. mset rs = mset (List.map_filter (volume_capacity (collector_base s inst)) pvs) \<and>
    filter (\<lambda>(i, v, ls). i \<in> set (array_instruments c) \<and> (''ArrayID'', a) \<in> set ls)
      (concat (map (call_observations meter cycles) calls)) =
    (case group_sum (filter (\<lambda>r. cr_ArrayID r = a) rs) of
       None \<Rightarrow> []
     | Some s \<Rightarrow> concat (replicate cycles (three_observations c ''powermax_array_'' (array_labels s) s)))"
proof -
  obtain rs where rs: "mset rs = mset (List.map_filter (volume_capacity (collector_base s inst)) pvs)"
    and free: "dash_free rs" and push: "(\<exists>rec. pushCapacityMetrics rec rs (calls, ids)) \<or> rs = [] \<and> calls = []"
    using assms(1,2) by (rule capacity_export_gathered)
  have shape: "p \<in> set (map fst capacity_schema) \<and> (p = ''powermax_array_'' \<longrightarrow> ls = array_labels r)"
    if "(p, ls, r) \<in> set calls" for p ls r
    using push that by (auto dest: pushed_shape simp del: set_map)
  have "calls_for ''powermax_array_'' (\<lambda>r. cr_ArrayID r = a) calls =
      group_call ''powermax_array_'' array_labels (\<lambda>r. cr_ArrayID r = a) rs"
    by (rule pushed_levels(4) [OF free assms(3) push])
  with array_observations [OF assms(4) shape, where a = a and cycles = cycles]
  show ?thesis using rs by (intro exI [of _ rs]) (simp add: group_call_def split: option.splits)
qed

lemma string_meter_works: "working_meter string_meter (\<lambda>n. n)"
  by (simp add: working_meter_def string_meter_def inj_def)

theorem array_observed_witness:
  "\<exists>calls ids obs inst r. ExportCapacityMetrics (\<lambda>m. m) sample_service (Inr [sample_volume]) 0 None (Inr (calls, ids)) obs inst \<and>
     cr_Total r = Fin 8 \<and> cr_Used r = Fin 2 \<and>
     filter (\<lambda>(i, v, ls). i \<in> set (array_instruments (\<lambda>n. n)) \<and> (''ArrayID'', ''0257'') \<in> set ls)
       (concat (map (call_observations string_meter 1) calls)) =
     three_observations (\<lambda>n. n) ''powermax_array_'' (array_labels r) r"
proof -
  let ?r = "capacity_record_of ''0257'' ''00822'' sample_volume (Fin 8) (Fin 2) (bulk_used_percent (hd sample_bulk))"
  obtain calls ids obs inst where e:
    "ExportCapacityMetrics (\<lambda>m. m) sample_service (Inr [sample_volume]) 0 None (Inr (calls, ids)) obs inst"
    using sample_export by blast
  have "CHR ''-'' \<notin> set ''0257''" by simp
  from array_observed [OF e sample_named this string_meter_works, of 1]
  obtain rs where rs: "mset rs = mset (List.map_filter (volume_capacity
      (sample_base :: base_metrics)) [sample_volume])"
    and obs: "filter (\<lambda>(i, v, ls). i \<in> set (array_instruments (\<lambda>n. n)) \<and> (''ArrayID'', ''0257'') \<in> set ls)
       (concat (map (call_observations string_meter 1) calls)) =
      (case group_sum (filter (\<lambda>r. cr_ArrayID r = ''0257'') rs) of
         None \<Rightarrow> []
       | Some s \<Rightarrow> concat (replicate 1 (three_observations (\<lambda>n. n) ''powermax_array_'' (array_labels s) s)))"
    unfolding sample_collector_base by blast
  have "rs = [?r]" using rs by (simp add: sample_capacity)
  then have grp: "group_sum (filter (\<lambda>r. cr_ArrayID r = ''0257'') rs) = Some ?r"
    by (simp add: group_sum_def capacity_record_of_def)
  have "filter (\<lambda>(i, v, ls). i \<in> set (array_instruments (\<lambda>n. n)) \<and> (''ArrayID'', ''0257'') \<in> set ls)
      (concat (map (call_observations string_meter 1) calls)) =
      three_observations (\<lambda>n. n) ''powermax_array_'' (array_labels ?r) ?r"
    unfolding obs by (simp add: grp)
  moreover have "cr_Total ?r = Fin 8" "cr_Used ?r = Fin 2" by (simp_all add: capacity_record_of_def)
  ultimately show ?thesis using e by blast
qed

end
