(* ===== verification/Callbacks.thy ===== *)
theory Callbacks
  imports Recorder
begin

section \<open>Callbacks, collection cycles and blocked goroutines\<close>

text \<open>
  Every record call of \<open>metrics_recorder_wrapper.go\<close> registers a callback and blocks on an unbuffered channel
  \<open>done\<close>. A collection cycle of the reader runs every registered callback; the callback observes its values and
  starts a goroutine that sends on \<open>done\<close>. The call wakes up by receiving one of these sends and unregisters
  its callback. Between the first cycle and the unregistration further cycles may run: each starts one
  more goroutine, which nobody receives from. The theory \<open>Recorder\<close> gives the outcome of one call for a number of
  cycles; here the calls, the reader and the goroutines run concurrently.
\<close>

datatype phase = Blocked | Woken | Unregistered

record 'i recording =
  rc_values :: "'i observation list" \<comment> \<open>what the callback observes in one cycle\<close>
  rc_phase :: phase
  rc_cycles :: nat                  \<comment> \<open>cycles that ran the callback\<close>
  rc_senders :: nat                 \<comment> \<open>goroutines blocked at \<open>done <- struct{}{}\<close>\<close>
  rc_observed :: "'i observation list"

definition new_recording :: "'i observation list \<Rightarrow> 'i recording" where
  "new_recording vals =
     \<lparr>rc_values = vals, rc_phase = Blocked, rc_cycles = 0, rc_senders = 0, rc_observed = []\<rparr>"

definition run_callback :: "'i recording \<Rightarrow> 'i recording" where
  "run_callback r =
     (if rc_phase r = Unregistered then r
      else r\<lparr>rc_cycles := Suc (rc_cycles r), rc_senders := Suc (rc_senders r),
             rc_observed := rc_observed r @ rc_values r\<rparr>)"

text \<open>The state is the list of all calls made so far; a cycle runs the callbacks that are registered.\<close>

inductive recording_step :: "'i recording list \<Rightarrow> 'i recording list \<Rightarrow> bool" where
  register: "recording_step rs (rs @ [new_recording vals])"
| cycle: "recording_step rs (map run_callback rs)"
| wake: "rs = us @ r # vs \<Longrightarrow> rc_phase r = Blocked \<Longrightarrow> rc_senders r = Suc n \<Longrightarrow>
    recording_step rs (us @ r\<lparr>rc_phase := Woken, rc_senders := n\<rparr> # vs)"
| unregister: "rs = us @ r # vs \<Longrightarrow> rc_phase r = Woken \<Longrightarrow>
    recording_step rs (us @ r\<lparr>rc_phase := Unregistered\<rparr> # vs)"

subsection \<open>What a call has seen\<close>

definition recording_ok :: "'i recording \<Rightarrow> bool" where
  "recording_ok r \<longleftrightarrow> rc_observed r = concat (replicate (rc_cycles r) (rc_values r)) \<and>
     rc_cycles r = rc_senders r + (if rc_phase r = Blocked then 0 else 1)"

lemma new_recording_ok: "recording_ok (new_recording vals)"
  by (simp add: recording_ok_def new_recording_def)

lemma concat_replicate_snoc: "concat (replicate n xs) @ xs = concat (replicate (Suc n) xs)"
  by (induction n) simp_all

lemma run_callback_ok: "recording_ok r \<Longrightarrow> recording_ok (run_callback r)"
  by (simp add: recording_ok_def run_callback_def concat_replicate_snoc del: replicate_Suc)

lemma woken_ok:
  "recording_ok r \<Longrightarrow> rc_phase r = Blocked \<Longrightarrow> rc_senders r = Suc n \<Longrightarrow>
     recording_ok (r\<lparr>rc_phase := Woken, rc_senders := n\<rparr>)"
  by (simp add: recording_ok_def)

lemma unregistered_ok: "recording_ok r \<Longrightarrow> rc_phase r = Woken \<Longrightarrow> recording_ok (r\<lparr>rc_phase := Unregistered\<rparr>)"
  by (simp add: recording_ok_def)

lemma recording_step_ok:
  assumes "list_all recording_ok rs" and "recording_step rs ts"
  shows "list_all recording_ok ts"
  using assms(2,1)
proof (cases rule: recording_step.cases)
  case (register vals)
  with assms(1) show ?thesis by (simp add: new_recording_ok)
next
  case cycle
  with assms(1) show ?thesis by (auto simp: list_all_iff run_callback_ok)
next
  case (wake us r vs n)
  with assms(1) show ?thesis by (simp add: woken_ok)
next
  case (unregister us r vs)
  with assms(1) show ?thesis by (simp add: unregistered_ok)
qed

interpretation recordings: invariant_system "\<lambda>rs. rs = []" recording_step "list_all recording_ok"
  by unfold_locales (auto intro: recording_step_ok)

lemma reachable_recording_ok: "recording_step\<^sup>*\<^sup>* [] rs \<Longrightarrow> r \<in> set rs \<Longrightarrow> recording_ok r"
  using recordings.reachable_inv [OF refl] by (auto simp: list_all_iff)

lemma no_cycle_observed_iff:
  "recording_ok r \<Longrightarrow> rc_cycles r = 0 \<longleftrightarrow> rc_phase r = Blocked \<and> rc_senders r = 0"
  by (simp add: recording_ok_def)

lemma observe_until_done_recording:
  assumes "recording_ok r" and "rc_values r = map (\<lambda>(i, v). (i, v, labels)) (zip is vals)"
    and "RegisterCallback meter is = Inr ()"
  shows "observe_until_done meter (rc_cycles r) is vals labels =
    (if rc_cycles r = 0 then None else Some (Inr (rc_observed r)))"
  using assms by (simp add: observe_until_done_def recording_ok_def)

text \<open>
  C14. The concurrent record calls implement the outcome that the recorder's functions state for one call. Take
  a call that observes the values \<open>vals\<close> of the instruments \<open>is\<close>: once it has been woken, the outcome of
  \<open>observe_until_done\<close> for the number of cycles that ran its callback is exactly what the reader observed
  from it, and for every cycle but one a goroutine stays blocked on its channel; and the outcome
  is "does not return" exactly while the call is blocked with no goroutine that could wake it. This holds
  in every interleaving of registrations, cycles, wake-ups and unregistrations.
\<close>

theorem finished_calls_observed:
  assumes "recording_step\<^sup>*\<^sup>* [] rs" and "r \<in> set rs"
    and "rc_values r = map (\<lambda>(i, v). (i, v, labels)) (zip is vals)" and "RegisterCallback meter is = Inr ()"
  shows "(rc_phase r \<noteq> Blocked \<longrightarrow>
      observe_until_done meter (rc_cycles r) is vals labels = Some (Inr (rc_observed r)) \<and>
      rc_cycles r = Suc (rc_senders r)) \<and>
    (observe_until_done meter (rc_cycles r) is vals labels = None \<longleftrightarrow> rc_phase r = Blocked \<and> rc_senders r = 0)"
proof -
  have ok: "recording_ok r" using assms(1,2) by (rule reachable_recording_ok)
  note outcome = observe_until_done_recording [OF ok assms(3,4)]
  have "rc_phase r \<noteq> Blocked \<longrightarrow> rc_cycles r = Suc (rc_senders r)" using ok by (simp add: recording_ok_def)
  then show ?thesis using outcome no_cycle_observed_iff [OF ok] by (cases "rc_phase r = Blocked") auto
qed

text \<open>A call with two values and the number of cycles that ran its callback: two before it is woken, one after.\<close>

definition sample_recording :: "phase \<Rightarrow> nat \<Rightarrow> nat \<Rightarrow> string recording" where
  "sample_recording ph cycles senders =
     \<lparr>rc_values = [(Some ''total'', Fin 4, []), (Some ''used'', Fin 1, [])], rc_phase = ph,
      rc_cycles = cycles, rc_senders = senders,
      rc_observed = concat (replicate cycles [(Some ''total'', Fin 4, []), (Some ''used'', Fin 1, [])])\<rparr>"

definition sample_meter :: "string meter" where
  "sample_meter = \<lparr>Float64ObservableUpDownCounter = (\<lambda>n. Inr n), RegisterCallback = (\<lambda>is. Inr ())\<rparr>"

lemma sample_recording_run: "recording_step\<^sup>*\<^sup>* [] [sample_recording Unregistered 3 2]"
proof -
  let ?r = sample_recording
  have "recording_step [] [?r Blocked 0 0]"
    using recording_step.register [of "[]" "rc_values (?r Blocked 0 0)"]
    by (simp add: sample_recording_def new_recording_def)
  moreover have "recording_step [?r Blocked 0 0] [?r Blocked 1 1]"
    using recording_step.cycle [of "[?r Blocked 0 0]"] by (simp add: sample_recording_def run_callback_def)
  moreover have "recording_step [?r Blocked 1 1] [?r Blocked 2 2]"
    using recording_step.cycle [of "[?r Blocked 1 1]"] by (simp add: sample_recording_def run_callback_def numeral_2_eq_2)
  moreover have "recording_step [?r Blocked 2 2] [?r Woken 2 1]"
    using recording_step.wake [of "[?r Blocked 2 2]" "[]" "?r Blocked 2 2" "[]" 1] by (simp add: sample_recording_def)
  moreover have "recording_step [?r Woken 2 1] [?r Woken 3 2]"
    using recording_step.cycle [of "[?r Woken 2 1]"]
    by (simp add: sample_recording_def run_callback_def numeral_2_eq_2 numeral_3_eq_3)
  moreover have "recording_step [?r Woken 3 2] [?r Unregistered 3 2]"
    using recording_step.unregister [of "[?r Woken 3 2]" "[]" "?r Woken 3 2" "[]"] by (simp add: sample_recording_def)
  ultimately show ?thesis by (meson converse_rtranclp_into_rtranclp rtranclp.rtrancl_refl)
qed

theorem finished_calls_observed_witness:
  "recording_step\<^sup>*\<^sup>* [] [sample_recording Unregistered 3 2] \<and>
   observe_until_done sample_meter 3 [Some ''total'', Some ''used''] [Fin 4, Fin 1] [] =
     Some (Inr (rc_observed (sample_recording Unregistered 3 2)))"
  using finished_calls_observed [OF sample_recording_run, of "sample_recording Unregistered 3 2" "[]"
      "[Some ''total'', Some ''used'']" "[Fin 4, Fin 1]" sample_meter]
  by (simp add: sample_recording_run) (simp add: sample_recording_def sample_meter_def)

subsection \<open>One cycle is enough, and needed\<close>

text \<open>Runs in which the reader is idle and no new call starts.\<close>

definition quiet_step :: "'i recording list \<Rightarrow> 'i recording list \<Rightarrow> bool" where
  "quiet_step rs ts \<longleftrightarrow> recording_step rs ts \<and> map rc_cycles ts = map rc_cycles rs"

lemma quiet_wake:
  "rc_phase r = Blocked \<Longrightarrow> rc_senders r = Suc n \<Longrightarrow>
    quiet_step (us @ r # vs) (us @ r\<lparr>rc_phase := Woken, rc_senders := n\<rparr> # vs)"
  by (simp add: quiet_step_def recording_step.wake)

lemma quiet_unregister:
  "rc_phase r = Woken \<Longrightarrow> quiet_step (us @ r # vs) (us @ r\<lparr>rc_phase := Unregistered\<rparr> # vs)"
  by (simp add: quiet_step_def recording_step.unregister)

lemma run_callback_quiet: "rc_cycles (run_callback r) = rc_cycles r \<Longrightarrow> run_callback r = r"
  by (simp add: run_callback_def split: if_splits)

lemma quiet_step_cases [consumes 1, case_names idle wake unregister]:
  assumes "quiet_step rs ts"
  obtains "ts = rs"
  | us r vs n where "rs = us @ r # vs" "ts = us @ r\<lparr>rc_phase := Woken, rc_senders := n\<rparr> # vs"
      "rc_phase r = Blocked" "rc_senders r = Suc n"
  | us r vs where "rs = us @ r # vs" "ts = us @ r\<lparr>rc_phase := Unregistered\<rparr> # vs" "rc_phase r = Woken"
proof -
  have step: "recording_step rs ts" and cycles: "map rc_cycles ts = map rc_cycles rs"
    using assms by (simp_all add: quiet_step_def)
  from step show thesis
  proof (cases rule: recording_step.cases)
    case (register vals)
    with cycles have False by simp
    then show thesis ..
  next
    case cycle
    with cycles have "map run_callback rs = rs" by (auto intro!: map_idI run_callback_quiet)
    with cycle show thesis using that(1) by simp
  next
    case wake
    then show thesis using that(2) by blast
  next
    case unregister
    then show thesis using that(3) by blast
  qed
qed

lemma quiet_frame: "quiet_step\<^sup>*\<^sup>* rs ts \<Longrightarrow> quiet_step\<^sup>*\<^sup>* (x # rs) (x # ts)"
proof (induction rule: rtranclp_induct)
  case (step ts ts')
  from step.hyps(2) show ?case
  proof (cases rule: quiet_step_cases)
    case idle
    with step.IH show ?thesis by simp
  next
    case (wake us r vs n)
    with step.IH show ?thesis using quiet_wake [of r n "x # us" vs] by (simp add: rtranclp.rtrancl_into_rtrancl)
  next
    case (unregister us r vs)
    with step.IH show ?thesis using quiet_unregister [of r "x # us" vs] by (simp add: rtranclp.rtrancl_into_rtrancl)
  qed
qed simp

definition done_by_itself :: "'i recording \<Rightarrow> 'i recording" where
  "done_by_itself r = (case rc_phase r of
     Blocked \<Rightarrow> if rc_senders r = 0 then r else r\<lparr>rc_phase := Unregistered, rc_senders := rc_senders r - 1\<rparr>
   | _ \<Rightarrow> r\<lparr>rc_phase := Unregistered\<rparr>)"

lemma quiet_head: "quiet_step\<^sup>*\<^sup>* (r # rs) (done_by_itself r # rs)"
proof (cases "rc_phase r")
  case Blocked
  show ?thesis
  proof (cases "rc_senders r")
    case 0
    with Blocked show ?thesis by (simp add: done_by_itself_def)
  next
    case (Suc n)
    let ?w = "r\<lparr>rc_phase := Woken, rc_senders := n\<rparr>"
    have "quiet_step (r # rs) (?w # rs)" using quiet_wake [of r n "[]" rs] Blocked Suc by simp
    moreover have "quiet_step (?w # rs) (?w\<lparr>rc_phase := Unregistered\<rparr> # rs)"
      using quiet_unregister [of ?w "[]" rs] by simp
    moreover have "?w\<lparr>rc_phase := Unregistered\<rparr> = done_by_itself r"
      by (rule recording.equality) (simp_all add: done_by_itself_def Blocked Suc)
    ultimately show ?thesis by (metis converse_rtranclp_into_rtranclp rtranclp.rtrancl_refl)
  qed
next
  case Woken
  then show ?thesis using quiet_unregister [of r "[]" rs] by (simp add: done_by_itself_def r_into_rtranclp)
next
  case Unregistered
  then have "done_by_itself r = r" by (simp add: done_by_itself_def)
  then show ?thesis by simp
qed

lemma quiet_all: "quiet_step\<^sup>*\<^sup>* rs (map done_by_itself rs)"
proof (induction rs)
  case (Cons r rs)
  have "quiet_step\<^sup>*\<^sup>* (r # rs) (r # map done_by_itself rs)" using Cons.IH by (rule quiet_frame)
  then show ?case using quiet_head [of r "map done_by_itself rs"] by simp
qed simp

lemma done_after_cycle: "rc_phase (done_by_itself (run_callback r)) = Unregistered"
  by (cases "rc_phase r") (simp_all add: done_by_itself_def run_callback_def)

lemma quiet_blocked:
  assumes "quiet_step rs ts" and "i < length rs" and "rc_phase (rs ! i) = Blocked" and "rc_senders (rs ! i) = 0"
  shows "length ts = length rs \<and> ts ! i = rs ! i"
  using assms(1)
proof (cases rule: quiet_step_cases)
  case idle
  then show ?thesis by simp
next
  case (wake us r vs n)
  then have "i \<noteq> length us" using assms(4) by auto
  with wake show ?thesis by (auto simp: nth_append nth_Cons')
next
  case (unregister us r vs)
  then have "i \<noteq> length us" using assms(3) by auto
  with unregister show ?thesis by (auto simp: nth_append nth_Cons')
qed

lemma quiet_blocked_run:
  "quiet_step\<^sup>*\<^sup>* rs ts \<Longrightarrow> i < length rs \<Longrightarrow> rc_phase (rs ! i) = Blocked \<Longrightarrow> rc_senders (rs ! i) = 0 \<Longrightarrow>
     length ts = length rs \<and> ts ! i = rs ! i"
proof (induction rule: rtranclp_induct)
  case (step ts ts')
  then show ?case using quiet_blocked [of ts ts' i] by simp
qed simp

text \<open>
  C15. The reader decides whether record calls return: in any reachable state one collection cycle is enough for
  every call made so far to finish without another one, and without a cycle a call that has not been observed
  stays blocked, whatever the other calls made so far do.
\<close>

theorem one_cycle_releases_all:
  assumes "recording_step\<^sup>*\<^sup>* [] rs"
  shows "(\<exists>ts. quiet_step\<^sup>*\<^sup>* (map run_callback rs) ts \<and> length ts = length rs \<and>
      list_all (\<lambda>r. rc_phase r = Unregistered) ts) \<and>
    (\<forall>ts i. quiet_step\<^sup>*\<^sup>* rs ts \<longrightarrow> i < length rs \<longrightarrow> rc_phase (rs ! i) = Blocked \<longrightarrow> rc_cycles (rs ! i) = 0 \<longrightarrow>
      rc_phase (ts ! i) = Blocked)"
proof (intro conjI exI allI impI)
  show "quiet_step\<^sup>*\<^sup>* (map run_callback rs) (map done_by_itself (map run_callback rs))" by (rule quiet_all)
  show "length (map done_by_itself (map run_callback rs)) = length rs" by simp
  show "list_all (\<lambda>r. rc_phase r = Unregistered) (map done_by_itself (map run_callback rs))"
    by (simp add: list_all_iff done_after_cycle)
next
  fix ts i
  assume run: "quiet_step\<^sup>*\<^sup>* rs ts" and i: "i < length rs" "rc_phase (rs ! i) = Blocked" "rc_cycles (rs ! i) = 0"
  have "recording_ok (rs ! i)"
    using recordings.reachable_inv [OF refl assms] i(1) by (simp add: list_all_length)
  then have "rc_senders (rs ! i) = 0" using i(3) by (simp add: recording_ok_def)
  then show "rc_phase (ts ! i) = Blocked" using quiet_blocked_run [OF run i(1,2)] i(2) by simp
qed

theorem one_cycle_releases_all_witness:
  "\<exists>ts :: string recording list. quiet_step\<^sup>*\<^sup>* (map run_callback
       [sample_recording Unregistered 3 2, new_recording [(Some ''total'', Fin 4, [])]]) ts \<and>
     list_all (\<lambda>r. rc_phase r = Unregistered) ts"
proof -
  let ?r = "new_recording [(Some ''total'', Fin 4, [])] :: string recording"
  have "recording_step\<^sup>*\<^sup>* [] [sample_recording Unregistered 3 2, ?r]"
    using sample_recording_run recording_step.register [of "[sample_recording Unregistered 3 2]" "[(Some ''total'', Fin 4, [])]"]
    by simp
  from one_cycle_releases_all [OF this] show ?thesis by blast
qed

end
