(* ===== verification/Shared_Labels.thy ===== *)
theory Shared_Labels
  imports Recorder
begin

section \<open>The label slices of the topology records are shared\<close>

text \<open>
  The theory \<open>Recorder\<close> takes the label lists of \<open>RecordTopologyMetrics\<close> as values. In the code they are slices: the one
  that a call builds is read by its callback in every collection cycle until the call unregisters, and, when the call is the
  first about its volume, it is also what \<open>Labels\<close> stores and what \<open>HaveLabelsChanged\<close> of a later call writes to. Here the slices live
  in a store, addressed by position.
\<close>

record 'i shared_state =
  sh_slices :: "label list list"
  sh_TopologyMetrics :: "string \<rightharpoonup> 'i option"
  sh_Labels :: "string \<rightharpoonup> nat"

definition new_shared :: "'i shared_state" where
  "new_shared = \<lparr>sh_slices = [], sh_TopologyMetrics = Map.empty, sh_Labels = Map.empty\<rparr>"

definition initTopologyMetrics_at :: "'i meter \<Rightarrow> string \<Rightarrow> nat \<Rightarrow> 'i shared_state \<Rightarrow> 'i option \<times> 'i shared_state" where
  "initTopologyMetrics_at meter metaID labels st =
     (let pvAvailable = (case Float64ObservableUpDownCounter meter ''karavi_topology_metrics'' of
            Inl err \<Rightarrow> None | Inr i \<Rightarrow> Some i)
      in (pvAvailable,
          st\<lparr>sh_TopologyMetrics := (sh_TopologyMetrics st)(metaID \<mapsto> pvAvailable),
             sh_Labels := (sh_Labels st)(metaID \<mapsto> labels)\<rparr>))"

text \<open>The slice \<open>updatedLabels\<close> is \<open>currentLabels\<close>, written in place.\<close>

definition HaveLabelsChanged_at :: "nat \<Rightarrow> nat \<Rightarrow> label list list \<Rightarrow> bool \<times> label list list" where
  "HaveLabelsChanged_at currentLabels labels slices =
     (let (haveLabelsChanged, updated) = HaveLabelsChanged (slices ! currentLabels) (slices ! labels)
      in (haveLabelsChanged, slices[currentLabels := updated]))"

definition updateLabels_at :: "'i meter \<Rightarrow> string \<Rightarrow> nat \<Rightarrow> 'i shared_state \<Rightarrow> 'i option \<times> 'i shared_state" where
  "updateLabels_at meter metaID labels st =
     (case sh_TopologyMetrics st metaID of
        None \<Rightarrow> initTopologyMetrics_at meter metaID labels st
      | Some metricsMapValue \<Rightarrow>
          (case sh_Labels st metaID of
             None \<Rightarrow> (metricsMapValue, st)
           | Some currentLabels \<Rightarrow>
               (let (haveLabelsChanged, slices) = HaveLabelsChanged_at currentLabels labels (sh_slices st);
                    st = st\<lparr>sh_slices := slices\<rparr>
                in if haveLabelsChanged then initTopologyMetrics_at meter metaID currentLabels st
                   else (metricsMapValue, st))))"

text \<open>Up to the registration of its callback: a call builds its slice and updates the labels.\<close>

definition record_at :: "'i meter \<Rightarrow> topology_meta \<Rightarrow> 'i shared_state \<Rightarrow> 'i option \<times> 'i shared_state" where
  "record_at meter v st =
     updateLabels_at meter (tm_PersistentVolume v) (length (sh_slices st))
       (st\<lparr>sh_slices := sh_slices st @ [topology_labels v]\<rparr>)"

definition shared_all :: "'i meter \<Rightarrow> (topology_meta \<times> topology_record) list \<Rightarrow> 'i shared_state" where
  "shared_all meter ms = foldl (\<lambda>st (v, r). snd (record_at meter v st)) new_shared ms"

subsection \<open>Values and slices\<close>

text \<open>What the lists of \<open>Recorder\<close> are for a store; two volumes never share a slice.\<close>

definition values_of :: "'i shared_state \<Rightarrow> 'i topology_state" where
  "values_of st = \<lparr>ts_TopologyMetrics = sh_TopologyMetrics st,
     ts_Labels = (\<lambda>k. map_option (nth (sh_slices st)) (sh_Labels st k))\<rparr>"

definition slices_ok :: "'i shared_state \<Rightarrow> bool" where
  "slices_ok st \<longleftrightarrow> (\<forall>k a. sh_Labels st k = Some a \<longrightarrow> a < length (sh_slices st)) \<and>
     (\<forall>k k' a. sh_Labels st k = Some a \<longrightarrow> sh_Labels st k' = Some a \<longrightarrow> k' = k)"

lemma label_scan_unchanged: "label_scan cur upd ch ls = (new, False) \<Longrightarrow> new = upd \<and> \<not> ch"
  by (induction ls arbitrary: upd ch) (auto split: if_splits)

lemma labels_loop_unchanged: "labels_loop ls cur ch = (news, False) \<Longrightarrow> news = cur \<and> \<not> ch"
proof (induction cur arbitrary: ch news)
  case (Cons c cur)
  obtain new ch' where scan: "label_scan c c ch ls = (new, ch')" by fastforce
  with Cons.prems obtain rest where rest: "labels_loop ls cur ch' = (rest, False)" "news = new # rest"
    by (auto split: prod.splits)
  from Cons.IH [OF rest(1)] scan rest(2) show ?case by (auto dest: label_scan_unchanged)
qed simp

lemma unchanged_labels: "HaveLabelsChanged cur ls = (ch, news) \<Longrightarrow> \<not> ch \<Longrightarrow> news = cur"
  by (auto simp: HaveLabelsChanged_def split: prod.splits dest: labels_loop_unchanged)

lemma record_at_Labels:
  "sh_Labels (snd (record_at meter v st)) =
     (if sh_TopologyMetrics st (tm_PersistentVolume v) = None
      then (sh_Labels st)(tm_PersistentVolume v \<mapsto> length (sh_slices st)) else sh_Labels st)"
  by (auto simp: record_at_def updateLabels_at_def initTopologyMetrics_at_def HaveLabelsChanged_at_def Let_def fun_upd_idem
      split: option.split prod.split)

lemma record_at_slices:
  "sh_slices (snd (record_at meter v st)) =
     (case sh_TopologyMetrics st (tm_PersistentVolume v) of
        None \<Rightarrow> sh_slices st @ [topology_labels v]
      | Some x \<Rightarrow>
         (case sh_Labels st (tm_PersistentVolume v) of
            None \<Rightarrow> sh_slices st @ [topology_labels v]
          | Some a \<Rightarrow> (sh_slices st @ [topology_labels v])[a := snd (HaveLabelsChanged
              ((sh_slices st @ [topology_labels v]) ! a) (topology_labels v))]))"
  by (auto simp: record_at_def updateLabels_at_def initTopologyMetrics_at_def HaveLabelsChanged_at_def Let_def
      split: option.split prod.split)

lemma record_at_ok: "slices_ok st \<Longrightarrow> slices_ok (snd (record_at meter v st))"
  unfolding slices_ok_def record_at_Labels record_at_slices
  by (auto split: option.split if_splits) (metis less_irrefl less_SucI)+

text \<open>A call on the store is the call of \<open>Recorder\<close> on the values.\<close>

lemma record_at_values:
  assumes "slices_ok st"
  shows "values_of (snd (record_at meter v st)) =
    snd (mrw_RecordTopologyMetrics meter cycles (Some v) r (values_of st))"
proof -
  let ?k = "tm_PersistentVolume v"
  have old: "map_option ((!) (sh_slices st @ [ls])) (sh_Labels st k) = map_option ((!) (sh_slices st)) (sh_Labels st k)" for k ls
    using assms by (cases "sh_Labels st k") (auto simp: slices_ok_def nth_append)
  have upd: "map_option ((!) ((sh_slices st @ [ls])[a := ns])) (sh_Labels st k) =
      (if k = ?k then Some ns else map_option ((!) (sh_slices st)) (sh_Labels st k))"
    if "sh_Labels st ?k = Some a" for a ns k ls
  proof -
    have a: "a < length (sh_slices st)" using assms that by (simp add: slices_ok_def)
    have "b \<noteq> a \<and> b < length (sh_slices st)" if "sh_Labels st k = Some b" "k \<noteq> ?k" for b
      using assms \<open>sh_Labels st ?k = Some a\<close> that unfolding slices_ok_def by metis
    then show ?thesis using that a by (cases "sh_Labels st k") (auto simp: nth_append)
  qed
  show ?thesis
  proof (cases "sh_TopologyMetrics st ?k")
    case None
    then show ?thesis
      by (auto simp: values_of_def record_at_def updateLabels_at_def initTopologyMetrics_at_def mrw_RecordTopologyMetrics_def
          updateLabels_def initTopologyMetrics_def Let_def old fun_eq_iff)
  next
    case (Some x)
    show ?thesis
    proof (cases "sh_Labels st ?k")
      case None
      with Some show ?thesis
        by (auto simp: values_of_def record_at_def updateLabels_at_def mrw_RecordTopologyMetrics_def updateLabels_def Let_def old)
    next
      case (Some a)
      have a: "a < length (sh_slices st)" using assms Some by (simp add: slices_ok_def)
      obtain ch ns where h: "HaveLabelsChanged (sh_slices st ! a) (topology_labels v) = (ch, ns)" by fastforce
      have same: "ns = sh_slices st ! a" if "\<not> ch" using h that by (rule unchanged_labels)
      show ?thesis
        using \<open>sh_TopologyMetrics st ?k = Some x\<close> Some a h same
        by (cases ch) (auto simp: values_of_def record_at_def updateLabels_at_def initTopologyMetrics_at_def HaveLabelsChanged_at_def
            mrw_RecordTopologyMetrics_def updateLabels_def initTopologyMetrics_def Let_def nth_append upd fun_eq_iff)
    qed
  qed
qed

lemma shared_all_snoc: "shared_all meter (ms @ [(v, r)]) = snd (record_at meter v (shared_all meter ms))"
  by (simp add: shared_all_def)

lemma shared_all_values:
  "slices_ok (shared_all meter ms) \<and> values_of (shared_all meter ms) = record_all meter cycles ms"
proof (induction ms rule: rev_induct)
  case Nil
  show ?case by (simp add: shared_all_def new_shared_def slices_ok_def values_of_def record_all_def)
next
  case (snoc m ms)
  obtain v r where m: "m = (v, r)" by (cases m)
  have "record_all meter cycles (ms @ [m]) = snd (mrw_RecordTopologyMetrics meter cycles (Some v) r (record_all meter cycles ms))"
    by (simp add: record_all_def m)
  with snoc show ?case
    by (simp add: m shared_all_snoc record_at_ok record_at_values [where cycles = cycles and r = r])
qed

subsection \<open>What the callbacks of earlier calls see\<close>

abbreviation volume_of :: "topology_meta \<times> topology_record \<Rightarrow> string" where
  "volume_of m \<equiv> tm_PersistentVolume (fst m)"

definition seen_labels :: "(topology_meta \<times> topology_record) list \<Rightarrow> nat \<Rightarrow> label list" where
  "seen_labels ms j =
     topology_labels (fst (if list_ex (\<lambda>m. volume_of m = volume_of (ms ! j)) (take j ms) then ms ! j
       else last (filter (\<lambda>m. volume_of m = volume_of (ms ! j)) ms)))"

definition first_about :: "string \<Rightarrow> (topology_meta \<times> topology_record) list \<Rightarrow> nat" where
  "first_about k ms = length (takeWhile (\<lambda>m. volume_of m \<noteq> k) ms)"

lemma first_about_snoc: "k \<in> volume_of ` set ms \<Longrightarrow> first_about k (ms @ [m]) = first_about k ms"
  by (auto simp: first_about_def takeWhile_append1)

lemma first_about_new:
  assumes "k \<notin> volume_of ` set ms"
  shows "first_about k ms = length ms"
proof -
  have "takeWhile (\<lambda>m. volume_of m \<noteq> k) ms = ms" using assms by (auto simp: takeWhile_eq_all_conv)
  then show ?thesis unfolding first_about_def by (rule arg_cong)
qed

lemma first_about_nth:
  assumes "k \<in> volume_of ` set ms"
  shows "first_about k ms < length ms" and "volume_of (ms ! first_about k ms) = k"
    and "\<not> list_ex (\<lambda>m. volume_of m = k) (take (first_about k ms) ms)"
proof -
  obtain us m vs where ms: "ms = us @ m # vs" and m: "volume_of m = k" and us: "\<forall>u\<in>set us. volume_of u \<noteq> k"
    using assms split_list_first_prop [of ms "\<lambda>m. volume_of m = k"] by blast
  have f: "first_about k ms = length us" using m us by (simp add: first_about_def ms)
  show "first_about k ms < length ms" and "volume_of (ms ! first_about k ms) = k"
    and "\<not> list_ex (\<lambda>m. volume_of m = k) (take (first_about k ms) ms)"
    using m us unfolding f by (simp_all add: ms list_ex_iff)
qed

lemma first_about_unique:
  assumes "j < length ms" and "volume_of (ms ! j) = k" and "\<not> list_ex (\<lambda>m. volume_of m = k) (take j ms)"
  shows "first_about k ms = j"
proof -
  have "takeWhile (\<lambda>m. volume_of m \<noteq> k) (take j ms @ drop j ms) = take j ms @ takeWhile (\<lambda>m. volume_of m \<noteq> k) (drop j ms)"
    using assms(3) by (intro takeWhile_append2) (auto simp: list_ex_iff)
  moreover have "takeWhile (\<lambda>m. volume_of m \<noteq> k) (drop j ms) = []"
    using assms(1,2) by (simp flip: Cons_nth_drop_Suc)
  ultimately show ?thesis using assms(1) by (simp add: first_about_def)
qed

lemma seen_labels_snoc:
  assumes "j < length ms"
  shows "seen_labels (ms @ [m]) j =
    (if volume_of (ms ! j) = volume_of m \<and> j = first_about (volume_of m) ms then topology_labels (fst m) else seen_labels ms j)"
proof (cases "volume_of (ms ! j) = volume_of m")
  case True
  then have "volume_of m \<in> volume_of ` set ms" using assms by (metis image_eqI nth_mem)
  note first = first_about_nth(3) [OF this] first_about_unique [OF assms True]
  show ?thesis
  proof (cases "j = first_about (volume_of m) ms")
    case j: True
    have "\<not> list_ex (\<lambda>m'. volume_of m' = volume_of m) (take j ms)" using first(1) unfolding j .
    with True j assms show ?thesis by (simp add: seen_labels_def nth_append)
  next
    case False
    then have "list_ex (\<lambda>m'. volume_of m' = volume_of m) (take j ms)" using first(2) by blast
    with True False assms show ?thesis by (simp add: seen_labels_def nth_append)
  qed
next
  case False
  with assms show ?thesis by (simp add: seen_labels_def nth_append)
qed

lemma seen_labels_new: "seen_labels (ms @ [m]) (length ms) = topology_labels (fst m)"
  by (simp add: seen_labels_def)

lemma seen_labels_form: "\<exists>w. seen_labels ms j = topology_labels w"
  unfolding seen_labels_def by blast

lemma shared_all_slices:
  "(\<forall>k. sh_TopologyMetrics (shared_all meter ms) k = None \<longleftrightarrow> k \<notin> volume_of ` set ms) \<and>
   (\<forall>k. sh_Labels (shared_all meter ms) k = (if k \<in> volume_of ` set ms then Some (first_about k ms) else None)) \<and>
   sh_slices (shared_all meter ms) = map (seen_labels ms) [0..<length ms]"
proof (induction ms rule: rev_induct)
  case Nil
  show ?case by (simp add: shared_all_def new_shared_def)
next
  case (snoc m ms)
  obtain v r where m: "m = (v, r)" by (cases m)
  let ?st = "shared_all meter ms" and ?k = "tm_PersistentVolume v"
  have top: "sh_TopologyMetrics ?st k = None \<longleftrightarrow> k \<notin> volume_of ` set ms"
    and lab: "sh_Labels ?st k = (if k \<in> volume_of ` set ms then Some (first_about k ms) else None)"
    and sl: "sh_slices ?st = map (seen_labels ms) [0..<length ms]" for k
    using snoc by simp_all
  have "sh_TopologyMetrics (snd (record_at meter v ?st)) k = None \<longleftrightarrow> k \<notin> insert ?k (volume_of ` set ms)" for k
    using top by (auto simp: record_at_def updateLabels_at_def initTopologyMetrics_at_def HaveLabelsChanged_at_def Let_def lab
        split: option.split prod.split)
  moreover have "sh_Labels (snd (record_at meter v ?st)) k =
      (if k \<in> insert ?k (volume_of ` set ms) then Some (first_about k (ms @ [(v, r)])) else None)" for k
  proof (cases "?k \<in> volume_of ` set ms")
    case True
    then show ?thesis using top [of ?k] by (auto simp: record_at_Labels lab first_about_snoc)
  next
    case False
    then have "first_about ?k (ms @ [(v, r)]) = length ms"
      by (intro first_about_unique) (force simp: list_ex_iff)+
    with False show ?thesis using top [of ?k] by (auto simp: record_at_Labels lab sl first_about_snoc)
  qed
  moreover have "sh_slices (snd (record_at meter v ?st)) = map (seen_labels (ms @ [(v, r)])) [0..<length (ms @ [(v, r)])]"
  proof (rule nth_equalityI)
    fix j
    assume "j < length (sh_slices (snd (record_at meter v ?st)))"
    then have j: "j \<le> length ms" by (auto simp: record_at_slices sl split: option.splits)
    show "sh_slices (snd (record_at meter v ?st)) ! j = map (seen_labels (ms @ [(v, r)])) [0..<length (ms @ [(v, r)])] ! j"
    proof (cases "?k \<in> volume_of ` set ms")
      case True
      note f = first_about_nth [OF True]
      obtain w where w: "seen_labels ms (first_about ?k ms) = topology_labels w" using seen_labels_form by blast
      obtain x where x: "sh_TopologyMetrics ?st ?k = Some x" using top [of ?k] True by blast
      have slices: "sh_slices (snd (record_at meter v ?st)) =
          (map (seen_labels ms) [0..<length ms] @ [topology_labels v])[first_about ?k ms := topology_labels v]"
        using True f(1) by (simp add: record_at_slices x lab sl nth_append w topology_labels_changed)
      show ?thesis
      proof (cases "j = length ms")
        case False
        with j have "j < length ms" by simp
        with f(2) slices show ?thesis
          by (cases "j = first_about ?k ms") (simp_all add: nth_append seen_labels_snoc)
      qed (use f(1) slices seen_labels_new [of ms "(v, r)"] in \<open>simp add: nth_append\<close>)
    next
      case False
      then have "volume_of (ms ! j) \<noteq> ?k" if "j < length ms" using that by (metis image_eqI nth_mem)
      with False j top [of ?k] show ?thesis
        by (cases "j = length ms")
          (auto simp: record_at_slices sl nth_append seen_labels_snoc seen_labels_new)
    qed
  qed (auto simp: record_at_slices sl split: option.split)
  ultimately show ?case by (simp add: m shared_all_snoc)
qed

text \<open>
  C30. The labels of the topology records with their slices shared, for any sequence of records: what the recorder remembers is
  what the model with lists remembers; and the slice of the \<open>j\<close>-th call, which its callback observes for as long as it is
  registered, holds the labels that the call was given when an earlier call was about the same volume, but those of the last record about
  the volume when it was the first: the later calls have written to it.
\<close>

theorem slices_hold_later_labels:
  "values_of (shared_all meter ms) = record_all meter cycles ms \<and>
   sh_slices (shared_all meter ms) = map (\<lambda>j. topology_labels (fst
     (if list_ex (\<lambda>m. tm_PersistentVolume (fst m) = tm_PersistentVolume (fst (ms ! j))) (take j ms) then ms ! j
      else last (filter (\<lambda>m. tm_PersistentVolume (fst m) = tm_PersistentVolume (fst (ms ! j))) ms)))) [0..<length ms]"
  using shared_all_values [of meter ms cycles] shared_all_slices [of meter ms] by (simp add: seen_labels_def)

end
