(* ===== verification/Spec2Isabelle.thy ===== *)
theory Spec2Isabelle
  imports Prelude Float64 Metric_Types K8s Base_Metrics Samples Pipeline Fanout Chain Capacity Capacity_Push
    Performance Performance_Facts Topology Singleton Recorder Service K8s_Pmax K8s_Utils Entrypoint Main_Config
    Exporter Startup Shutdown Timers Program System Overlap Reloads Observations Callbacks
    Shared_Labels
begin

text \<open>
  The program is the PowerMax metrics module of Dell's Container Storage Modules: a process that runs
  in a Kubernetes cluster, and, while it holds a leader lease, asks the PowerMax arrays behind the
  cluster's persistent volumes for capacity and performance figures and records them, with the
  topology of the volumes, through OpenTelemetry.

  \<^bold>\<open>How the parts work together.\<close> \<open>cmd/metrics-powermax/main.go\<close> reads the settings, connects the
  configured arrays (\<open>internal/k8spmax\<close>) and hands them to the service
  (\<open>internal/service/service.go\<close>); a change of the configuration file or of a secret repeats that.
  \<open>internal/entrypoint/run.go\<close> validates the configuration, starts the leader election
  (\<open>internal/k8s/leader_elector.go\<close>) and the exporter (\<open>opentelemetry/exporters\<close>) and then serves
  tickers in a loop that calls the service's three exports. Each export goes through a
  singleton collector (\<open>internal/service/metric\<close>): it lists the volumes (\<open>internal/k8s\<close>), gathers
  records from the arrays with a bounded pool of goroutines, and pushes each record to the metrics
  recorder, which blocks until the OpenTelemetry reader has run its callback. After the
  export the service records self-metrics for every array.

  \<^bold>\<open>Theories and sources.\<close> Definitions keep the names of the Go functions, types and fields; the
  fields of a record have a short prefix (\<open>vi_\<close> for \<open>VolumeInfo\<close>, \<open>cr_\<close> for the capacity record and
  so on).

  \<^item> \<open>Prelude\<close>: errors as a sum type (an \<open>Err\<close> value or a \<open>Panic\<close>), \<open>strings.Split\<close> and
    \<open>strings.Contains\<close>, \<open>int64\<close> as a 64-bit word, maps as association lists with an arbitrary iteration
    order, and the two locales of step systems (an invariant; an invariant with a decreasing measure).
  \<^item> \<open>Float64\<close>: binary64 numbers over the rationals with round-to-nearest-even, overflow, signed
    zeros and NaN, and the addition, product, quotient and comparison the program uses.
  \<^item> \<open>Metric_Types\<close>: \<open>metrictypes.go\<close> and the \<open>VolumeInfo\<close> of \<open>volume_finder.go\<close>; a client is a record
    of functions, the parsing of volume handles, and the locale of maps filled by loops.
  \<^item> \<open>K8s\<close>: the volume finder, the storage class finder, the lazily connected API client and the
    leader elector of \<open>internal/k8s\<close>.
  \<^item> \<open>Base_Metrics\<close>: \<open>base_metrics.go\<close> with the sequential constructor of the singletons, which publishes the instance and then
    assigns its collector, and the
    locale \<open>metrics_collector\<close>, the contract between \<open>ExportMetrics\<close> and a \<open>Collect\<close> method, which
    the three collectors interpret. \<open>Singleton\<close>: the double-checked locking of the constructors as a
    step relation over any number of callers, the assignment of the collector after the publication included. \<open>Samples\<close>: one concrete array, volume and service.
  \<^item> \<open>Pipeline\<close>: the goroutines of the three gather functions (spawner, wait group, semaphore,
    workers, unbuffered channel) as a step relation on \<open>pool\<close>. \<open>Fanout\<close>: the stages with one
    goroutine per received item. \<open>Chain\<close>: a gather function and its push function at the same time, with
    the locale \<open>producer\<close>, which the pool and the stage interpret; the joint run refines one after the other,
    which is how the collectors compose them.
  \<^item> \<open>Capacity\<close> and \<open>Capacity_Push\<close>: \<open>capacity_metrics.go\<close> (grouping, bulk and per-volume collection,
    gathering; the five sums and the recording calls).
  \<^item> \<open>Performance\<close> (definitions) and \<open>Performance_Facts\<close> (lemmas): \<open>performance_metrics.go\<close>.
  \<^item> \<open>Topology\<close>: \<open>topology_metrics.go\<close>. \<open>Recorder\<close>: \<open>metrics_recorder_wrapper.go\<close> and
    \<open>utilsconverter\<close>.
  \<^item> \<open>Service\<close>: \<open>service.go\<close> and \<open>observability_metrics.go\<close>. \<open>K8s_Pmax\<close>: \<open>internal/k8spmax\<close>.
    \<open>K8s_Utils\<close>: \<open>internal/k8sutils\<close>. \<open>Entrypoint\<close>: \<open>run.go\<close>. \<open>Main_Config\<close>: the update functions
    and the metrics server of \<open>main.go\<close>. \<open>Exporter\<close>: the collector exporter and how \<open>Run\<close> starts it. \<open>Startup\<close>: the two goroutines
    that \<open>Run\<close> starts, with the main loop, over their error channel of capacity one; the election goroutine stays inside
    \<open>Elector.Run\<close> until the lease is lost, if ever. \<open>Shutdown\<close>: the deferred \<open>StopExporter\<close> against a start that
    is still running, assignment by assignment. \<open>Timers\<close>: the tickers that the events of the loop come from,
    with a clock.
  \<^item> \<open>Program\<close>: \<open>configure\<close> and \<open>main\<close>, and the changes that reach the running program, as a step
    relation on the record \<open>world\<close> of all its objects. \<open>System\<close>: the exports over the life of the program,
    with the collector singletons, and the schedules of changes and turns that the main loop lives through: what the environment
    answers (\<open>answers\<close>, \<open>environment\<close>) is given with the schedule, each turn performs the actions that \<open>run_turn\<close> decides on, and
    an export or a probe that panics ends the program.
    \<open>Overlap\<close>: a change of the configuration file and one of a secret, each handled by a goroutine of its own that takes one change after the
    other, under way at the same time, assignment by assignment, while an export reads the service; \<open>Reloads\<close>: turns of the main loop that read the intervals in the
    middle of such changes.
    \<open>Observations\<close>: from the recorder's calls of a capacity export to what the OpenTelemetry reader observes.
    \<open>Callbacks\<close>: record calls, collection cycles and the goroutines that their callbacks start, running
    concurrently; the outcome \<open>observe_until_done\<close> of one call is refined by every interleaving of them.
    \<open>Shared_Labels\<close>: the label slices of the topology records in a store, as they are shared between a callback and
    the remembered labels; it refines the lists of \<open>Recorder\<close>.

  \<^bold>\<open>How code is modelled.\<close> A method is a function of its receiver's fields and its arguments; what it
  changes is part of its result. What is not in this repository (gopowermax, client-go, the
  OpenTelemetry SDK, viper, the clock, the environment) is a parameter. The order in which a map is
  ranged over is an arbitrary permutation, a fresh one for each range. Goroutines are step relations:
  a schedule is a sequence of steps, and the functions that start goroutines become relations
  between their input and what the consumer receives (\<open>gathers_capacity\<close>, \<open>gathers_volumes\<close>,
  \<open>gathers_groups\<close>, \<open>gatherTopologyMetrics\<close>). The main loop is a function \<open>run_turn\<close> of the
  loop's variables and of an event that carries what the environment answers in that turn; \<open>NewTicker\<close> and \<open>Reset\<close> panic
  there on an interval that is not positive. Logging
  is left out everywhere.

  \<^bold>\<open>What the lemmas show.\<close> For every collector: each schedule ends, without a panic and within a fixed
  number of steps, and delivers exactly the records that the sequential functions compute
  (\<open>gather_terminates\<close>, \<open>gather_complete\<close>, \<open>stage_complete\<close>, \<open>push_and_gather_end\<close>, \<open>capacity_delivered\<close>,
  \<open>groups_delivered\<close>, \<open>volume_records_sound\<close>, \<open>topology_complete\<close>). For what they compute: the sums,
  percentages, thresholds, cached counts and unit conversions, on binary64 numbers. For the
  configuration: which arrays are connected, which intervals and limits are accepted, including
  wrap-around. For the main loop: which exports a turn performs, what the leadership flags mean,
  when and with what the loop ends, how the two goroutines of the start decide about it, when a turn panics and which reloads cannot cause it, even read half-way
  (\<open>overlapping_reloads_never_panic\<close>); how many exports of a kind a span of time can have and that a full interval
  follows the collection on acquisition of the lease (\<open>exports_rate_bounded\<close>, \<open>full_interval_after_acquisition\<close>);
  and what stopping the exporter can meet when its start has not finished (\<open>stop_races_start\<close>). \<open>service_always_ready\<close> and, in the middle of changes, \<open>ready_amid_changes\<close>, are the invariant of the running
  program, and the theorems of this theory build on it: every export comes to an end and every schedule can be
  lived through; a capacity export makes exactly the calls that the volumes' own answers determine; and what a
  collector copied at its first use is never replaced.

  \<^bold>\<open>Bounds and fuel.\<close> The only fuel is that of \<open>server_run\<close> in \<open>Topology\<close>, the goroutine that fills a
  buffered channel: it takes one turn per volume and one to close, so the number of volumes plus one is
  enough, as the lemma \<open>server_run_served\<close> shows. The recorder's blocking wait is a parameter: the number
  of collection cycles the reader runs before the recorder is woken; with none the call does not
  return, which is the value \<open>None\<close>. \<open>Callbacks\<close> derives this outcome, with one goroutine left blocked for every further cycle. The collectors see the recorder through its interface, whose calls
  return: the reader is taken to go on collecting. In \<open>System\<close> a change is atomic with respect to an export;
  \<open>Overlap\<close> takes every assignment of a change and every read of an export as a step of its own. Go's \<open>int\<close> is \<open>int\<close> where the values are lengths and counts, and
  a 64-bit word where the code multiplies (intervals). The clock of \<open>Timers\<close> is unbounded and counts nanoseconds; a
  ticker holds one undelivered tick, and \<open>Reset\<close> discards it, as the runtime does since Go 1.23 (\<open>go.mod\<close> asks for a later one).

  \<^bold>\<open>Not modelled.\<close> Logging (\<open>csmlog\<close>, \<open>TimeSince\<close>; the settings it is given are), the file watchers of
  viper (a change is an event), the start of the HTTP server's goroutine, generated mocks and tests, and the interface
  declarations of \<open>opentelemetry/exporters/types.go\<close>. Data races on unsynchronized fields are not
  given a semantics; where the code has one (the singletons, the fields of \<open>Config\<close> and the service, the collector exporter), the
  interleavings of the individual assignments and reads are modelled.
\<close>

section \<open>Properties that span components\<close>

text \<open>
  C1. Every export comes to an end: in any state the program can reach after \<open>configure\<close>, by any sequence of
  reloads, secret changes and exports, an export of each kind has an outcome (it neither blocks on the
  connection limit nor panics on a missing client, whatever the settings, the secrets and the arrays' answers
  were), and every outcome is a success exactly when the volumes can be listed and the clients that the
  kind's collector copied at its first export are not nil.
\<close>

theorem every_export_returns:
  assumes "connection arrays"
    and "configure getenv get (init :: string \<Rightarrow> unit option \<times> error option) k8sUtils arrays recorder finder = Inr w0"
    and "(system_step ratio)\<^sup>*\<^sup>* (new_system w0) y" and "s = sy_service y"
  shows "(\<exists>res calls inst. ExportCapacityMetrics ord s found t (sy_capacity y) res calls inst) \<and>
    (\<exists>res calls inst. ExportPerformanceMetrics ratio clock (sy_cache y) ord s found t (sy_performance y) res calls inst) \<and>
    (\<exists>res calls inst. ExportTopologyMetrics ord s found t (sy_topology y) res calls inst) \<and>
    (\<forall>res calls inst. ExportCapacityMetrics ord s found t (sy_capacity y) res calls inst \<longrightarrow>
       ((\<exists>x. res = Inr x) \<longleftrightarrow> bm_PowerMaxClients (collector_base s (sy_capacity y)) \<noteq> None \<and> (\<exists>pvs. found = Inr pvs))) \<and>
    (\<forall>res calls inst. ExportPerformanceMetrics ratio clock (sy_cache y) ord s found t (sy_performance y) res calls inst \<longrightarrow>
       ((\<exists>x. res = Inr x) \<longleftrightarrow> bm_PowerMaxClients (collector_base s (sy_performance y)) \<noteq> None \<and> (\<exists>pvs. found = Inr pvs))) \<and>
    (\<forall>res calls inst. ExportTopologyMetrics ord s found t (sy_topology y) res calls inst \<longrightarrow>
       ((\<exists>x. res = Inr x) \<longleftrightarrow> bm_PowerMaxClients (collector_base s (sy_topology y)) \<noteq> None \<and> (\<exists>pvs. found = Inr pvs)))"
proof -
  have "started (new_system w0)" using configured_worldI [OF assms(1,2)] by (auto simp: started_def)
  then have "system_ready y" using assms(3) by (rule system_life.reachable_inv)
  then have w: "world_ready (sy_world y)" "pred_option base_ready (sy_capacity y)"
    "pred_option base_ready (sy_performance y)" "pred_option base_ready (sy_topology y)"
    by (simp_all add: system_ready_def)
  note ready = collector_base_ready [OF w(1), folded sy_service_def assms(4)]
  show ?thesis
    unfolding export_defs
    using capacity_collector.service_export_outcomes [OF ready [OF w(2)]]
      performance_collector.service_export_outcomes [OF ready [OF w(3)]]
      topology_collector.service_export_outcomes [OF ready [OF w(4)]]
    by (intro conjI) simp_all
qed

theorem every_export_returns_witness:
  "\<exists>res calls inst. ExportCapacityMetrics (\<lambda>m. m) (w_service sample_world) (Inr [sample_volume]) 0 None res calls inst \<and>
     (\<exists>x. res = Inr x)"
proof -
  have c: "bm_PowerMaxClients (collector_base (sy_service (new_system sample_world)) (sy_capacity (new_system sample_world))) \<noteq> None"
    by (simp add: sample_world_def world_update collector_base_def created_base_def NewBaseMetrics_def service_view_of_def sy_service_def
      new_system_def GetPowerMaxClients_def maps_Clone_def)
  from every_export_returns [OF sample_connection sample_configure rtranclp.rtrancl_refl refl,
      of "\<lambda>m. m" "Inr [sample_volume]" 0] c
  show ?thesis by (fastforce simp: sy_service_def new_system_def)
qed

text \<open>
  C2. The whole program never gets stuck: from a valid configuration every schedule of reloads, secret
  changes and main-loop turns can be lived through, whatever the environment answers meanwhile (the listing of the volumes, the
  clock, the orders in which maps are ranged over, each chosen before and not by the program). No export that a turn decides on blocks
  or panics, nor does the liveness probe meet a missing client: each turn performs all its actions, and
  however the exports come out, the loop ends as \<open>run_schedule\<close> says. The volume listing is assumed to answer, by volumes or by an
  error; that it can panic after a failed connection is the subject of \<open>failed_connect_poisons_client\<close>.
\<close>

theorem schedule_lived_through:
  assumes "connection arrays"
    and "configure getenv get (init :: string \<Rightarrow> unit option \<times> error option) k8sUtils arrays recorder finder = Inr w0"
    and "run_start (Some (w_config w0)) = Running st"
    and "list_all (\<lambda>(mo, env). honest_moment mo \<and> honest_environment env) sched"
  shows "(\<exists>z. lives ratio st (new_system w0) sched z (snd (run_schedule w0 (map fst sched)))) \<and>
    (\<forall>z final. lives ratio st (new_system w0) sched z final \<longrightarrow>
       system_ready z \<and> final = snd (run_schedule w0 (map fst sched)))"
proof -
  have "started (new_system w0)" using configured_worldI [OF assms(1,2)] by (auto simp: started_def)
  then have ready: "system_ready (new_system w0)" by (rule system_life.init_inv)
  have w: "sy_world (new_system w0) = w0" by (simp add: new_system_def)
  have "ValidateConfig (Some (w_config w0)) = None" using assms(3) by (auto simp: run_start_def split: option.splits)
  then have e: "snd (run_schedule w0 (map fst sched)) = snd (run_loop (turns_of w0 (map fst sched)) st)"
    using assms(3) by (simp add: run_schedule_def run_def case_prod_beta Let_def)
  show ?thesis unfolding e
    using lives_exists [OF ready assms(4), unfolded w] lives_final [OF _ ready assms(4), unfolded w] by blast
qed

theorem schedule_lived_through_witness:
  "let env = \<lparr>en_export = \<lambda>_. meanwhile_answers, en_probe = \<lambda>m. m\<rparr>;
       sched = [(Turn (Capacity_tick True), env), (Change (Secret (Inr [(''0257'', [sample_array])])), env),
         (Turn Liveness_tick, env), (Turn (Capacity_tick True), env)]
   in \<exists>st z. lives f64_zero st (new_system sample_world) sched z (snd (run_schedule sample_world (map fst sched))) \<and>
     system_ready z"
proof -
  let ?env = "\<lparr>en_export = \<lambda>_. meanwhile_answers, en_probe = \<lambda>m. m\<rparr>"
  let ?sched = "[(Turn (Capacity_tick True), ?env), (Change (Secret (Inr [(''0257'', [sample_array])])), ?env),
    (Turn Liveness_tick, ?env), (Turn (Capacity_tick True), ?env)]"
  obtain st where st: "run_start (Some (w_config sample_world)) = Running st" using sample_start by blast
  have "honest_environment ?env" by (simp add: honest_environment_def meanwhile_answers_def iteration_of_refl)
  then have "list_all (\<lambda>(mo, env). honest_moment mo \<and> honest_environment env) ?sched" by (simp add: sample_connection)
  from schedule_lived_through [OF sample_connection sample_configure st this, where ratio = f64_zero]
  show ?thesis unfolding Let_def by blast
qed

text \<open>
  C3. What a capacity export records, from the volumes (some handle of which names an array) and the arrays' answers to the calls
  of the recorder:
  there is one order of the volumes' own records such that, for every volume, storage group, resource pool,
  array and storage class, the recorder is called exactly once if a record belongs to it, with the
  left-to-right sums of its records, and not at all otherwise.
\<close>

theorem capacity_export_content:
  assumes "ExportCapacityMetrics ord s (Inr pvs) t inst (Inr (calls, ids)) obs inst'"
    and "\<not> list_all (\<lambda>v. handle_array_id (vi_VolumeHandle v) = None) pvs"
  shows "\<exists>rs. mset rs = mset (List.map_filter (volume_capacity (collector_base s inst)) pvs) \<and>
    (\<forall>a v g p c. CHR ''-'' \<notin> set a \<longrightarrow>
    calls_for ''powermax_volume_'' (\<lambda>r. cr_ArrayID r = a \<and> cr_VolumeID r = v) calls =
      group_call ''powermax_volume_'' volume_labels (\<lambda>r. cr_ArrayID r = a \<and> cr_VolumeID r = v) rs \<and>
    calls_for ''powermax_storage_group_'' (\<lambda>r. cr_ArrayID r = a \<and> cr_StorageGroupID r = g) calls =
      group_call ''powermax_storage_group_'' group_labels (\<lambda>r. cr_ArrayID r = a \<and> cr_StorageGroupID r = g) rs \<and>
    calls_for ''powermax_srp_'' (\<lambda>r. cr_ArrayID r = a \<and> cr_SrpID r = p) calls =
      group_call ''powermax_srp_'' srp_labels (\<lambda>r. cr_ArrayID r = a \<and> cr_SrpID r = p) rs \<and>
    calls_for ''powermax_array_'' (\<lambda>r. cr_ArrayID r = a) calls =
      group_call ''powermax_array_'' array_labels (\<lambda>r. cr_ArrayID r = a) rs \<and>
    calls_for ''powermax_storage_class_'' (\<lambda>r. cr_StorageClass r = c) calls =
      group_call ''powermax_storage_class_'' class_labels (\<lambda>r. cr_StorageClass r = c) rs)"
proof -
  obtain rs where rs: "mset rs = mset (List.map_filter (volume_capacity (collector_base s inst)) pvs)"
    and free: "dash_free rs" and push: "(\<exists>rec. pushCapacityMetrics rec rs (calls, ids)) \<or> rs = [] \<and> calls = []"
    using assms by (rule capacity_export_gathered)
  note level = pushed_levels [OF free _ push]
  show ?thesis by (intro exI [of _ rs] conjI allI impI rs level)
qed

theorem capacity_export_content_witness:
  "\<exists>calls ids obs inst r. ExportCapacityMetrics (\<lambda>m. m) sample_service (Inr [sample_volume]) 0 None (Inr (calls, ids)) obs inst \<and>
     cr_Total r = Fin 8 \<and> cr_Used r = Fin 2 \<and>
     calls_for ''powermax_volume_'' (\<lambda>r. cr_ArrayID r = ''0257'' \<and> cr_VolumeID r = ''00822'') calls =
       [(''powermax_volume_'', volume_labels r, r)]"
proof -
  let ?r = "capacity_record_of ''0257'' ''00822'' sample_volume (Fin 8) (Fin 2) (bulk_used_percent (hd sample_bulk))"
  obtain calls ids obs inst where e:
    "ExportCapacityMetrics (\<lambda>m. m) sample_service (Inr [sample_volume]) 0 None (Inr (calls, ids)) obs inst"
    using sample_export by blast
  obtain rs where rs: "mset rs = mset (List.map_filter (volume_capacity
      (sample_base :: base_metrics)) [sample_volume])"
    and all: "\<And>a v. CHR ''-'' \<notin> set a \<Longrightarrow>
      calls_for ''powermax_volume_'' (\<lambda>r. cr_ArrayID r = a \<and> cr_VolumeID r = v) calls =
      group_call ''powermax_volume_'' volume_labels (\<lambda>r. cr_ArrayID r = a \<and> cr_VolumeID r = v) rs"
    using capacity_export_content [OF e sample_named] unfolding sample_collector_base by blast
  note calls = all [of "''0257''" "''00822''"]
  have "rs = [?r]" using rs by (simp add: sample_capacity)
  then have "calls_for ''powermax_volume_'' (\<lambda>r. cr_ArrayID r = ''0257'' \<and> cr_VolumeID r = ''00822'') calls =
      [(''powermax_volume_'', volume_labels ?r, ?r)]"
    by (simp add: calls group_call_def group_sum_def capacity_record_of_def)
  moreover have "cr_Total ?r = Fin 8" "cr_Used ?r = Fin 2" by (simp_all add: capacity_record_of_def)
  ultimately show ?thesis using e by blast
qed


text \<open>
  C5. An array that had no live client when the capacity collector was first used is never collected: whatever
  reloads, secret changes and exports follow, even after the service has a live client for it, no call
  of a later capacity export is about that array; yet once the service has the client, the self-metrics of each
  such export report success for the array.
\<close>

theorem late_array_never_collected:
  assumes "ExportCapacityMetrics ord (sy_service y) found t None res obs inst"
    and "GetPowerMaxClient (NewBaseMetrics (service_view_of (sy_service y)) :: base_metrics) a = Inl err"
    and "a \<noteq> []"
    and "(system_step ratio)\<^sup>*\<^sup>* (y\<lparr>sy_capacity := inst\<rparr>) z"
    and "ExportCapacityMetrics ord' (sy_service z) found' t' (sy_capacity z) (Inr (calls, ids)) obs' inst'"
  shows "list_all (\<lambda>(p, ls, r). cr_ArrayID r \<noteq> a) calls \<and>
    (ps_ObsInstrumenter (sy_service z) = Some (Some ()) \<longrightarrow> ps_PowerMaxClients (sy_service z) = Some cm \<longrightarrow>
     (a, arrays) \<in> set (ord' cm) \<longrightarrow> list_ex pa_IsActive arrays \<longrightarrow> (\<exists>l. ExportSuccess l a ''success'' \<in> set obs'))"
proof -
  let ?b = "created_base (service_view_of (sy_service y))"
  have "inst = Some ?b"
    using assms(1) by (simp add: ExportCapacityMetrics_def service_export_iff collector_base_def)
  then have "sy_capacity z = Some ?b" using capacity_frozen [OF assms(4)] by simp
  then have b: "collector_base (sy_service z) (sy_capacity z) = ?b" by (simp add: collector_base_def)
  have "cr_ArrayID r \<noteq> a" if "(p, ls, r) \<in> set calls" for p ls r
    using collected_arrays [OF assms(5) that] assms(2,3) unfolding b created_base_def by auto
  moreover have "obs' = recordObsMetrics ord' t' None (sy_service z)"
    using assms(5) by (simp add: ExportCapacityMetrics_def service_export_iff export_error_def)
  ultimately show ?thesis using success_reported [of "sy_service z" cm a arrays ord' t'] by (auto simp: list_all_iff)
qed


theorem late_array_never_collected_witness:
  "\<exists>z calls ids obs inst. GetPowerMaxClient (NewBaseMetrics (service_view_of (sy_service z)) :: base_metrics) ''0257'' =
       Inr (Some sample_client) \<and>
     ExportCapacityMetrics (\<lambda>m. m) (sy_service z) (Inr [sample_volume]) 0 (sy_capacity z) (Inr (calls, ids)) obs inst \<and>
     list_all (\<lambda>(p, ls, r). cr_ArrayID r \<noteq> ''0257'') calls \<and> (\<exists>l. ExportSuccess l ''0257'' ''success'' \<in> set obs)"
proof -
  let ?w = "sample_world\<lparr>w_service := (w_service sample_world)\<lparr>ps_ObsInstrumenter := Some (Some ()),
      ps_PowerMaxClients := Some []\<rparr>\<rparr>"
  let ?y = "new_system ?w"
  let ?b = "created_base (service_view_of (sy_service ?y))"
  let ?w' = "apply_change (Secret (Inr [(''0257'', [sample_array])])) ?w"
  let ?z = "(?y\<lparr>sy_capacity := Some ?b\<rparr>)\<lparr>sy_world := ?w'\<rparr>"
  have ps: "ps_MetricsRecorder (w_service sample_world) \<noteq> None" "0 < ps_MaxPowerMaxConnections (w_service sample_world)"
    using configured_world_ready [OF configured_worldI [OF sample_connection sample_configure]]
    by (simp_all add: world_ready_def)
  have ready: "base_ready ?b" and clients: "bm_PowerMaxClients ?b = Some []"
    using ps by (simp_all add: base_ready_def base_ok_def clients_ok_def created_base_def NewBaseMetrics_def service_view_of_def
        sy_service_def new_system_def GetPowerMaxClients_def maps_Clone_def)
  have yb: "collector_base (sy_service ?y) None = ?b" by (simp add: collector_base_def)
  have ready': "base_ready (collector_base (sy_service ?y) None :: base_metrics)"
    and nonempty: "bm_PowerMaxClients (collector_base (sy_service ?y) None :: base_metrics) \<noteq> None"
    unfolding yb using ready clients by simp_all
  have none: "GetPowerMaxClient (NewBaseMetrics (service_view_of (sy_service ?y)) :: base_metrics) ''0257'' =
      Inl (no_client_error ''0257'')"
    using clients by (simp add: created_base_def GetPowerMaxClient_def)
  obtain calls0 ids0 obs inst where first:
    "ExportCapacityMetrics (\<lambda>m. m) (sy_service ?y) (Inr [sample_volume]) 0 None (Inr (calls0, ids0)) obs inst"
    using ready_capacity_export [OF ready' nonempty, of "\<lambda>m. m" "[sample_volume]" 0] by blast
  then have inst: "inst = Some ?b"
    by (simp add: ExportCapacityMetrics_def service_export_iff collector_base_def)
  have "world_step ?w ?w'" by (rule world_step.secret) (rule sample_connection)
  then have "system_step f64_zero (?y\<lparr>sy_capacity := inst\<rparr>) ?z"
    using system_step.world_changes [of "?y\<lparr>sy_capacity := inst\<rparr>" ?w' f64_zero]
    by (simp add: inst new_system_def)
  then have run: "(system_step f64_zero)\<^sup>*\<^sup>* (?y\<lparr>sy_capacity := inst\<rparr>) ?z" by (rule r_into_rtranclp)
  have zb: "collector_base (sy_service ?z) (sy_capacity ?z) = ?b" by (simp add: collector_base_def)
  obtain calls ids obs' inst' where second:
    "ExportCapacityMetrics (\<lambda>m. m) (sy_service ?z) (Inr [sample_volume]) 0 (sy_capacity ?z) (Inr (calls, ids)) obs' inst'"
    using ready_capacity_export [of "sy_service ?z" "sy_capacity ?z" "\<lambda>m. m" "[sample_volume]" 0, unfolded zb, OF ready]
      clients by blast
  have "list_all (\<lambda>(p, ls, r). cr_ArrayID r \<noteq> ''0257'') calls \<and> (\<exists>l. ExportSuccess l ''0257'' ''success'' \<in> set obs')"
    using late_array_never_collected [OF first none _ run second, of "[(''0257'', [sample_array])]" "[sample_array]"]
    by (simp add: world_update sy_service_def sample_array_def updatePowerMaxArrays_def SetPowerMaxClients_def
        maps_Clone_def)
  moreover have "GetPowerMaxClient (NewBaseMetrics (service_view_of (sy_service ?z)) :: base_metrics) ''0257'' =
      Inr (Some sample_client)"
    by (simp add: GetPowerMaxClient_def NewBaseMetrics_def service_view_of_def sy_service_def GetPowerMaxClients_def
        maps_Clone_def world_update sample_array_def)
  ultimately show ?thesis using second by blast
qed

end
